(* ===== verification/Champa_Prelude.thy ===== *)
theory Champa_Prelude
  imports Main "HOL-Library.Word"
begin

unbundle bit_operations_syntax

text \<open>
  Shared vocabulary of the development: bytes and byte strings, the error values the program
  compares or returns, panics, readers and writers in the sense of Go's package io, and the
  generic facts about lists, bits and words that the component theories rest on.

  Go strings and byte slices are both \<open>bytes\<close>, lists of 8-bit words; \<open>str\<close> turns a
  literal into its bytes. A Go \<^verbatim>\<open>int\<close> that is only ever a length or a count is a
  \<open>nat\<close>; one on which the code does arithmetic that can go negative is an \<open>int\<close>;
  fixed-width integers are words.
\<close>

section \<open>Collections of facts\<close>

named_theorems byte_simps \<open>bit tests and masks on bytes, as arithmetic on their values\<close>
named_theorems go_simps \<open>unfolding rules of small library functions\<close>

section \<open>Bytes and strings\<close>

type_synonym byte = "8 word"
type_synonym bytes = "byte list"

definition str :: "string \<Rightarrow> bytes" where
  "str s = map of_char s"

section \<open>Errors and panics\<close>

text \<open>
  Go's \<^verbatim>\<open>error\<close> is an open interface. The constructors are the sentinel values and
  error types that some code of the repository tests for or returns; \<open>ErrorText\<close> stands for
  \<^verbatim>\<open>fmt.Errorf\<close> and \<^verbatim>\<open>errors.New\<close> texts nobody inspects, \<open>Wrapped\<close> for \<^verbatim>\<open>fmt.Errorf\<close> with \<^verbatim>\<open>%w\<close>, and \<open>ExtErr\<close> for errors
  that come out of code outside the repository.
\<close>

datatype goerror =
    EOF | ErrUnexpectedEOF | ErrClosedPipe
  | ErrTooLong
  | CorruptInputError nat
  | InvalidByteError byte | ErrHexLength | ErrKeyLength nat
  | errPayload | errMissingNonce | ErrInvalidNonce
  | ErrUnknownVersion byte
  | errClosedPacketConn | errNotImplemented | OpError string goerror
  | ErrCacheQuota string
  | ErrorText string | Wrapped string goerror
  | ExtErr nat

text \<open>\<^verbatim>\<open>errors.Is\<close> looks through the errors that wrap others.\<close>

fun errorsIs :: "goerror \<Rightarrow> goerror \<Rightarrow> bool" where
  "errorsIs (OpError s e) target = (OpError s e = target \<or> errorsIs e target)"
| "errorsIs (Wrapped s e) target = (Wrapped s e = target \<or> errorsIs e target)"
| "errorsIs e target = (e = target)"

datatype 'a run = Return 'a | Panic string

text \<open>Sequencing: a panic ends the computation.\<close>

fun run_bind :: "'a run \<Rightarrow> ('a \<Rightarrow> 'b run) \<Rightarrow> 'b run" where
  "run_bind (Return x) f = f x"
| "run_bind (Panic s) f = Panic s"

lemma run_bind_cong [fundef_cong]:
  "m = m' \<Longrightarrow> (\<And>x. m' = Return x \<Longrightarrow> f x = g x) \<Longrightarrow> run_bind m f = run_bind m' g"
  by (cases m') auto

lemma run_bind_Return: "run_bind m f = Return y \<longleftrightarrow> (\<exists>x. m = Return x \<and> f x = Return y)"
  by (cases m) auto

section \<open>Times\<close>

text \<open>
  A \<^verbatim>\<open>time.Time\<close> is a number of nanoseconds since the zero time, a \<^verbatim>\<open>time.Duration\<close> a number of
  nanoseconds; \<^verbatim>\<open>t.Sub(u)\<close> saturates at the limits of a duration.
\<close>

definition timeSub :: "int \<Rightarrow> int \<Rightarrow> int" where
  "timeSub t u = max (- (2 ^ 63)) (min (2 ^ 63 - 1) (t - u))"

lemma timeSub_mono: "t \<le> u \<Longrightarrow> timeSub now u \<le> timeSub now t"
  by (simp add: timeSub_def)

definition IsZero :: "int \<Rightarrow> bool" where
  "IsZero t \<longleftrightarrow> t = 0"

definition second :: int where
  "second = 1000000000"

definition minute :: int where
  "minute = 60 * second"

section \<open>Readers and writers\<close>

text \<open>
  A reader hands out its data and then keeps failing with its error, \<open>EOF\<close> for a reader that
  simply ends. A writer is its \<^verbatim>\<open>Write\<close> method: the new state, the count it reports and
  the error, if any.
\<close>

record reader =
  rdata :: bytes
  rerr :: goerror

abbreviation eof_reader :: "bytes \<Rightarrow> reader" where
  "eof_reader s \<equiv> \<lparr>rdata = s, rerr = EOF\<rparr>"

type_synonym 'w io_write = "'w \<Rightarrow> bytes \<Rightarrow> 'w \<times> nat \<times> goerror option"

text \<open>\<^verbatim>\<open>bytes.Buffer\<close> is the writer that never fails.\<close>

definition buffer_Write :: "bytes io_write" where
  "buffer_Write b p = (b @ p, length p, None)"

text \<open>
  \<^verbatim>\<open>r.Read\<close> on a one-byte slice, \<^verbatim>\<open>io.ReadFull\<close> into a slice of \<open>n\<close> bytes and
  \<^verbatim>\<open>io.CopyN\<close> into a discarding writer.
\<close>

definition Read1 :: "reader \<Rightarrow> (goerror + byte) \<times> reader" where
  "Read1 r = (case rdata r of [] \<Rightarrow> (Inl (rerr r), r) | b # bs \<Rightarrow> (Inr b, r\<lparr>rdata := bs\<rparr>))"

definition ReadFull :: "reader \<Rightarrow> nat \<Rightarrow> (goerror + bytes) \<times> reader" where
  "ReadFull r n =
     (if n \<le> length (rdata r) then (Inr (take n (rdata r)), r\<lparr>rdata := drop n (rdata r)\<rparr>)
      else (Inl (if rerr r = EOF \<and> rdata r \<noteq> [] then ErrUnexpectedEOF else rerr r),
            r\<lparr>rdata := []\<rparr>))"

definition CopyN_Discard :: "reader \<Rightarrow> nat \<Rightarrow> goerror option \<times> reader" where
  "CopyN_Discard r n =
     (if n \<le> length (rdata r) then (None, r\<lparr>rdata := drop n (rdata r)\<rparr>)
      else (Some (rerr r), r\<lparr>rdata := []\<rparr>))"

text \<open>\<^verbatim>\<open>io.LimitReader\<close>: after \<open>n\<close> bytes the stream ends, whatever is behind them.\<close>

definition LimitReader :: "reader \<Rightarrow> nat \<Rightarrow> reader" where
  "LimitReader r n =
     \<lparr>rdata = take n (rdata r), rerr = if length (rdata r) < n then rerr r else EOF\<rparr>"

section \<open>The contract of a writer\<close>

text \<open>
  What \<^verbatim>\<open>io.Writer\<close> promises: a write that reports no error has taken all of its argument,
  in order, and says so in its count. \<open>content\<close> is what a later reader of the sink will see
  and \<open>ok\<close> the states in which the promise holds.
\<close>

locale io_writer =
  fixes wr :: "'w io_write"
    and content :: "'w \<Rightarrow> bytes"
    and ok :: "'w \<Rightarrow> bool"
  assumes write_content: "ok w \<Longrightarrow> wr w p = (w', n, None) \<Longrightarrow> content w' = content w @ p"
    and write_count: "ok w \<Longrightarrow> wr w p = (w', n, None) \<Longrightarrow> n = length p"
    and write_ok: "ok w \<Longrightarrow> wr w p = (w', n, None) \<Longrightarrow> ok w'"

locale reliable_writer = io_writer +
  assumes no_error: "ok w \<Longrightarrow> snd (snd (wr w p)) = None"
begin

lemma write_succeeds:
  assumes "ok w"
  shows "\<exists>w'. wr w p = (w', length p, None) \<and> ok w' \<and> content w' = content w @ p"
proof -
  obtain w' n e where w: "wr w p = (w', n, e)" by (cases "wr w p") auto
  with no_error [OF assms, of p] have "e = None" by simp
  with w have eq: "wr w p = (w', n, None)" by simp
  show ?thesis
    using eq write_content [OF assms eq] write_count [OF assms eq] write_ok [OF assms eq] by simp
qed

end

interpretation buffer: reliable_writer buffer_Write "\<lambda>b. b" "\<lambda>_. True"
  by unfold_locales (auto simp: buffer_Write_def)

section \<open>Invariants of step relations\<close>

text \<open>
  The concurrent parts of the program are step relations. A component promises that each of its steps keeps an invariant, or also that it does not
  raise some count; then this holds of all states that can be reached.
\<close>

locale step_invariant =
  fixes step :: "'s \<Rightarrow> 's \<Rightarrow> bool"
    and inv :: "'s \<Rightarrow> bool"
  assumes step_inv: "inv s \<Longrightarrow> step s s' \<Longrightarrow> inv s'"
begin

lemma reachable_inv: "step\<^sup>*\<^sup>* s s' \<Longrightarrow> inv s \<Longrightarrow> inv s'"
  by (induction rule: rtranclp_induct) (auto intro: step_inv)

end

locale step_bounded = step_invariant +
  fixes count :: "'a \<Rightarrow> nat"
  assumes step_count: "inv s \<Longrightarrow> step s s' \<Longrightarrow> count s' \<le> count s"
begin

lemma reachable_count: "step\<^sup>*\<^sup>* s s' \<Longrightarrow> inv s \<Longrightarrow> count s' \<le> count s"
proof (induction rule: rtranclp_induct)
  case (step y z)
  then show ?case using step_count [OF reachable_inv [OF step(1)] step(2)] by simp
qed simp

end

section \<open>Bits and words\<close>

lemma push_or_add: "b < 2 ^ k \<Longrightarrow> push_bit k a OR b = a * 2 ^ k + (b::nat)"
proof -
  assume "b < 2 ^ k"
  then have t: "take_bit k b = b" by (simp add: take_bit_nat_eq_self)
  have "push_bit k a + b = push_bit k a OR b"
  proof (rule disjunctive_add)
    fix n show "\<not> bit (push_bit k a) n \<or> \<not> bit b n"
      by (metis bit_push_bit_iff_nat bit_take_bit_iff not_le t)
  qed
  then show ?thesis by (simp add: push_bit_eq_mult)
qed

lemma unat_and_mask: "unat (b AND mask k) = unat b mod 2 ^ k" for b :: "'a::len word"
proof -
  have "unat (b AND mask k) = unat (take_bit k b)" by (simp only: take_bit_eq_mask)
  also have "\<dots> = take_bit k (unat b)" by (simp add: unsigned_take_bit_eq)
  finally show ?thesis by (simp only: take_bit_eq_mod)
qed

lemma bit_unat: "bit b k \<longleftrightarrow> odd (unat b div 2 ^ k)" for b :: "'a::len word"
proof -
  have "bit (unat b) k = bit b k"
    by (auto simp: bit_unsigned_iff dest: bit_imp_le_length)
  then show ?thesis by (simp add: bit_iff_odd)
qed

lemma unat_byte_less [simp]: "unat (b::byte) < 256"
  using unsigned_less [of b] by simp

lemma byte_and_63 [byte_simps]: "unat (b AND 0x3f) = unat b mod 64" for b :: byte
  using unat_and_mask [of b 6] by (simp add: mask_numeral)

lemma byte_and_127 [byte_simps]: "unat (b AND 0x7f) = unat b mod 128" for b :: byte
  using unat_and_mask [of b 7] by (simp add: mask_numeral)

lemma byte_and_128 [byte_simps]: "b AND 0x80 = 0 \<longleftrightarrow> unat b < 128" for b :: byte
proof -
  have "b AND 0x80 = 0 \<longleftrightarrow> \<not> bit b 7"
    using and_exp_eq_0_iff_not_bit [of b 7] by simp
  also have "\<dots> \<longleftrightarrow> even (unat b div 128)" by (simp add: bit_unat)
  also have "\<dots> \<longleftrightarrow> unat b < 128"
  proof -
    have "unat b div 128 = 0 \<or> unat b div 128 = 1" using unat_byte_less [of b] by linarith
    then show ?thesis by (auto simp: div_eq_0_iff)
  qed
  finally show ?thesis .
qed

lemma byte_and_64 [byte_simps]: "b AND 0x40 = 0 \<longleftrightarrow> unat b mod 128 < 64" for b :: byte
proof -
  have "b AND 0x40 = 0 \<longleftrightarrow> \<not> bit b 6"
    using and_exp_eq_0_iff_not_bit [of b 6] by simp
  also have "\<dots> \<longleftrightarrow> even (unat b div 64)" by (simp add: bit_unat)
  also have "\<dots> \<longleftrightarrow> unat b mod 128 < 64"
    using mod_mult2_eq [of "unat b" 64 2] mod_less_divisor [of 64 "unat b"]
    by (auto simp: even_iff_mod_2_eq_zero simp del: mod_less_divisor)
  finally show ?thesis .
qed

lemma int_and_eq_iff: "n AND mask k = n \<longleftrightarrow> 0 \<le> n \<and> n < 2 ^ k" for n :: int
  using take_bit_int_eq_self_iff [of k n] by (simp only: take_bit_eq_mask)

lemma int_and_63_iff: "n AND 0x3f = n \<longleftrightarrow> 0 \<le> n \<and> n < 64" for n :: int
  using int_and_eq_iff [of n 6] by (simp add: mask_numeral)

lemma int_and_63: "n AND 0x3f = n mod 64" for n :: int
  using take_bit_eq_mod [of 6 n] take_bit_eq_mask [of 6 n] by (simp add: mask_numeral)

lemma int_and_127: "n AND 0x7f = n mod 128" for n :: int
  using take_bit_eq_mod [of 7 n] take_bit_eq_mask [of 7 n] by (simp add: mask_numeral)

section \<open>Lists\<close>

lemma take_length_append [simp]: "n = length xs \<Longrightarrow> take n (xs @ ys) = xs"
  by simp

lemma drop_length_append [simp]: "n = length xs \<Longrightarrow> drop n (xs @ ys) = ys"
  by simp

section \<open>Reader lemmas\<close>

lemma Read1_simps [go_simps, simp]:
  "Read1 \<lparr>rdata = [], rerr = e\<rparr> = (Inl e, \<lparr>rdata = [], rerr = e\<rparr>)"
  "Read1 \<lparr>rdata = b # bs, rerr = e\<rparr> = (Inr b, \<lparr>rdata = bs, rerr = e\<rparr>)"
  by (simp_all add: Read1_def)

lemma ReadFull_append [go_simps, simp]:
  "n = length d \<Longrightarrow> ReadFull \<lparr>rdata = d @ s, rerr = e\<rparr> n = (Inr d, \<lparr>rdata = s, rerr = e\<rparr>)"
  by (simp add: ReadFull_def)

lemma CopyN_Discard_append [go_simps, simp]:
  "n = length d \<Longrightarrow> CopyN_Discard \<lparr>rdata = d @ s, rerr = e\<rparr> n = (None, \<lparr>rdata = s, rerr = e\<rparr>)"
  by (simp add: CopyN_Discard_def)

lemma Read1_length: "Read1 r = (Inr b, r') \<Longrightarrow> length (rdata r') < length (rdata r)"
  by (auto simp: Read1_def split: list.splits)

lemma CopyN_Discard_length: "CopyN_Discard r n = (x, r') \<Longrightarrow> length (rdata r') \<le> length (rdata r)"
  by (auto simp: CopyN_Discard_def split: if_splits)

end
