(* ===== verification/Container_Heap.thy ===== *)
theory Container_Heap
  imports Champa_Prelude "HOL-Library.Multiset"
begin

text \<open>
  The functions \<^verbatim>\<open>up\<close> and \<^verbatim>\<open>down\<close> of Go's \<^verbatim>\<open>container/heap\<close>, over the methods
  \<open>Less\<close> and \<open>Swap\<close> of a \<^verbatim>\<open>heap.Interface\<close>, each of which may panic. The locale
  \<open>heap_interface\<close> says what these methods must do; from it the functions are proved not to
  panic, to keep the elements, and to restore the heap order from the two ways in which it can be
  broken at one place.
\<close>

section \<open>The code\<close>

function heap_up ::
  "('s \<Rightarrow> nat \<Rightarrow> nat \<Rightarrow> bool run) \<Rightarrow> ('s \<Rightarrow> nat \<Rightarrow> nat \<Rightarrow> 's run) \<Rightarrow> 's \<Rightarrow> nat \<Rightarrow> 's run" where
  "heap_up Less Swap s j =
     (let i = (j - 1) div 2 in
      if i = j then Return s
      else run_bind (Less s j i) (\<lambda>less.
        if \<not> less then Return s
        else run_bind (Swap s i j) (\<lambda>s'. heap_up Less Swap s' i)))"
  by pat_completeness auto
termination
  by (relation "measure (\<lambda>(_, _, _, j). j)") auto

function heap_down_loop ::
  "('s \<Rightarrow> nat \<Rightarrow> nat \<Rightarrow> bool run) \<Rightarrow> ('s \<Rightarrow> nat \<Rightarrow> nat \<Rightarrow> 's run) \<Rightarrow> 's \<Rightarrow> nat \<Rightarrow> nat \<Rightarrow> ('s \<times> nat) run" where
  "heap_down_loop Less Swap s i n =
     (let j1 = 2 * i + 1 in
      if j1 \<ge> n then Return (s, i)
      else run_bind (if j1 + 1 < n then Less s (j1 + 1) j1 else Return False) (\<lambda>right.
        let j = (if right then j1 + 1 else j1) in
        run_bind (Less s j i) (\<lambda>less.
          if \<not> less then Return (s, i)
          else run_bind (Swap s i j) (\<lambda>s'. heap_down_loop Less Swap s' j n))))"
  by pat_completeness auto
termination
  by (relation "measure (\<lambda>(_, _, _, i, n). n - i)") auto

definition heap_down ::
  "('s \<Rightarrow> nat \<Rightarrow> nat \<Rightarrow> bool run) \<Rightarrow> ('s \<Rightarrow> nat \<Rightarrow> nat \<Rightarrow> 's run) \<Rightarrow> 's \<Rightarrow> nat \<Rightarrow> nat \<Rightarrow> ('s \<times> bool) run" where
  "heap_down Less Swap s i0 n =
     run_bind (heap_down_loop Less Swap s i0 n) (\<lambda>(s', i). Return (s', i > i0))"

declare heap_up.simps [simp del] heap_down_loop.simps [simp del]

lemma heap_down_loop_round:
  assumes "\<not> n \<le> 2 * i + 1"
    and "(if 2 * i + 2 < n then Less s (2 * i + 2) (2 * i + 1) else Return False) = Return right"
    and "c = (if right then 2 * i + 2 else 2 * i + 1)" and "Less s c i = Return l"
  shows "heap_down_loop Less Swap s i n =
    (if \<not> l then Return (s, i) else run_bind (Swap s i c) (\<lambda>s'. heap_down_loop Less Swap s' c n))"
proof -
  have "2 * i + 1 + 1 = 2 * i + 2" by simp
  then show ?thesis
    unfolding heap_down_loop.simps [of Less Swap s i n] Let_def using assms
    by (simp only: if_False run_bind.simps)
qed

text \<open>Whatever \<open>Swap\<close> preserves, the loops preserve.\<close>

lemma heap_up_preserves:
  assumes "\<And>s i j s'. Swap s i j = Return s' \<Longrightarrow> f s' = f s"
  shows "heap_up Less Swap s j = Return s' \<Longrightarrow> f s' = f s"
proof (induction j arbitrary: s rule: less_induct)
  case (less j)
  from less.prems show ?case
    by (subst (asm) heap_up.simps)
      (auto simp: Let_def run_bind_Return assms dest!: less.IH [rotated] split: if_splits)
qed

lemma heap_down_loop_preserves:
  assumes "\<And>s i j s'. Swap s i j = Return s' \<Longrightarrow> f s' = f s"
  shows "heap_down_loop Less Swap s i n = Return (s', i') \<Longrightarrow> f s' = f s"
proof (induction "n - i" arbitrary: s i rule: less_induct)
  case less
  from less.prems consider "s' = s"
    | j s2 where "j = Suc (2 * i) \<or> j = Suc (Suc (2 * i))" "i < n" "Swap s i j = Return s2"
      "heap_down_loop Less Swap s2 j n = Return (s', i')"
    by (auto simp: heap_down_loop.simps [of Less Swap s i] Let_def run_bind_Return split: if_splits)
  then show ?case
  proof cases
    case 2
    then have "n - j < n - i" by auto
    with 2 less.hyps [of j s2] assms [of s i j s2] show ?thesis by simp
  qed simp
qed

lemma heap_down_preserves:
  assumes "\<And>s i j s'. Swap s i j = Return s' \<Longrightarrow> f s' = f s"
    and "heap_down Less Swap s i n = Return (s', b)"
  shows "f s' = f s"
  using assms(2) heap_down_loop_preserves [OF assms(1)]
  by (auto simp: heap_down_def run_bind_Return)

section \<open>Heap order with one broken place\<close>

text \<open>
  \<open>f\<close> gives the keys by index. \<open>heap_order f n\<close>: no key below \<open>n\<close> is smaller than its
  parent's. In \<open>below_ok\<close> the key at \<open>j\<close> may be too small, in \<open>above_ok\<close> too large, in
  \<open>around_ok\<close> either; the parent of \<open>j\<close> is never larger than the children of \<open>j\<close>.
\<close>

definition parent :: "nat \<Rightarrow> nat" where
  "parent k = (k - 1) div 2"

definition in_order :: "(nat \<Rightarrow> 'k::linorder) \<Rightarrow> nat \<Rightarrow> bool" where
  "in_order f k \<longleftrightarrow> k = 0 \<or> f (parent k) \<le> f k"

definition heap_order :: "(nat \<Rightarrow> 'k::linorder) \<Rightarrow> nat \<Rightarrow> bool" where
  "heap_order f n \<longleftrightarrow> (\<forall>k<n. in_order f k)"

definition bridge :: "(nat \<Rightarrow> 'k::linorder) \<Rightarrow> nat \<Rightarrow> nat \<Rightarrow> bool" where
  "bridge f n j \<longleftrightarrow> (\<forall>c<n. 0 < j \<longrightarrow> 0 < c \<longrightarrow> parent c = j \<longrightarrow> f (parent j) \<le> f c)"

definition below_ok :: "(nat \<Rightarrow> 'k::linorder) \<Rightarrow> nat \<Rightarrow> nat \<Rightarrow> bool" where
  "below_ok f n j \<longleftrightarrow> (\<forall>k<n. k \<noteq> j \<longrightarrow> in_order f k) \<and> bridge f n j"

definition above_ok :: "(nat \<Rightarrow> 'k::linorder) \<Rightarrow> nat \<Rightarrow> nat \<Rightarrow> bool" where
  "above_ok f n j \<longleftrightarrow> (\<forall>k<n. 0 < k \<longrightarrow> parent k \<noteq> j \<longrightarrow> in_order f k) \<and> bridge f n j"

definition around_ok :: "(nat \<Rightarrow> 'k::linorder) \<Rightarrow> nat \<Rightarrow> nat \<Rightarrow> bool" where
  "around_ok f n j \<longleftrightarrow> (\<forall>k<n. k \<noteq> j \<longrightarrow> 0 < k \<longrightarrow> parent k \<noteq> j \<longrightarrow> in_order f k) \<and> bridge f n j"

lemmas heap_defs = in_order_def heap_order_def bridge_def below_ok_def above_ok_def around_ok_def

lemma parent_less: "0 < k \<Longrightarrow> parent k < k"
  by (simp add: parent_def)

lemma parent_children: "parent (2 * i + 1) = i" "parent (2 * i + 2) = i"
  by (simp_all add: parent_def)

lemma child_cases: "0 < c \<Longrightarrow> parent c = i \<Longrightarrow> c = 2 * i + 1 \<or> c = 2 * i + 2"
  unfolding parent_def by linarith

lemma heap_order_root: "heap_order f n \<Longrightarrow> k < n \<Longrightarrow> f 0 \<le> f k"
proof (induction k rule: less_induct)
  case (less k)
  then show ?case
    by (cases "k = 0") (use less parent_less [of k] in \<open>force simp: heap_defs\<close>)+
qed

lemma below_ok_done: "below_ok f n j \<Longrightarrow> in_order f j \<Longrightarrow> heap_order f n"
  by (auto simp: heap_defs)

lemma below_ok_step:
  assumes "below_ok f n j" and "j < n" and "0 < j" and "f j < f (parent j)"
  shows "below_ok (f(parent j := f j, j := f (parent j))) n (parent j)"
proof -
  let ?i = "parent j" and ?g = "f(parent j := f j, j := f (parent j))"
  have i: "?i < j" using parent_less assms(3) by blast
  have ord: "\<And>k. k < n \<Longrightarrow> 0 < k \<Longrightarrow> k \<noteq> j \<Longrightarrow> f (parent k) \<le> f k"
    and br: "\<And>c. c < n \<Longrightarrow> 0 < c \<Longrightarrow> parent c = j \<Longrightarrow> f ?i \<le> f c"
    using assms(1,3) by (auto simp: heap_defs)
  have "in_order ?g k" if "k < n" "k \<noteq> ?i" for k
    using ord [of k] br [of k] assms(3,4) that i unfolding in_order_def
    by (cases "k = j"; cases "parent k = j"; cases "parent k = ?i") (auto intro: order.trans less_imp_le)
  moreover have "bridge ?g n ?i"
    unfolding bridge_def
  proof (intro allI impI)
    fix c assume c: "c < n" "0 < ?i" "0 < c" "parent c = ?i"
    then have "f (parent ?i) \<le> f ?i" using ord [of ?i] assms(2) i by auto
    moreover have "parent ?i < ?i" using c parent_less by blast
    moreover from this have "c \<noteq> ?i" using c by auto
    moreover have "c \<noteq> j \<Longrightarrow> f ?i \<le> f c" using ord [of c] c by simp
    ultimately show "?g (parent ?i) \<le> ?g c" using i by (auto intro: order.trans)
  qed
  ultimately show ?thesis by (simp add: below_ok_def)
qed

lemma around_ok_stop:
  assumes "around_ok f n i" and "\<And>c. c < n \<Longrightarrow> c = 2 * i + 1 \<or> c = 2 * i + 2 \<Longrightarrow> f i \<le> f c"
  shows "below_ok f n i"
proof -
  have "in_order f k" if "k < n" "k \<noteq> i" for k
    using assms(1) assms(2) [of k] child_cases [of k i] that
    by (cases "0 < k \<and> parent k = i") (auto simp: heap_defs)
  then show ?thesis using assms(1) by (simp add: heap_defs)
qed

lemma above_ok_around: "above_ok f n i \<Longrightarrow> around_ok f n i"
  by (auto simp: heap_defs)

lemma above_ok_in_order: "above_ok f n i \<Longrightarrow> i < n \<Longrightarrow> in_order f i"
  using parent_less [of i] by (auto simp: heap_defs)

lemma around_ok_step:
  assumes "around_ok f n i" and "c < n" and "c = 2 * i + 1 \<or> c = 2 * i + 2" and "f c < f i"
    and "\<And>d. d < n \<Longrightarrow> d = 2 * i + 1 \<or> d = 2 * i + 2 \<Longrightarrow> f c \<le> f d"
  shows "above_ok (f(i := f c, c := f i)) n c"
proof -
  let ?g = "f(i := f c, c := f i)"
  have pc: "parent c = i" "0 < c" "i < c" using assms(3) parent_children by auto
  have ord: "\<And>k. k < n \<Longrightarrow> k \<noteq> i \<Longrightarrow> 0 < k \<Longrightarrow> parent k \<noteq> i \<Longrightarrow> f (parent k) \<le> f k"
    and br: "\<And>d. d < n \<Longrightarrow> 0 < i \<Longrightarrow> 0 < d \<Longrightarrow> parent d = i \<Longrightarrow> f (parent i) \<le> f d"
    using assms(1) by (auto simp: heap_defs)
  have min: "\<And>d. d < n \<Longrightarrow> 0 < d \<Longrightarrow> parent d = i \<Longrightarrow> f c \<le> f d"
    using assms(5) child_cases by blast
  have "in_order ?g k" if "k < n" "0 < k" "parent k \<noteq> c" for k
  proof -
    consider "k = i" | "k = c" | "k \<noteq> i" "k \<noteq> c" "parent k = i" | "k \<noteq> i" "k \<noteq> c" "parent k \<noteq> i" by blast
    then show ?thesis
      using ord [of k] br [of c] min [of k] assms(2,4) pc that parent_less [of k]
      unfolding in_order_def by cases auto
  qed
  moreover have "bridge ?g n c"
    unfolding bridge_def
  proof (intro allI impI)
    fix d assume d: "d < n" "0 < d" "parent d = c"
    then show "?g (parent c) \<le> ?g d" using ord [of d] pc parent_less [of d] by auto
  qed
  ultimately show ?thesis by (simp add: above_ok_def)
qed

section \<open>The contract of the methods\<close>

locale heap_interface =
  fixes Less :: "'s \<Rightarrow> nat \<Rightarrow> nat \<Rightarrow> bool run"
    and Swap :: "'s \<Rightarrow> nat \<Rightarrow> nat \<Rightarrow> 's run"
    and items :: "'s \<Rightarrow> 'r list"
    and key :: "'r \<Rightarrow> 'k::linorder"
    and valid :: "'s \<Rightarrow> bool"
  assumes Less_eq: "valid s \<Longrightarrow> i < length (items s) \<Longrightarrow> j < length (items s) \<Longrightarrow>
      Less s i j = Return (key (items s ! i) < key (items s ! j))"
    and Swap_ok: "valid s \<Longrightarrow> i < length (items s) \<Longrightarrow> j < length (items s) \<Longrightarrow>
      \<exists>s'. Swap s i j = Return s' \<and> valid s' \<and> items s' = (items s)[i := items s ! j, j := items s ! i]"
begin

definition keys :: "'s \<Rightarrow> nat \<Rightarrow> 'k" where
  "keys s k = key (items s ! k)"

lemma Swap_keys:
  assumes "valid s" and "i < length (items s)" and "j < length (items s)" and "i \<noteq> j"
  obtains s' where "Swap s i j = Return s'" "valid s'" "mset (items s') = mset (items s)"
    "keys s' = (keys s)(i := keys s j, j := keys s i)" "length (items s') = length (items s)"
    "\<And>n. i < n \<Longrightarrow> j < n \<Longrightarrow> drop n (items s') = drop n (items s)"
proof -
  obtain s' where s': "Swap s i j = Return s'" "valid s'"
    and it: "items s' = (items s)[i := items s ! j, j := items s ! i]"
    using Swap_ok [OF assms(1-3)] by blast
  have "mset (items s') = mset (items s)" using assms(2,3) by (simp add: it mset_swap)
  moreover have "keys s' = (keys s)(i := keys s j, j := keys s i)"
    using assms(2,3) by (auto simp: keys_def it nth_list_update fun_eq_iff)
  ultimately show ?thesis using that [OF s'] by (simp add: it)
qed

text \<open>What every call of the package functions gives.\<close>

definition sifted :: "nat \<Rightarrow> 's \<Rightarrow> 's \<Rightarrow> bool" where
  "sifted n s s' \<longleftrightarrow> valid s' \<and> mset (items s') = mset (items s) \<and> drop n (items s') = drop n (items s)"

lemma sifted_length: "sifted n s s' \<Longrightarrow> length (items s') = length (items s)"
  unfolding sifted_def by (metis size_mset)

lemma up_heap:
  "valid s \<Longrightarrow> j < n \<Longrightarrow> n \<le> length (items s) \<Longrightarrow> below_ok (keys s) n j \<Longrightarrow>
   \<exists>s'. heap_up Less Swap s j = Return s' \<and> sifted n s s' \<and> heap_order (keys s') n"
proof (induction j arbitrary: s rule: less_induct)
  case (less j)
  let ?i = "(j - 1) div 2"
  have L: "Less s j ?i = Return (keys s j < keys s ?i)"
    using Less_eq [of s j ?i] less.prems unfolding keys_def by auto
  show ?case
  proof (cases "0 < j \<and> keys s j < keys s ?i")
    case False
    then have "in_order (keys s) j" by (auto simp: in_order_def parent_def)
    moreover from False L have "heap_up Less Swap s j = Return s"
      by (subst heap_up.simps) (auto simp: Let_def)
    ultimately show ?thesis using less.prems below_ok_done by (auto simp: sifted_def)
  next
    case True
    then have i: "?i < j" by auto
    then obtain s1 where s1: "Swap s ?i j = Return s1" "valid s1" "mset (items s1) = mset (items s)"
      "keys s1 = (keys s)(?i := keys s j, j := keys s ?i)" "length (items s1) = length (items s)"
      "\<And>n. ?i < n \<Longrightarrow> j < n \<Longrightarrow> drop n (items s1) = drop n (items s)"
      using Swap_keys [of s ?i j] less.prems by auto
    have "below_ok (keys s1) n ?i"
      using below_ok_step [of "keys s" n j] less.prems True s1(4) by (simp add: parent_def)
    moreover have "?i < n" "n \<le> length (items s1)" using i less.prems s1(5) by auto
    ultimately obtain s' where
      "heap_up Less Swap s1 ?i = Return s'" "sifted n s1 s'" "heap_order (keys s') n"
      using less.IH [OF i s1(2)] by blast
    moreover from True L s1(1) have "heap_up Less Swap s j = heap_up Less Swap s1 ?i"
      by (subst heap_up.simps) (auto simp: Let_def)
    ultimately show ?thesis using s1(3,6) i less.prems(2) unfolding sifted_def by auto
  qed
qed

text \<open>
  One round of \<^verbatim>\<open>down\<close>: it stops because the key at \<open>i\<close> is not larger than those of its
  children, or swaps with the smaller child.
\<close>

lemma down_step:
  assumes "valid s" and "i < n" and "n \<le> length (items s)" and "around_ok (keys s) n i"
  obtains (stop) "heap_down_loop Less Swap s i n = Return (s, i)" "below_ok (keys s) n i"
  | (move) c s1 where "heap_down_loop Less Swap s i n = heap_down_loop Less Swap s1 c n"
      "i < c" "c < n" "sifted n s s1" "above_ok (keys s1) n c"
proof (cases "2 * i + 1 \<ge> n")
  case True
  then have "below_ok (keys s) n i" using around_ok_stop [OF assms(4)] by force
  moreover from True have "heap_down_loop Less Swap s i n = Return (s, i)"
    by (subst heap_down_loop.simps) simp
  ultimately show ?thesis by (rule stop [rotated])
next
  case False
  let ?l = "2 * i + 1" and ?r = "2 * i + 2"
  define right where "right = (?r < n \<and> keys s ?r < keys s ?l)"
  define c where "c = (if right then ?r else ?l)"
  have c: "c < n" "c = ?l \<or> c = ?r" "i < c" using False by (auto simp: c_def right_def)
  have min: "keys s c \<le> keys s d" if "d < n" "d = ?l \<or> d = ?r" for d
    using that by (auto simp: c_def right_def)
  have R: "(if ?r < n then Less s ?r ?l else Return False) = Return right"
    using Less_eq [of s ?r ?l] assms(1,3) False by (auto simp: right_def keys_def)
  have L: "Less s c i = Return (keys s c < keys s i)"
    using Less_eq [of s c i] assms c by (simp add: keys_def)
  show ?thesis
  proof (cases "keys s c < keys s i")
    case False
    then have "keys s i \<le> keys s d" if "d < n" "d = ?l \<or> d = ?r" for d
      using min [OF that] by simp
    then have "below_ok (keys s) n i" by (rule around_ok_stop [OF assms(4)])
    moreover have "heap_down_loop Less Swap s i n = Return (s, i)"
      using heap_down_loop_round [of n i Less s right c, OF \<open>\<not> n \<le> 2 * i + 1\<close> R c_def L] False by simp
    ultimately show ?thesis by (rule stop [rotated])
  next
    case True
    obtain s1 where s1: "Swap s i c = Return s1" "valid s1" "mset (items s1) = mset (items s)"
      "keys s1 = (keys s)(i := keys s c, c := keys s i)" "drop n (items s1) = drop n (items s)"
      using Swap_keys [of s i c] assms(1-3) c by auto
    have "above_ok (keys s1) n c"
      using around_ok_step [OF assms(4) c(1,2) True min] s1(4) by simp
    moreover have "heap_down_loop Less Swap s i n = heap_down_loop Less Swap s1 c n"
      using heap_down_loop_round [of n i Less s right c, OF \<open>\<not> n \<le> 2 * i + 1\<close> R c_def L] True s1(1) by simp
    ultimately show ?thesis using c s1 by (intro move [of s1 c]) (auto simp: sifted_def)
  qed
qed

lemma sifted_trans: "sifted n s s1 \<Longrightarrow> sifted n s1 s' \<Longrightarrow> sifted n s s'"
  by (simp add: sifted_def)

lemma down_loop_heap:
  "valid s \<Longrightarrow> i < n \<Longrightarrow> n \<le> length (items s) \<Longrightarrow> above_ok (keys s) n i \<Longrightarrow>
   \<exists>s' i'. heap_down_loop Less Swap s i n = Return (s', i') \<and> i \<le> i' \<and> sifted n s s' \<and> heap_order (keys s') n"
proof (induction "n - i" arbitrary: s i rule: less_induct)
  case less
  from less.prems(1-3) above_ok_around [OF less.prems(4)] show ?case
  proof (cases rule: down_step)
    case stop
    then show ?thesis
      using above_ok_in_order [OF less.prems(4,2)] below_ok_done less.prems(1) by (auto simp: sifted_def)
  next
    case (move c s1)
    have "n - c < n - i" "valid s1" "n \<le> length (items s1)"
      using move(2,3,4) less.prems(3) sifted_length [OF move(4)] by (auto simp: sifted_def)
    from less.hyps [OF this(1,2) move(3) this(3) move(5)] obtain s' i' where
      r: "heap_down_loop Less Swap s1 c n = Return (s', i')" "c \<le> i'" "sifted n s1 s'" "heap_order (keys s') n"
      by blast
    from r move(1,2) sifted_trans [OF move(4) r(3)] show ?thesis by auto
  qed
qed

lemma down_heap:
  assumes "valid s" and "i < n" and "n \<le> length (items s)" and "around_ok (keys s) n i"
  shows "heap_down Less Swap s i n = Return (s, False) \<and> below_ok (keys s) n i \<or>
    (\<exists>s'. heap_down Less Swap s i n = Return (s', True) \<and> sifted n s s' \<and> heap_order (keys s') n)"
  using assms
proof (cases rule: down_step)
  case stop
  then show ?thesis by (simp add: heap_down_def)
next
  case (move c s1)
  then obtain s' i' where "heap_down_loop Less Swap s1 c n = Return (s', i')" "c \<le> i'" "sifted n s1 s'"
    "heap_order (keys s') n"
    using down_loop_heap [of s1 c n] assms(3) sifted_length [OF move(4)] by (auto simp: sifted_def)
  with move sifted_trans [OF move(4)] show ?thesis by (auto simp: heap_down_def)
qed

text \<open>From the root nothing can be too small.\<close>

lemma down_root_heap:
  assumes "valid s" and "n \<le> length (items s)" and "above_ok (keys s) n 0"
  shows "\<exists>s' b. heap_down Less Swap s 0 n = Return (s', b) \<and> sifted n s s' \<and> heap_order (keys s') n"
proof (cases "n = 0")
  case True
  then have "heap_down Less Swap s 0 n = Return (s, False)"
    by (simp add: heap_down_def heap_down_loop.simps)
  with True assms(1) show ?thesis
    by (intro exI [of _ s] exI [of _ False]) (simp add: sifted_def heap_order_def)
next
  case False
  from down_heap [OF assms(1) _ assms(2) above_ok_around [OF assms(3)]] False
  show ?thesis using assms(1) below_ok_done above_ok_in_order [OF assms(3)] by (auto simp: sifted_def)
qed

text \<open>The body of \<^verbatim>\<open>heap.Fix\<close>: up if down did not move anything.\<close>

lemma fix_heap:
  assumes "valid s" and "i < n" and "n \<le> length (items s)" and "around_ok (keys s) n i"
  shows "\<exists>s'. run_bind (heap_down Less Swap s i n) (\<lambda>(s1, moved). if moved then Return s1 else heap_up Less Swap s1 i)
      = Return s' \<and> sifted n s s' \<and> heap_order (keys s') n"
  using down_heap [OF assms] up_heap [OF assms(1-3)] by auto

end

end
