(* ===== verification/Go_Channels.thy ===== *)
theory Go_Channels
  imports Champa_Prelude
begin

text \<open>
  Go channels. A channel value is a reference, and two places may hold the same one, so channels
  live in a store and are named by their index in it. Every channel of the program that carries
  packets is buffered and used through \<^verbatim>\<open>select\<close>: \<open>try_send\<close> is a send with a
  \<^verbatim>\<open>default\<close> branch, \<open>try_recv\<close> a receive with one.
\<close>

record 'p chan =
  ch_cap :: nat
  ch_buf :: "'p list"
  ch_closed :: bool

type_synonym 'p chans = "'p chan list"

definition empty_chan :: "nat \<Rightarrow> 'p chan" where
  "empty_chan n = \<lparr>ch_cap = n, ch_buf = [], ch_closed = False\<rparr>"

definition make_chan :: "nat \<Rightarrow> 'p chans \<Rightarrow> 'p chans \<times> nat" where
  "make_chan n cs = (cs @ [empty_chan n], length cs)"

definition try_send :: "'p chans \<Rightarrow> nat \<Rightarrow> 'p \<Rightarrow> ('p chans \<times> bool) run" where
  "try_send cs c p =
     (if ch_closed (cs ! c) then Panic ''send on closed channel''
      else if length (ch_buf (cs ! c)) < ch_cap (cs ! c)
      then Return (cs[c := (cs ! c)\<lparr>ch_buf := ch_buf (cs ! c) @ [p]\<rparr>], True)
      else Return (cs, False))"

datatype 'p received = Got 'p | GotClosed | WouldBlock

definition try_recv :: "'p chans \<Rightarrow> nat \<Rightarrow> 'p chans \<times> 'p received" where
  "try_recv cs c =
     (case ch_buf (cs ! c) of
        p # ps \<Rightarrow> (cs[c := (cs ! c)\<lparr>ch_buf := ps\<rparr>], Got p)
      | [] \<Rightarrow> (cs, if ch_closed (cs ! c) then GotClosed else WouldBlock))"

definition close_chan :: "'p chans \<Rightarrow> nat \<Rightarrow> 'p chans run" where
  "close_chan cs c =
     (if ch_closed (cs ! c) then Panic ''close of closed channel''
      else Return (cs[c := (cs ! c)\<lparr>ch_closed := True\<rparr>]))"

lemma empty_chan_simps [simp]:
  "ch_cap (empty_chan n) = n" "ch_buf (empty_chan n) = []" "\<not> ch_closed (empty_chan n)"
  by (simp_all add: empty_chan_def)

text \<open>What none of the operations changes: the number of channels and their capacities.\<close>

lemma map_update_same: "g x = g (xs ! c) \<Longrightarrow> map g (xs[c := x]) = map g xs"
proof (cases "c < length xs")
  case True
  then show "g x = g (xs ! c) \<Longrightarrow> ?thesis" by (metis list_update_id map_update nth_map)
qed (simp add: list_update_beyond)

lemma try_send_frame:
  "try_send cs c p = Return (cs', b) \<Longrightarrow> length cs' = length cs \<and> map ch_cap cs' = map ch_cap cs \<and>
     map ch_closed cs' = map ch_closed cs"
  by (auto simp: try_send_def map_update_same split: if_splits)

lemma try_recv_frame:
  "try_recv cs c = (cs', x) \<Longrightarrow> length cs' = length cs \<and> map ch_cap cs' = map ch_cap cs \<and>
     map ch_closed cs' = map ch_closed cs"
  by (auto simp: try_recv_def map_update_same split: list.splits)

end
