(* ===== verification/Remote_Map.thy ===== *)
theory Remote_Map
  imports Container_Heap Go_Channels "HOL-Library.AList"
begin

text \<open>
  The map of live peers of \<^verbatim>\<open>turbotunnel/remotemap.go\<close>. \<open>byAge\<close> is a heap of records ordered
  by the time they were last seen, \<open>byAddr\<close> gives for every address the record's index in the
  heap; it is an association list, because \<open>Len\<close> and \<open>Pop\<close> use its size. Every function that
  can panic returns a \<open>run\<close>: index errors, the two explicit panics of the code and the operations
  on channels. Times are nanoseconds as unbounded integers, and \<open>timeSub\<close> saturates as
  \<^verbatim>\<open>time.Time.Sub\<close> does. The lock makes the methods of \<open>RemoteMap\<close> atomic.
\<close>

section \<open>The code\<close>

definition queueSize :: nat where
  "queueSize = 256"

record 'a remoteRecord =
  Addr :: 'a
  LastSeen :: int
  rSendQueue :: nat
  rStash :: nat

record 'a remoteMapInner =
  byAge :: "'a remoteRecord list"
  byAddr :: "('a \<times> nat) list"

definition Len :: "'a remoteMapInner \<Rightarrow> nat run" where
  "Len inner =
     (if length (byAge inner) \<noteq> length (byAddr inner) then Panic ''inconsistent remoteMap''
      else Return (length (byAge inner)))"

definition Less :: "'a remoteMapInner \<Rightarrow> nat \<Rightarrow> nat \<Rightarrow> bool run" where
  "Less inner i j =
     (if i < length (byAge inner) \<and> j < length (byAge inner)
      then Return (LastSeen (byAge inner ! i) < LastSeen (byAge inner ! j))
      else Panic ''index out of range'')"

definition Swap :: "'a remoteMapInner \<Rightarrow> nat \<Rightarrow> nat \<Rightarrow> 'a remoteMapInner run" where
  "Swap inner i j =
     (if i < length (byAge inner) \<and> j < length (byAge inner)
      then
        (let ages = (byAge inner)[i := byAge inner ! j, j := byAge inner ! i]
         in Return \<lparr>byAge = ages,
              byAddr = AList.update (Addr (ages ! j)) j (AList.update (Addr (ages ! i)) i (byAddr inner))\<rparr>)
      else Panic ''index out of range'')"

definition Push :: "'a remoteMapInner \<Rightarrow> 'a remoteRecord \<Rightarrow> 'a remoteMapInner run" where
  "Push inner record =
     (if map_of (byAddr inner) (Addr record) \<noteq> None then Panic ''duplicate address in remoteMap''
      else Return \<lparr>byAge = byAge inner @ [record],
                   byAddr = AList.update (Addr record) (length (byAge inner)) (byAddr inner)\<rparr>)"

definition Pop :: "'a remoteMapInner \<Rightarrow> ('a remoteMapInner \<times> 'a remoteRecord) run" where
  "Pop inner =
     (let n = length (byAddr inner) in
      if n = 0 \<or> length (byAge inner) < n then Panic ''index out of range''
      else
        (let record = byAge inner ! (n - 1)
         in Return (\<lparr>byAge = take (n - 1) (byAge inner), byAddr = AList.delete (Addr record) (byAddr inner)\<rparr>, record)))"

text \<open>\<^verbatim>\<open>heap.Push\<close>, \<^verbatim>\<open>heap.Pop\<close> and \<^verbatim>\<open>heap.Fix\<close> on these methods.\<close>

definition heap_Push :: "'a remoteMapInner \<Rightarrow> 'a remoteRecord \<Rightarrow> 'a remoteMapInner run" where
  "heap_Push inner x =
     run_bind (Push inner x) (\<lambda>inner1.
     run_bind (Len inner1) (\<lambda>n. heap_up Less Swap inner1 (n - 1)))"

definition heap_Pop :: "'a remoteMapInner \<Rightarrow> ('a remoteMapInner \<times> 'a remoteRecord) run" where
  "heap_Pop inner =
     run_bind (Len inner) (\<lambda>len. let n = len - 1 in
     run_bind (Swap inner 0 n) (\<lambda>inner1.
     run_bind (heap_down Less Swap inner1 0 n) (\<lambda>(inner2, _). Pop inner2)))"

definition heap_Fix :: "'a remoteMapInner \<Rightarrow> nat \<Rightarrow> 'a remoteMapInner run" where
  "heap_Fix inner i =
     run_bind (Len inner) (\<lambda>n.
     run_bind (heap_down Less Swap inner i n) (\<lambda>(inner1, moved).
       if moved then Return inner1 else heap_up Less Swap inner1 i))"

text \<open>The map with the store of the channels it has made.\<close>

record 'a remoteMap =
  inner :: "'a remoteMapInner"
  chans :: "bytes chans"

definition NewRemoteMap :: "'a remoteMap" where
  "NewRemoteMap = \<lparr>inner = \<lparr>byAge = [], byAddr = []\<rparr>, chans = []\<rparr>"

definition Lookup :: "'a remoteMap \<Rightarrow> 'a \<Rightarrow> int \<Rightarrow> ('a remoteMap \<times> 'a remoteRecord) run" where
  "Lookup m addr now =
     (case map_of (byAddr (inner m)) addr of
        Some i \<Rightarrow>
          (if i < length (byAge (inner m))
           then
             (let record = (byAge (inner m) ! i)\<lparr>LastSeen := now\<rparr>
              in run_bind (heap_Fix ((inner m)\<lparr>byAge := (byAge (inner m))[i := record]\<rparr>) i)
                   (\<lambda>inner'. Return (m\<lparr>inner := inner'\<rparr>, record)))
           else Panic ''index out of range'')
      | None \<Rightarrow>
          (let (cs1, sendQueue) = make_chan queueSize (chans m);
               (cs2, stash) = make_chan 1 cs1;
               record = \<lparr>Addr = addr, LastSeen = now, rSendQueue = sendQueue, rStash = stash\<rparr>
           in run_bind (heap_Push (inner m) record)
                (\<lambda>inner'. Return (\<lparr>inner = inner', chans = cs2\<rparr>, record))))"

definition SendQueue :: "'a remoteMap \<Rightarrow> 'a \<Rightarrow> int \<Rightarrow> ('a remoteMap \<times> nat) run" where
  "SendQueue m addr now = run_bind (Lookup m addr now) (\<lambda>(m', record). Return (m', rSendQueue record))"

definition Stash :: "'a remoteMap \<Rightarrow> 'a \<Rightarrow> bytes \<Rightarrow> int \<Rightarrow> ('a remoteMap \<times> bool) run" where
  "Stash m addr p now =
     run_bind (Lookup m addr now) (\<lambda>(m', record).
     run_bind (try_send (chans m') (rStash record) p) (\<lambda>(cs, b). Return (m'\<lparr>chans := cs\<rparr>, b)))"

definition Unstash :: "'a remoteMap \<Rightarrow> 'a \<Rightarrow> int \<Rightarrow> ('a remoteMap \<times> nat) run" where
  "Unstash m addr now = run_bind (Lookup m addr now) (\<lambda>(m', record). Return (m', rStash record))"

text \<open>\<open>heap.Pop\<close> shortens the heap whenever it returns, so the loop of \<open>removeExpired\<close> ends.\<close>

lemma Swap_length: "Swap s i j = Return s' \<Longrightarrow> length (byAge s') = length (byAge s)"
  by (auto simp: Swap_def Let_def split: if_splits)

lemma heap_Pop_length:
  assumes "heap_Pop s = Return (s', record)"
  shows "length (byAge s') < length (byAge s)"
proof -
  from assms obtain n s1 s2 b where "Swap s 0 n = Return s1"
    "heap_down Less Swap s1 0 n = Return (s2, b)" "Pop s2 = Return (s', record)"
    by (auto simp: heap_Pop_def run_bind_Return Let_def)
  with heap_down_preserves [of Swap "\<lambda>s. length (byAge s)" Less s1 0 n s2 b, OF Swap_length]
  have "length (byAge s2) = length (byAge s)"
    using Swap_length [of s 0 n s1] by simp
  with \<open>Pop s2 = Return (s', record)\<close> show ?thesis
    by (cases "byAddr s2") (auto simp: Pop_def Let_def split: if_splits)
qed

function removeExpired :: "'a remoteMap \<Rightarrow> int \<Rightarrow> int \<Rightarrow> 'a remoteMap run" where
  "removeExpired m now timeout =
     (if byAge (inner m) \<noteq> [] \<and> timeSub now (LastSeen (byAge (inner m) ! 0)) \<ge> timeout
      then
        run_bind (heap_Pop (inner m)) (\<lambda>(inner', record).
        run_bind (close_chan (chans m) (rSendQueue record)) (\<lambda>cs.
          removeExpired \<lparr>inner = inner', chans = cs\<rparr> now timeout))
      else Return m)"
  by pat_completeness auto
termination
  by (relation "measure (\<lambda>(m, _, _). length (byAge (inner m)))") (auto dest: heap_Pop_length)

declare removeExpired.simps [simp del]

section \<open>Addresses and heap indices\<close>

definition inner_ok :: "'a remoteMapInner \<Rightarrow> bool" where
  "inner_ok s \<longleftrightarrow> distinct (map fst (byAddr s)) \<and>
     (\<forall>a i. map_of (byAddr s) a = Some i \<longleftrightarrow> i < length (byAge s) \<and> Addr (byAge s ! i) = a)"

lemma inner_ok_distinct: "inner_ok s \<Longrightarrow> distinct (map Addr (byAge s))"
  unfolding inner_ok_def distinct_conv_nth by (metis length_map nth_map option.inject)

lemma inner_ok_length:
  assumes "inner_ok s"
  shows "length (byAddr s) = length (byAge s)"
proof -
  have "Addr ` set (byAge s) = fst ` set (byAddr s)"
  proof (intro set_eqI)
    fix a
    have "a \<in> Addr ` set (byAge s) \<longleftrightarrow> (\<exists>i<length (byAge s). Addr (byAge s ! i) = a)"
      by (auto simp: in_set_conv_nth image_iff) (metis nth_mem)
    also have "\<dots> \<longleftrightarrow> map_of (byAddr s) a \<noteq> None" using assms by (auto simp: inner_ok_def)
    finally show "a \<in> Addr ` set (byAge s) \<longleftrightarrow> a \<in> fst ` set (byAddr s)" by (simp add: map_of_eq_None_iff)
  qed
  moreover have "distinct (map fst (byAddr s))" using assms by (simp add: inner_ok_def)
  ultimately show ?thesis
    using inner_ok_distinct [OF assms] distinct_card [of "map fst (byAddr s)"] distinct_card [of "map Addr (byAge s)"]
    by simp
qed

lemma Len_ok: "inner_ok s \<Longrightarrow> Len s = Return (length (byAge s))"
  by (simp add: Len_def inner_ok_length)

lemma Swap_inner_ok:
  assumes "inner_ok s" and "i < length (byAge s)" and "j < length (byAge s)"
  shows "\<exists>s'. Swap s i j = Return s' \<and> inner_ok s' \<and>
    byAge s' = (byAge s)[i := byAge s ! j, j := byAge s ! i]"
proof -
  let ?ages = "(byAge s)[i := byAge s ! j, j := byAge s ! i]"
  let ?s = "\<lparr>byAge = ?ages,
     byAddr = AList.update (Addr (?ages ! j)) j (AList.update (Addr (?ages ! i)) i (byAddr s))\<rparr>"
  have ai: "?ages ! i = byAge s ! j" "?ages ! j = byAge s ! i"
    using assms by (auto simp: nth_list_update)
  have inj: "Addr (byAge s ! k) = Addr (byAge s ! l) \<longleftrightarrow> k = l" if "k < length (byAge s)" "l < length (byAge s)" for k l
    using inner_ok_distinct [OF assms(1)] that by (metis length_map nth_eq_iff_index_eq nth_map)
  have old: "map_of (byAddr s) a = Some k \<longleftrightarrow> k < length (byAge s) \<and> Addr (byAge s ! k) = a" for a k
    using assms(1) by (simp add: inner_ok_def)
  have "map_of (byAddr ?s) a = Some k \<longleftrightarrow> k < length ?ages \<and> Addr (?ages ! k) = a" for a k
    using assms(2,3) inj old by (auto simp: ai update_conv' nth_list_update split: if_splits)
  moreover have "distinct (map fst (byAddr ?s))"
    using assms(1) by (simp add: distinct_update inner_ok_def)
  ultimately have "inner_ok ?s" by (simp add: inner_ok_def)
  then show ?thesis using assms by (auto simp: Swap_def Let_def)
qed

interpretation ages: heap_interface Less Swap byAge LastSeen inner_ok
  by unfold_locales (auto simp: Less_def intro: Swap_inner_ok)

section \<open>The heap operations\<close>

definition heap_ok :: "'a remoteMapInner \<Rightarrow> bool" where
  "heap_ok s \<longleftrightarrow> inner_ok s \<and> heap_order (ages.keys s) (length (byAge s))"

lemma around_ok_update: "heap_order f n \<Longrightarrow> i < n \<Longrightarrow> around_ok (f(i := x)) n i"
proof -
  assume h: "heap_order f n" and i: "i < n"
  have ord: "\<And>k. k < n \<Longrightarrow> 0 < k \<Longrightarrow> f (parent k) \<le> f k" using h by (auto simp: heap_defs)
  have "in_order (f(i := x)) k" if "k < n" "k \<noteq> i" "0 < k" "parent k \<noteq> i" for k
    using ord [of k] that by (auto simp: in_order_def)
  moreover have "(f(i := x)) (parent i) \<le> (f(i := x)) c" if "c < n" "0 < i" "0 < c" "parent c = i" for c
  proof -
    have "f (parent i) \<le> f i" "f i \<le> f c" using ord [of i] ord [of c] that i by auto
    moreover have "parent i < i" "i < c" using parent_less [of i] parent_less [of c] that by auto
    ultimately show ?thesis by auto
  qed
  ultimately show ?thesis by (auto simp: around_ok_def bridge_def)
qed

lemma below_ok_append:
  assumes "heap_order f n" and "\<And>k. k < n \<Longrightarrow> g k = f k"
  shows "below_ok g (Suc n) n"
proof -
  have "in_order g k" if "k < n" for k
    using assms that parent_less [of k] by (cases "k = 0") (auto simp: heap_defs)
  moreover have "bridge g (Suc n) n"
    unfolding bridge_def using parent_less less_Suc_eq by (metis not_less_eq)
  ultimately show ?thesis by (auto simp: below_ok_def less_Suc_eq)
qed

lemma above_ok_root:
  assumes "heap_order f m" and "n \<le> m" and "\<And>k. 0 < k \<Longrightarrow> k < n \<Longrightarrow> g k = f k"
  shows "above_ok g n 0"
proof -
  have "in_order g k" if "k < n" "0 < k" "parent k \<noteq> 0" for k
  proof -
    have "k < m" "parent k < n" using that assms(2) parent_less [of k] by auto
    then show ?thesis
      using assms(1) assms(3) [of k] assms(3) [of "parent k"] that by (auto simp: heap_defs)
  qed
  then show ?thesis by (simp add: above_ok_def bridge_def)
qed

lemma heap_Fix_ok:
  assumes "heap_ok s" and "i < length (byAge s)" and "Addr r = Addr (byAge s ! i)"
  shows "\<exists>s'. heap_Fix (s\<lparr>byAge := (byAge s)[i := r]\<rparr>) i = Return s' \<and> heap_ok s' \<and>
    mset (byAge s') = mset ((byAge s)[i := r])"
proof -
  let ?s = "s\<lparr>byAge := (byAge s)[i := r]\<rparr>"
  have ok: "inner_ok ?s"
    using assms unfolding heap_ok_def inner_ok_def by (auto simp: nth_list_update)
  have "ages.keys ?s = (ages.keys s)(i := LastSeen r)"
    using assms(2) by (auto simp: ages.keys_def fun_eq_iff)
  then have "around_ok (ages.keys ?s) (length (byAge s)) i"
    using around_ok_update [of "ages.keys s"] assms(1,2) by (simp add: heap_ok_def)
  with ages.fix_heap [OF ok, of i "length (byAge s)"] assms(2) obtain s' where
    "run_bind (heap_down Less Swap ?s i (length (byAge s))) (\<lambda>(s1, moved). if moved then Return s1 else heap_up Less Swap s1 i)
      = Return s'" and s': "ages.sifted (length (byAge s)) ?s s'" "heap_order (ages.keys s') (length (byAge s))"
    by auto
  then have "heap_Fix ?s i = Return s'" using Len_ok [OF ok] by (simp add: heap_Fix_def)
  moreover have "length (byAge s') = length (byAge s)" using ages.sifted_length [OF s'(1)] by simp
  ultimately show ?thesis using s' by (auto simp: heap_ok_def ages.sifted_def)
qed

lemma heap_Push_ok:
  assumes "heap_ok s" and "map_of (byAddr s) (Addr r) = None"
  shows "\<exists>s'. heap_Push s r = Return s' \<and> heap_ok s' \<and> mset (byAge s') = add_mset r (mset (byAge s))"
proof -
  let ?n = "length (byAge s)"
  let ?s = "\<lparr>byAge = byAge s @ [r], byAddr = AList.update (Addr r) ?n (byAddr s)\<rparr>"
  have fresh: "Addr (byAge s ! i) \<noteq> Addr r" if "i < ?n" for i
    using assms that unfolding heap_ok_def inner_ok_def by (metis option.distinct(1))
  have "map_of (byAddr ?s) a = Some i \<longleftrightarrow> i < length (byAge ?s) \<and> Addr (byAge ?s ! i) = a" for a i
    using assms fresh unfolding heap_ok_def inner_ok_def
    by (auto simp: update_conv' nth_append less_Suc_eq split: if_splits)
  moreover have "distinct (map fst (byAddr ?s))"
    using assms(1) by (simp add: heap_ok_def inner_ok_def distinct_update)
  ultimately have ok: "inner_ok ?s" by (simp add: inner_ok_def)
  have "below_ok (ages.keys ?s) (Suc ?n) ?n"
    using assms(1) unfolding heap_ok_def
    by (intro below_ok_append [of "ages.keys s"]) (auto simp: ages.keys_def nth_append)
  with ages.up_heap [OF ok, of ?n "Suc ?n"] obtain s' where
    s': "heap_up Less Swap ?s ?n = Return s'" "ages.sifted (Suc ?n) ?s s'" "heap_order (ages.keys s') (Suc ?n)"
    by auto
  have "heap_Push s r = Return s'"
    using s'(1) assms(2) Len_ok [OF ok] by (simp add: heap_Push_def Push_def)
  moreover have "length (byAge s') = Suc ?n" using ages.sifted_length [OF s'(2)] by simp
  ultimately show ?thesis using s' by (auto simp: heap_ok_def ages.sifted_def)
qed

lemma Pop_ok:
  assumes "inner_ok s" and "byAge s = xs @ [r]"
  shows "\<exists>s'. Pop s = Return (s', r) \<and> inner_ok s' \<and> byAge s' = xs"
proof -
  let ?s = "\<lparr>byAge = xs, byAddr = AList.delete (Addr r) (byAddr s)\<rparr>"
  have old: "map_of (byAddr s) a = Some i \<longleftrightarrow> i < length (byAge s) \<and> Addr (byAge s ! i) = a" for a i
    using assms(1) by (simp add: inner_ok_def)
  have r: "Addr (xs ! i) \<noteq> Addr r" if "i < length xs" for i
    using inner_ok_distinct [OF assms(1)] that by (auto simp: assms(2)) (metis image_eqI nth_mem)
  have "map_of (byAddr ?s) a = Some i \<longleftrightarrow> i < length xs \<and> Addr (xs ! i) = a" for a i
    using old [of a i] r [of i]
    by (auto simp: delete_conv' assms(2) nth_append less_Suc_eq split: if_splits)
  moreover have "distinct (map fst (byAddr ?s))"
    using assms(1) by (simp add: inner_ok_def distinct_delete)
  ultimately have "inner_ok ?s" by (simp add: inner_ok_def)
  moreover have "Pop s = Return (?s, r)"
    using inner_ok_length [OF assms(1)] by (simp add: Pop_def Let_def assms(2))
  ultimately show ?thesis by auto
qed

lemma heap_Pop_ok:
  assumes "heap_ok s" and "byAge s \<noteq> []"
  shows "\<exists>s'. heap_Pop s = Return (s', byAge s ! 0) \<and> heap_ok s' \<and>
    add_mset (byAge s ! 0) (mset (byAge s')) = mset (byAge s)"
proof -
  define n where "n = length (byAge s) - 1"
  have len: "length (byAge s) = Suc n" using assms(2) by (simp add: n_def)
  have ok: "inner_ok s" using assms(1) by (simp add: heap_ok_def)
  obtain s1 where s1: "Swap s 0 n = Return s1" "inner_ok s1"
    "byAge s1 = (byAge s)[0 := byAge s ! n, n := byAge s ! 0]"
    using Swap_inner_ok [OF ok, of 0 n] len by auto
  have m1: "mset (byAge s1) = mset (byAge s)" using len by (simp add: s1(3) mset_swap)
  have "above_ok (ages.keys s1) n 0"
    using assms(1) len unfolding heap_ok_def
    by (intro above_ok_root [of "ages.keys s" "Suc n"]) (auto simp: ages.keys_def s1(3) nth_list_update)
  with ages.down_root_heap [OF s1(2), of n] len obtain s2 b where
    s2: "heap_down Less Swap s1 0 n = Return (s2, b)" "ages.sifted n s1 s2" "heap_order (ages.keys s2) n"
    by (auto simp: s1(3))
  have len2: "length (byAge s2) = Suc n" using ages.sifted_length [OF s2(2)] len by (simp add: s1(3))
  have "drop n (byAge s2) = [byAge s ! 0]"
    using s2(2) len by (simp add: ages.sifted_def s1(3) drop_update_swap Cons_nth_drop_Suc [symmetric] nth_list_update)
  then have xs: "byAge s2 = take n (byAge s2) @ [byAge s ! 0]" by (metis append_take_drop_id)
  obtain s3 where s3: "Pop s2 = Return (s3, byAge s ! 0)" "inner_ok s3" "byAge s3 = take n (byAge s2)"
    using Pop_ok [OF _ xs] s2(2) by (auto simp: ages.sifted_def)
  have "heap_Pop s = Return (s3, byAge s ! 0)"
    using Len_ok [OF ok] len s1(1) s2(1) s3(1) by (simp add: heap_Pop_def Let_def)
  moreover have "heap_order (ages.keys s3) n"
    using s2(3) len2 parent_less unfolding heap_order_def in_order_def ages.keys_def s3(3)
    by (metis (no_types, lifting) gr0I less_trans nth_take)
  moreover have "mset (byAge s2) = mset (byAge s)" using s2(2) m1 by (simp add: ages.sifted_def)
  then have "add_mset (byAge s ! 0) (mset (byAge s3)) = mset (byAge s)"
    using arg_cong [OF xs, of mset] by (simp add: s3(3))
  ultimately show ?thesis using s3 len2 by (auto simp: heap_ok_def)
qed

section \<open>The map of peers\<close>

text \<open>
  The abstract view: which record an address has. \<open>live\<close> is an open channel of the given capacity;
  \<open>refs_ok\<close> says that the records share no channel and that all of theirs are open.
\<close>

definition peers :: "'a remoteMap \<Rightarrow> 'a \<Rightarrow> 'a remoteRecord option" where
  "peers m = map_of (map (\<lambda>r. (Addr r, r)) (byAge (inner m)))"

definition live :: "'p chans \<Rightarrow> nat \<Rightarrow> nat \<Rightarrow> bool" where
  "live cs c n \<longleftrightarrow> c < length cs \<and> ch_cap (cs ! c) = n \<and> \<not> ch_closed (cs ! c) \<and> length (ch_buf (cs ! c)) \<le> n"

definition refs_ok :: "'a remoteRecord set \<Rightarrow> bytes chans \<Rightarrow> bool" where
  "refs_ok R cs \<longleftrightarrow> inj_on rSendQueue R \<and> inj_on rStash R \<and> rSendQueue ` R \<inter> rStash ` R = {} \<and>
     (\<forall>r\<in>R. live cs (rSendQueue r) queueSize \<and> live cs (rStash r) 1)"

definition rm_ok :: "'a remoteMap \<Rightarrow> bool" where
  "rm_ok m \<longleftrightarrow> heap_ok (inner m) \<and> refs_ok (set (byAge (inner m))) (chans m)"

lemma NewRemoteMap_ok: "rm_ok NewRemoteMap"
  by (simp add: rm_ok_def NewRemoteMap_def heap_ok_def inner_ok_def heap_order_def refs_ok_def)

lemma peers_iff:
  "inner_ok (inner m) \<Longrightarrow> peers m a = Some r \<longleftrightarrow> r \<in> set (byAge (inner m)) \<and> Addr r = a"
  using inner_ok_distinct [of "inner m"] unfolding peers_def
  by (subst map_of_eq_Some_iff) (auto simp: comp_def)

lemma peers_eqI:
  assumes "inner_ok (inner m)"
    and "\<And>a r. f a = Some r \<longleftrightarrow> r \<in> set (byAge (inner m)) \<and> Addr r = a"
  shows "peers m = f"
proof
  fix a
  show "peers m a = f a"
  proof (cases "f a")
    case None
    then have "\<And>r. peers m a \<noteq> Some r" using assms(2) [of a] peers_iff [OF assms(1), of a] by simp
    with None show ?thesis by (cases "peers m a") auto
  next
    case (Some r)
    then show ?thesis using assms(2) [of a r] peers_iff [OF assms(1), of a r] by simp
  qed
qed

lemma peers_lookup:
  assumes "inner_ok (inner m)"
  shows "map_of (byAddr (inner m)) a = Some i \<Longrightarrow> i < length (byAge (inner m)) \<and> peers m a = Some (byAge (inner m) ! i)"
    and "map_of (byAddr (inner m)) a = None \<Longrightarrow> peers m a = None"
proof -
  show "i < length (byAge (inner m)) \<and> peers m a = Some (byAge (inner m) ! i)"
    if "map_of (byAddr (inner m)) a = Some i"
    using assms that peers_iff [OF assms] unfolding inner_ok_def by (metis nth_mem)
  show "peers m a = None" if "map_of (byAddr (inner m)) a = None"
  proof (rule ccontr)
    assume "peers m a \<noteq> None"
    then obtain r where "r \<in> set (byAge (inner m))" "Addr r = a" using peers_iff [OF assms] by blast
    then obtain i where "i < length (byAge (inner m))" "Addr (byAge (inner m) ! i) = a"
      by (metis in_set_conv_nth)
    with assms that show False unfolding inner_ok_def by (metis option.distinct(1))
  qed
qed

lemma live_append: "live cs c n \<Longrightarrow> live (cs @ ds) c n"
  by (simp add: live_def nth_append)

lemma inj_on_replace:
  assumes "inj_on f R" and "r \<in> R" and "f r' = f r"
  shows "inj_on f (insert r' (R - {r})) \<and> f ` insert r' (R - {r}) = f ` R"
proof -
  have "f r' \<notin> f ` (R - {r})" using assms by (auto simp: inj_on_def)
  moreover have "f ` insert r' (R - {r}) = f ` insert r (R - {r})"
    by (simp only: image_insert assms(3))
  ultimately show ?thesis using assms(1,2) by (auto simp: inj_on_diff insert_absorb)
qed

lemma refs_ok_replace:
  assumes "refs_ok R cs" and "r \<in> R" and "rSendQueue r' = rSendQueue r" and "rStash r' = rStash r"
  shows "refs_ok (insert r' (R - {r})) cs"
proof -
  have "inj_on rSendQueue R" "inj_on rStash R" using assms(1) by (auto simp: refs_ok_def)
  from inj_on_replace [OF this(1) assms(2,3)] inj_on_replace [OF this(2) assms(2,4)]
  show ?thesis using assms unfolding refs_ok_def by auto
qed

text \<open>What \<open>Lookup\<close> does to an address that has a record, and to one that has none.\<close>

lemma Lookup_known:
  assumes "rm_ok m" and "peers m addr = Some r"
  obtains m' where "Lookup m addr now = Return (m', r\<lparr>LastSeen := now\<rparr>)" "rm_ok m'"
    "peers m' = (peers m)(addr \<mapsto> r\<lparr>LastSeen := now\<rparr>)" "chans m' = chans m"
proof -
  let ?r = "r\<lparr>LastSeen := now\<rparr>"
  have ok: "heap_ok (inner m)" "inner_ok (inner m)" using assms(1) by (auto simp: rm_ok_def heap_ok_def)
  obtain i where i: "map_of (byAddr (inner m)) addr = Some i"
    using peers_lookup(2) [OF ok(2)] assms(2) by force
  with peers_lookup(1) [OF ok(2) i] assms(2)
  have r: "i < length (byAge (inner m))" "byAge (inner m) ! i = r" by auto
  have "Addr r = addr" using peers_iff [OF ok(2)] assms(2) by blast
  with heap_Fix_ok [OF ok(1) r(1), of ?r] r obtain s' where
    s': "heap_Fix ((inner m)\<lparr>byAge := (byAge (inner m))[i := ?r]\<rparr>) i = Return s'" "heap_ok s'"
    "mset (byAge s') = mset ((byAge (inner m))[i := ?r])" by auto
  have "distinct (byAge (inner m))" using inner_ok_distinct [OF ok(2)] by (simp add: distinct_map)
  then have S: "set (byAge s') = insert ?r (set (byAge (inner m)) - {r})"
    using mset_eq_setD [OF s'(3)] set_update_distinct r by metis
  let ?m = "m\<lparr>inner := s'\<rparr>"
  have mem: "r \<in> set (byAge (inner m))" using r by auto
  have same: "Addr x = addr \<Longrightarrow> x = r" if "x \<in> set (byAge (inner m))" for x
    using that peers_iff [OF ok(2)] assms(2) by (metis option.inject)
  have "peers ?m = (peers m)(addr \<mapsto> ?r)"
    using s'(2) peers_iff [OF ok(2)] \<open>Addr r = addr\<close> same
    by (intro peers_eqI) (auto simp: heap_ok_def S)
  moreover have "refs_ok (set (byAge s')) (chans m)"
    using refs_ok_replace [OF _ mem] assms(1) by (simp add: rm_ok_def S)
  ultimately show ?thesis
    using s' i r that [of ?m] by (simp add: Lookup_def rm_ok_def)
qed

lemma Lookup_new:
  fixes now :: int and m :: "'a remoteMap"
  assumes "rm_ok m" and "peers m addr = None"
  defines "r \<equiv> \<lparr>Addr = addr, LastSeen = now, rSendQueue = length (chans m), rStash = Suc (length (chans m))\<rparr>"
  obtains m' where "Lookup m addr now = Return (m', r)" "rm_ok m'" "peers m' = (peers m)(addr \<mapsto> r)"
    "chans m' = chans m @ [empty_chan queueSize, empty_chan 1]"
proof -
  have ok: "heap_ok (inner m)" "inner_ok (inner m)" using assms(1) by (auto simp: rm_ok_def heap_ok_def)
  have n: "map_of (byAddr (inner m)) addr = None"
    using peers_lookup(1) [OF ok(2)] assms(2) by (cases "map_of (byAddr (inner m)) addr") auto
  with heap_Push_ok [OF ok(1), of r] obtain s' where
    s': "heap_Push (inner m) r = Return s'" "heap_ok s'" "mset (byAge s') = add_mset r (mset (byAge (inner m)))"
    by (auto simp: r_def)
  have S: "set (byAge s') = insert r (set (byAge (inner m)))"
    using arg_cong [OF s'(3), of set_mset] by simp
  let ?cs = "chans m @ [empty_chan queueSize, empty_chan 1]"
  let ?m = "\<lparr>inner = s', chans = ?cs\<rparr>"
  have "Addr x \<noteq> addr" if "x \<in> set (byAge (inner m))" for x
    using that peers_iff [OF ok(2), of addr x] assms(2) by auto
  then have "peers ?m = (peers m)(addr \<mapsto> r)"
    using s'(2) peers_iff [OF ok(2)]
    by (intro peers_eqI) (auto simp: heap_ok_def S r_def)
  moreover have "refs_ok (set (byAge s')) ?cs"
  proof -
    have old: "live (chans m) (rSendQueue x) queueSize" "live (chans m) (rStash x) 1"
      if "x \<in> set (byAge (inner m))" for x
      using assms(1) that by (auto simp: rm_ok_def refs_ok_def)
    then have lt: "rSendQueue x < length (chans m)" "rStash x < length (chans m)"
      if "x \<in> set (byAge (inner m))" for x
      using that by (auto simp: live_def)
    have "live ?cs (rSendQueue r) queueSize" "live ?cs (rStash r) 1"
      by (auto simp: live_def r_def nth_append queueSize_def)
    then show ?thesis
      using assms(1) old lt unfolding rm_ok_def refs_ok_def S
      by (auto simp: live_append inj_on_insert r_def dest: lt)
  qed
  ultimately show ?thesis
    using s' n that [of ?m] by (simp add: Lookup_def rm_ok_def make_chan_def r_def)
qed

section \<open>Expiry\<close>

definition expired :: "int \<Rightarrow> int \<Rightarrow> 'a remoteRecord \<Rightarrow> bool" where
  "expired now timeout r \<longleftrightarrow> timeSub now (LastSeen r) \<ge> timeout"

definition close_queues :: "nat set \<Rightarrow> 'p chans \<Rightarrow> 'p chans \<Rightarrow> bool" where
  "close_queues C cs cs' \<longleftrightarrow> length cs' = length cs \<and>
     (\<forall>c<length cs. cs' ! c = (if c \<in> C then (cs ! c)\<lparr>ch_closed := True\<rparr> else cs ! c))"

lemma root_oldest:
  assumes "heap_ok s" and "r \<in> set (byAge s)"
  shows "LastSeen (byAge s ! 0) \<le> LastSeen r"
proof -
  obtain k where "k < length (byAge s)" "byAge s ! k = r" using assms(2) by (auto simp: in_set_conv_nth)
  then show ?thesis using heap_order_root [of "ages.keys s"] assms(1) by (auto simp: heap_ok_def ages.keys_def)
qed

text \<open>Removing the root of the heap and closing its send queue keeps the invariant and leaves the other records and queues alone.\<close>

lemma pop_and_close:
  assumes "rm_ok m" and "byAge (inner m) \<noteq> []"
  obtains s' cs where "heap_Pop (inner m) = Return (s', byAge (inner m) ! 0)" "rm_ok \<lparr>inner = s', chans = cs\<rparr>"
    "close_chan (chans m) (rSendQueue (byAge (inner m) ! 0)) = Return cs"
    "set (byAge (inner m)) = insert (byAge (inner m) ! 0) (set (byAge s'))" "length (byAge s') < length (byAge (inner m))"
    "\<forall>x \<in> set (byAge s'). rSendQueue (byAge (inner m) ! 0) \<noteq> rSendQueue x"
proof -
  let ?s = "inner m" and ?r = "byAge (inner m) ! 0" and ?q = "rSendQueue (byAge (inner m) ! 0)"
  have ok: "heap_ok ?s" using assms(1) by (simp add: rm_ok_def)
  obtain s' where s': "heap_Pop ?s = Return (s', ?r)" "heap_ok s'" "add_mset ?r (mset (byAge s')) = mset (byAge ?s)"
    using heap_Pop_ok [OF ok assms(2)] by blast
  have S: "set (byAge ?s) = insert ?r (set (byAge s'))" using arg_cong [OF s'(3), of set_mset] by simp
  have "distinct (byAge ?s)" using inner_ok_distinct [of ?s] ok by (simp add: heap_ok_def distinct_map)
  then have notin: "?r \<notin> set (byAge s')" using s'(3) by (metis distinct.simps(2) mset.simps(2) mset_eq_imp_distinct_iff)
  define cs where "cs = (chans m)[?q := (chans m ! ?q)\<lparr>ch_closed := True\<rparr>]"
  have refs: "refs_ok (insert ?r (set (byAge s'))) (chans m)" using assms(1) S by (simp add: rm_ok_def)
  then have "\<not> ch_closed (chans m ! ?q)" by (auto simp: refs_ok_def live_def)
  then have close: "close_chan (chans m) ?q = Return cs" by (simp add: close_chan_def cs_def)
  have ne: "?q \<noteq> rSendQueue x" "?q \<noteq> rStash x" if "x \<in> set (byAge s')" for x
    using refs that notin by (auto simp: refs_ok_def inj_on_def)
  have "refs_ok (set (byAge s')) cs" using refs ne unfolding refs_ok_def live_def cs_def by (auto simp: inj_on_def)
  then have "rm_ok \<lparr>inner = s', chans = cs\<rparr>" using s'(2) by (simp add: rm_ok_def)
  moreover have "length (byAge s') < length (byAge ?s)" using arg_cong [OF s'(3), of size] by simp
  ultimately show ?thesis using that s'(1) close S ne(1) by blast
qed

lemma removeExpired_ok:
  "rm_ok m \<Longrightarrow> \<exists>m'. removeExpired m now timeout = Return m' \<and> rm_ok m' \<and>
     set (byAge (inner m')) = {r \<in> set (byAge (inner m)). \<not> expired now timeout r} \<and>
     close_queues (rSendQueue ` {r \<in> set (byAge (inner m)). expired now timeout r}) (chans m) (chans m')"
proof (induction "length (byAge (inner m))" arbitrary: m rule: less_induct)
  case less
  let ?s = "inner m" and ?r = "byAge (inner m) ! 0"
  have ok: "heap_ok ?s" using less.prems by (simp add: rm_ok_def)
  show ?case
  proof (cases "byAge ?s \<noteq> [] \<and> expired now timeout ?r")
    case False
    have "\<not> expired now timeout r" if "r \<in> set (byAge ?s)" for r
      using False that root_oldest [OF ok that] timeSub_mono [of "LastSeen ?r" "LastSeen r" now]
      by (auto simp: expired_def)
    moreover have "removeExpired m now timeout = Return m"
      using False by (subst removeExpired.simps) (auto simp: expired_def)
    ultimately show ?thesis using less.prems by (auto simp: close_queues_def)
  next
    case True
    then have "byAge ?s \<noteq> []" by simp
    with less.prems obtain s' cs where s': "heap_Pop ?s = Return (s', ?r)" "rm_ok \<lparr>inner = s', chans = cs\<rparr>" "close_chan (chans m) (rSendQueue ?r) = Return cs"
      "set (byAge ?s) = insert ?r (set (byAge s'))" "length (byAge s') < length (byAge ?s)" "\<forall>x \<in> set (byAge s'). rSendQueue ?r \<noteq> rSendQueue x"
      by (rule pop_and_close)
    from less.hyps [OF _ s'(2)] s'(5) obtain m' where
      m': "removeExpired \<lparr>inner = s', chans = cs\<rparr> now timeout = Return m'" "rm_ok m'"
      "set (byAge (inner m')) = {r \<in> set (byAge s'). \<not> expired now timeout r}"
      "close_queues (rSendQueue ` {r \<in> set (byAge s'). expired now timeout r}) cs (chans m')"
      by auto
    have "removeExpired m now timeout = Return m'"
      using True s'(1,3) m'(1) by (subst removeExpired.simps) (simp add: expired_def)
    moreover have "set (byAge (inner m')) = {r \<in> set (byAge ?s). \<not> expired now timeout r}"
      using m'(3) s'(4) True by auto
    moreover have "{r \<in> set (byAge ?s). expired now timeout r} = insert ?r {r \<in> set (byAge s'). expired now timeout r}"
      using s'(4) True by auto
    then have "close_queues (rSendQueue ` {r \<in> set (byAge ?s). expired now timeout r}) (chans m) (chans m')"
      using m'(4) s'(3,6) unfolding close_queues_def by (auto simp: close_chan_def nth_list_update split: if_splits)
    ultimately show ?thesis using m'(2) by blast
  qed
qed

section \<open>Operations on the channels of a map\<close>

lemma live_update_other: "live cs c n \<Longrightarrow> c \<noteq> d \<Longrightarrow> live (cs[d := x]) c n"
  by (simp add: live_def)

lemma live_try_send:
  assumes "live cs c n" and "live cs d k"
  shows "\<exists>cs' b. try_send cs c p = Return (cs', b) \<and> live cs' d k"
  using assms by (cases "c = d") (auto simp: try_send_def live_def)

lemma live_try_recv: "live cs d k \<Longrightarrow> live (fst (try_recv cs c)) d k"
  by (cases "c = d") (auto simp: try_recv_def live_def split: list.splits)

lemma rm_ok_recv: "rm_ok m \<Longrightarrow> rm_ok (m\<lparr>chans := fst (try_recv (chans m) c)\<rparr>)"
  by (simp add: rm_ok_def refs_ok_def live_try_recv)

lemma rm_ok_send:
  assumes "rm_ok m" and "live (chans m) c n"
  shows "\<exists>cs b. try_send (chans m) c p = Return (cs, b) \<and> rm_ok (m\<lparr>chans := cs\<rparr>)"
proof -
  obtain cs b where s: "try_send (chans m) c p = Return (cs, b)"
    using live_try_send [OF assms(2,2)] by blast
  have "live cs d k" if "live (chans m) d k" for d k
    using live_try_send [OF assms(2) that, of p] s by auto
  then have "rm_ok (m\<lparr>chans := cs\<rparr>)" using assms(1) by (simp add: rm_ok_def refs_ok_def)
  with s show ?thesis by blast
qed

lemma rm_ok_try_send:
  assumes "rm_ok m" and "try_send (chans m) c p = Return (cs, b)"
  shows "rm_ok (m\<lparr>chans := cs\<rparr>)"
proof -
  have "live cs d k" if "live (chans m) d k" for d k
    using assms(2) that by (cases "c = d") (auto simp: try_send_def live_def split: if_splits)
  then show ?thesis using assms(1) by (simp add: rm_ok_def refs_ok_def)
qed

lemma peers_live:
  assumes "rm_ok m" and "peers m a = Some r"
  shows "live (chans m) (rSendQueue r) queueSize" and "live (chans m) (rStash r) 1"
  using assms peers_iff [of m a r] by (auto simp: rm_ok_def heap_ok_def refs_ok_def)

text \<open>\<open>Lookup\<close> in one statement: it never panics, and gives the address a record seen now.\<close>

lemma Lookup_ok:
  assumes "rm_ok m"
  obtains m' r where "Lookup m addr now = Return (m', r)" "rm_ok m'" "peers m' = (peers m)(addr \<mapsto> r)"
    "Addr r = addr" "LastSeen r = now"
    "\<And>c n. live (chans m) c n \<Longrightarrow> live (chans m') c n"
proof (cases "peers m addr")
  case None
  let ?r = "\<lparr>Addr = addr, LastSeen = now, rSendQueue = length (chans m), rStash = Suc (length (chans m))\<rparr>"
  obtain m' where m': "Lookup m addr now = Return (m', ?r)" "rm_ok m'" "peers m' = (peers m)(addr \<mapsto> ?r)"
    "chans m' = chans m @ [empty_chan queueSize, empty_chan 1]"
    by (rule Lookup_new [OF assms None])
  then show ?thesis using live_append by (intro that [OF m'(1-3)]) auto
next
  case (Some r)
  then have "Addr r = addr" using assms peers_iff [of m addr r] by (auto simp: rm_ok_def heap_ok_def)
  moreover obtain m' where m': "Lookup m addr now = Return (m', r\<lparr>LastSeen := now\<rparr>)" "rm_ok m'"
    "peers m' = (peers m)(addr \<mapsto> r\<lparr>LastSeen := now\<rparr>)" "chans m' = chans m"
    by (rule Lookup_known [OF assms Some])
  ultimately show ?thesis by (intro that [OF m'(1-3)]) simp_all
qed

section \<open>Sequences of operations\<close>

text \<open>
  The methods as they are called, each under the lock with the clock's reading, the rounds of the
  goroutine that expires records, and receives from the channels the methods have handed out.
\<close>

datatype 'a rm_op =
    SendQueueOp 'a int
  | StashOp 'a bytes int
  | UnstashOp 'a int
  | ExpireOp int int
  | RecvOp nat

fun rm_step :: "'a remoteMap \<Rightarrow> 'a rm_op \<Rightarrow> 'a remoteMap run" where
  "rm_step m (SendQueueOp a t) = run_bind (SendQueue m a t) (\<lambda>(m', _). Return m')"
| "rm_step m (StashOp a p t) = run_bind (Stash m a p t) (\<lambda>(m', _). Return m')"
| "rm_step m (UnstashOp a t) = run_bind (Unstash m a t) (\<lambda>(m', _). Return m')"
| "rm_step m (ExpireOp t timeout) = removeExpired m t timeout"
| "rm_step m (RecvOp c) = Return (m\<lparr>chans := fst (try_recv (chans m) c)\<rparr>)"

fun rm_run :: "'a remoteMap \<Rightarrow> 'a rm_op list \<Rightarrow> 'a remoteMap run" where
  "rm_run m [] = Return m"
| "rm_run m (op # ops) = run_bind (rm_step m op) (\<lambda>m'. rm_run m' ops)"

lemma rm_step_ok: "rm_ok m \<Longrightarrow> \<exists>m'. rm_step m op = Return m' \<and> rm_ok m'"
proof (cases op)
  case (SendQueueOp a t)
  assume ok: "rm_ok m"
  obtain m' r where "Lookup m a t = Return (m', r)" "rm_ok m'" by (rule Lookup_ok [OF ok])
  then show ?thesis by (simp add: SendQueueOp SendQueue_def)
next
  case (UnstashOp a t)
  assume ok: "rm_ok m"
  obtain m' r where "Lookup m a t = Return (m', r)" "rm_ok m'" by (rule Lookup_ok [OF ok])
  then show ?thesis by (simp add: UnstashOp Unstash_def)
next
  case (StashOp a p t)
  assume ok: "rm_ok m"
  obtain m' r where l: "Lookup m a t = Return (m', r)" "rm_ok m'" "peers m' = (peers m)(a \<mapsto> r)"
    by (rule Lookup_ok [OF ok])
  then have "live (chans m') (rStash r) 1" using peers_live(2) [of m' a r] by simp
  then show ?thesis using rm_ok_send [OF l(2), of "rStash r" 1 p] l(1) by (auto simp: StashOp Stash_def)
next
  case (ExpireOp t d)
  then show "rm_ok m \<Longrightarrow> ?thesis" using removeExpired_ok [of m t d] by auto
next
  case (RecvOp c)
  then show "rm_ok m \<Longrightarrow> ?thesis" by (simp add: rm_ok_recv)
qed

lemma rm_run_ok: "rm_ok m \<Longrightarrow> \<exists>m'. rm_run m ops = Return m' \<and> rm_ok m'"
proof (induction ops arbitrary: m)
  case (Cons op ops)
  obtain m1 where "rm_step m op = Return m1" "rm_ok m1" using rm_step_ok [OF Cons.prems, of op] by blast
  with Cons.IH show ?case by simp
qed simp

section \<open>Properties\<close>

text \<open>
  C24: Whatever sequence of calls is made from the empty map, at whatever times, none panics (no index
  is out of range, the two tables never disagree, no address is inserted twice, no channel is closed
  twice), and afterwards the heap is ordered by age, every address leads to the index of its record,
  and the records have open channels of their own.
\<close>

theorem remoteMap_never_panics: "\<exists>m'. rm_run NewRemoteMap ops = Return m' \<and> rm_ok m'"
  by (rule rm_run_ok [OF NewRemoteMap_ok])

text \<open>
  C25: \<open>Lookup\<close> implements a finite map: it returns the address's record, or a new one with two empty
  channels of capacity \<open>queueSize\<close> and 1, marked as seen now; no other address's record changes.
\<close>

theorem Lookup_refines:
  assumes "rm_ok m"
  shows "\<exists>m' r. Lookup m addr now = Return (m', r) \<and> rm_ok m' \<and> peers m' = (peers m)(addr \<mapsto> r) \<and>
    (case peers m addr of
       Some r0 \<Rightarrow> r = r0\<lparr>LastSeen := now\<rparr> \<and> chans m' = chans m
     | None \<Rightarrow> r = \<lparr>Addr = addr, LastSeen = now, rSendQueue = length (chans m), rStash = length (chans m) + 1\<rparr> \<and>
               chans m' = chans m @ [empty_chan queueSize, empty_chan 1])"
proof (cases "peers m addr")
  case None
  show ?thesis by (rule Lookup_new [OF assms None, of now]) (auto simp: None)
next
  case (Some r0)
  show ?thesis by (rule Lookup_known [OF assms Some, of now]) (auto simp: Some)
qed

theorem Lookup_refines_witness:
  "rm_ok (NewRemoteMap :: nat remoteMap) \<and>
   (\<exists>m' r. Lookup (NewRemoteMap :: nat remoteMap) 7 100 = Return (m', r) \<and> peers m' 7 = Some r)"
  using NewRemoteMap_ok Lookup_refines [OF NewRemoteMap_ok, of 7 100] by (metis fun_upd_same)

text \<open>
  C26: \<open>removeExpired\<close> removes exactly the peers last seen at least \<open>timeout\<close> ago, although it only
  ever looks at the top of the heap; it closes the send queues of exactly those, and leaves every
  other channel and the queued packets alone. (The comment on the function says more than \<open>timeout\<close>: the code also removes
  a record that is exactly \<open>timeout\<close> old.)
\<close>

theorem removeExpired_exact:
  assumes "rm_ok m"
  shows "\<exists>m'. removeExpired m now timeout = Return m' \<and> rm_ok m' \<and>
    (\<forall>a. peers m' a = (case peers m a of None \<Rightarrow> None
                       | Some r \<Rightarrow> if timeSub now (LastSeen r) \<ge> timeout then None else Some r)) \<and>
    close_queues {rSendQueue r | r a. peers m a = Some r \<and> timeSub now (LastSeen r) \<ge> timeout} (chans m) (chans m')"
proof -
  obtain m' where m': "removeExpired m now timeout = Return m'" "rm_ok m'"
    "set (byAge (inner m')) = {r \<in> set (byAge (inner m)). \<not> expired now timeout r}"
    "close_queues (rSendQueue ` {r \<in> set (byAge (inner m)). expired now timeout r}) (chans m) (chans m')"
    using removeExpired_ok [OF assms] by blast
  have ok: "inner_ok (inner m)" "inner_ok (inner m')" using assms m'(2) by (auto simp: rm_ok_def heap_ok_def)
  have "peers m' = (\<lambda>a. case peers m a of None \<Rightarrow> None
      | Some r \<Rightarrow> if timeSub now (LastSeen r) \<ge> timeout then None else Some r)"
    (is "_ = ?f")
  proof (rule peers_eqI [OF ok(2)])
    fix a r
    have "?f a = Some r \<longleftrightarrow> peers m a = Some r \<and> \<not> expired now timeout r"
      by (auto simp: expired_def split: option.splits)
    then show "?f a = Some r \<longleftrightarrow> r \<in> set (byAge (inner m')) \<and> Addr r = a"
      by (auto simp: m'(3) peers_iff [OF ok(1)])
  qed
  moreover have "rSendQueue ` {r \<in> set (byAge (inner m)). expired now timeout r}
      = {rSendQueue r | r a. peers m a = Some r \<and> timeSub now (LastSeen r) \<ge> timeout}"
    using peers_iff [OF ok(1)] by (auto simp: expired_def)
  ultimately show ?thesis using m' by simp
qed

theorem removeExpired_exact_witness:
  "\<exists>m1 r m2. Lookup NewRemoteMap (7 :: nat) 100 = Return (m1, r) \<and>
     removeExpired m1 200 50 = Return m2 \<and> peers m2 7 = None"
proof -
  obtain m1 r where m1: "Lookup NewRemoteMap (7 :: nat) 100 = Return (m1, r)" "rm_ok m1"
    "peers m1 = (peers NewRemoteMap)(7 \<mapsto> r)" "LastSeen r = 100"
    by (rule Lookup_ok [OF NewRemoteMap_ok])
  with removeExpired_exact [OF m1(2), of 200 50] show ?thesis
    by (auto simp: timeSub_def)
qed

end
