(* ===== verification/Queue_Packet_Conn.thy ===== *)
theory Queue_Packet_Conn
  imports Remote_Map "HOL-Library.Sublist"
begin

text \<open>
  The packet connection of \<^verbatim>\<open>turbotunnel/queuepacketconn.go\<close>: one bounded queue of incoming
  packets tagged with their source, and the outgoing queues of the map of peers.

  A method is modelled as one atomic step, except where the code itself leaves a gap that another
  goroutine can use: \<open>WriteTo\<close> first asks the map for the address's queue, under the map's lock,
  and then sends without it; \<open>WriteTo_queue\<close> and \<open>WriteTo_send\<close> are these two halves, and \<open>race_run\<close>
  interleaves them. A read that
  has to wait is the value \<open>None\<close>; when the connection is closed while a packet is waiting, the
  \<^verbatim>\<open>select\<close> statement may take either branch, which the argument \<open>pick\<close> decides.
\<close>

section \<open>The code\<close>

type_synonym 'a taggedPacket = "bytes \<times> 'a"

record 'a queuePacketConn =
  remotes :: "'a remoteMap"
  localAddr :: 'a
  recvQueue :: "'a taggedPacket chan"
  closed :: bool
  err :: "goerror option"

definition NewQueuePacketConn :: "'a \<Rightarrow> 'a queuePacketConn" where
  "NewQueuePacketConn addr =
     \<lparr>remotes = NewRemoteMap, localAddr = addr, recvQueue = empty_chan queueSize, closed = False, err = None\<rparr>"

definition opError :: "string \<Rightarrow> 'a queuePacketConn \<Rightarrow> goerror run" where
  "opError verb c =
     (case err c of Some e \<Rightarrow> Return (OpError verb e) | None \<Rightarrow> Panic ''interface conversion: interface is nil'')"

definition QueueIncoming :: "'a queuePacketConn \<Rightarrow> bytes \<Rightarrow> 'a \<Rightarrow> 'a queuePacketConn" where
  "QueueIncoming c p addr =
     (if closed c then c
      else if length (ch_buf (recvQueue c)) < ch_cap (recvQueue c)
      then c\<lparr>recvQueue := (recvQueue c)\<lparr>ch_buf := ch_buf (recvQueue c) @ [(p, addr)]\<rparr>\<rparr>
      else c)"

definition OutgoingQueue :: "'a queuePacketConn \<Rightarrow> 'a \<Rightarrow> int \<Rightarrow> ('a queuePacketConn \<times> nat) run" where
  "OutgoingQueue c addr now =
     run_bind (SendQueue (remotes c) addr now) (\<lambda>(m, q). Return (c\<lparr>remotes := m\<rparr>, q))"

definition ConnStash :: "'a queuePacketConn \<Rightarrow> bytes \<Rightarrow> 'a \<Rightarrow> int \<Rightarrow> ('a queuePacketConn \<times> bool) run" where
  "ConnStash c p addr now =
     run_bind (Stash (remotes c) addr p now) (\<lambda>(m, b). Return (c\<lparr>remotes := m\<rparr>, b))"

definition ConnUnstash :: "'a queuePacketConn \<Rightarrow> 'a \<Rightarrow> int \<Rightarrow> ('a queuePacketConn \<times> nat) run" where
  "ConnUnstash c addr now =
     run_bind (Unstash (remotes c) addr now) (\<lambda>(m, q). Return (c\<lparr>remotes := m\<rparr>, q))"

text \<open>The second \<^verbatim>\<open>select\<close> of \<open>ReadFrom\<close>, into a buffer of \<open>n\<close> bytes.\<close>

definition ReadFrom_wait ::
  "'a queuePacketConn \<Rightarrow> nat \<Rightarrow> bool \<Rightarrow> ('a queuePacketConn \<times> (goerror + bytes \<times> 'a)) option run" where
  "ReadFrom_wait c n pick =
     (if closed c \<and> (pick \<or> ch_buf (recvQueue c) = [])
      then run_bind (opError ''read'' c) (\<lambda>e. Return (Some (c, Inl e)))
      else
        (case ch_buf (recvQueue c) of
           [] \<Rightarrow> Return None
         | (p, addr) # ps \<Rightarrow>
             Return (Some (c\<lparr>recvQueue := (recvQueue c)\<lparr>ch_buf := ps\<rparr>\<rparr>, Inr (take n p, addr)))))"

definition ReadFrom ::
  "'a queuePacketConn \<Rightarrow> nat \<Rightarrow> bool \<Rightarrow> ('a queuePacketConn \<times> (goerror + bytes \<times> 'a)) option run" where
  "ReadFrom c n pick =
     (if closed c then run_bind (opError ''read'' c) (\<lambda>e. Return (Some (c, Inl e)))
      else ReadFrom_wait c n pick)"

definition WriteTo_queue :: "'a queuePacketConn \<Rightarrow> 'a \<Rightarrow> int \<Rightarrow> ('a queuePacketConn \<times> (goerror + nat)) run" where
  "WriteTo_queue c addr now =
     (if closed c then run_bind (opError ''write'' c) (\<lambda>e. Return (c, Inl e))
      else run_bind (SendQueue (remotes c) addr now) (\<lambda>(m, q). Return (c\<lparr>remotes := m\<rparr>, Inr q)))"

definition WriteTo_send :: "'a queuePacketConn \<Rightarrow> nat \<Rightarrow> bytes \<Rightarrow> ('a queuePacketConn \<times> (goerror + nat)) run" where
  "WriteTo_send c q p =
     run_bind (try_send (chans (remotes c)) q p)
       (\<lambda>(cs, _). Return (c\<lparr>remotes := (remotes c)\<lparr>chans := cs\<rparr>\<rparr>, Inr (length p)))"

definition WriteTo ::
  "'a queuePacketConn \<Rightarrow> bytes \<Rightarrow> 'a \<Rightarrow> int \<Rightarrow> ('a queuePacketConn \<times> (goerror + nat)) run" where
  "WriteTo c p addr now =
     run_bind (WriteTo_queue c addr now) (\<lambda>(c', res).
       case res of Inl e \<Rightarrow> Return (c', Inl e) | Inr q \<Rightarrow> WriteTo_send c' q p)"

definition closeWithError ::
  "'a queuePacketConn \<Rightarrow> goerror option \<Rightarrow> ('a queuePacketConn \<times> goerror option) run" where
  "closeWithError c e =
     (if \<not> closed c
      then Return (c\<lparr>err := Some (case e of None \<Rightarrow> errClosedPacketConn | Some x \<Rightarrow> x), closed := True\<rparr>, None)
      else run_bind (opError ''close'' c) (\<lambda>x. Return (c, Some x)))"

definition Close :: "'a queuePacketConn \<Rightarrow> ('a queuePacketConn \<times> goerror option) run" where
  "Close c = closeWithError c None"

definition SetDeadline :: "'a queuePacketConn \<Rightarrow> int \<Rightarrow> goerror option" where
  "SetDeadline c t = Some errNotImplemented"

section \<open>Sequences of calls\<close>

datatype 'a conn_op =
    IncomingOp bytes 'a
  | ReadOp nat bool
  | WriteOp bytes 'a int
  | CloseOp "goerror option"
  | MapOp "'a rm_op"

text \<open>A call, and the packet it delivers if it is a successful read. A read that would wait does nothing.\<close>

fun conn_step :: "'a queuePacketConn \<Rightarrow> 'a conn_op \<Rightarrow> ('a queuePacketConn \<times> 'a taggedPacket list) run" where
  "conn_step c (IncomingOp p a) = Return (QueueIncoming c p a, [])"
| "conn_step c (ReadOp n pick) =
     run_bind (ReadFrom c n pick) (\<lambda>res. Return
       (case res of None \<Rightarrow> (c, []) | Some (c', Inl e) \<Rightarrow> (c', []) | Some (c', Inr d) \<Rightarrow> (c', [d])))"
| "conn_step c (WriteOp p a t) = run_bind (WriteTo c p a t) (\<lambda>(c', _). Return (c', []))"
| "conn_step c (CloseOp e) = run_bind (closeWithError c e) (\<lambda>(c', _). Return (c', []))"
| "conn_step c (MapOp op) = run_bind (rm_step (remotes c) op) (\<lambda>m. Return (c\<lparr>remotes := m\<rparr>, []))"

fun conn_run :: "'a queuePacketConn \<Rightarrow> 'a conn_op list \<Rightarrow> ('a queuePacketConn \<times> 'a taggedPacket list) run" where
  "conn_run c [] = Return (c, [])"
| "conn_run c (op # ops) =
     run_bind (conn_step c op) (\<lambda>(c1, d1).
     run_bind (conn_run c1 ops) (\<lambda>(c2, d2). Return (c2, d1 @ d2)))"

section \<open>Interleavings\<close>








section \<open>The invariant\<close>

definition conn_ok :: "'a queuePacketConn \<Rightarrow> bool" where
  "conn_ok c \<longleftrightarrow> rm_ok (remotes c) \<and> ch_cap (recvQueue c) = queueSize \<and>
     length (ch_buf (recvQueue c)) \<le> queueSize \<and> (closed c \<longleftrightarrow> err c \<noteq> None)"

lemma NewQueuePacketConn_ok: "conn_ok (NewQueuePacketConn addr)"
  by (simp add: conn_ok_def NewQueuePacketConn_def NewRemoteMap_ok)

lemma QueueIncoming_ok: "conn_ok c \<Longrightarrow> conn_ok (QueueIncoming c p a)"
  by (auto simp: conn_ok_def QueueIncoming_def)

lemma ReadFrom_cases:
  assumes "conn_ok c"
  obtains (closed) e where "closed c" "err c = Some e" "ReadFrom c n pick = Return (Some (c, Inl (OpError ''read'' e)))"
  | (empty) "\<not> closed c" "ch_buf (recvQueue c) = []" "ReadFrom c n pick = Return None"
  | (packet) p a ps where "\<not> closed c" "ch_buf (recvQueue c) = (p, a) # ps"
      "ReadFrom c n pick = Return (Some (c\<lparr>recvQueue := (recvQueue c)\<lparr>ch_buf := ps\<rparr>\<rparr>, Inr (take n p, a)))"
proof (cases "closed c")
  case True
  then obtain e where "err c = Some e" using assms by (auto simp: conn_ok_def)
  then show ?thesis using True by (intro closed) (simp_all add: ReadFrom_def opError_def)
next
  case False
  then show ?thesis
    by (cases "ch_buf (recvQueue c)") (auto simp: ReadFrom_def ReadFrom_wait_def intro: empty packet)
qed

text \<open>An open \<open>WriteTo\<close> in one go, on the map of peers.\<close>

lemma WriteTo_open:
  assumes "conn_ok c" and "\<not> closed c"
  obtains m r cs b where "Lookup (remotes c) addr now = Return (m, r)" "rm_ok m" "peers m = (peers (remotes c))(addr \<mapsto> r)"
    "live (chans m) (rSendQueue r) queueSize"
    "try_send (chans m) (rSendQueue r) p = Return (cs, b)" "rm_ok (m\<lparr>chans := cs\<rparr>)"
    "WriteTo c p addr now = Return (c\<lparr>remotes := m\<lparr>chans := cs\<rparr>\<rparr>, Inr (length p))"
proof -
  have "rm_ok (remotes c)" using assms(1) by (simp add: conn_ok_def)
  then obtain m r where l: "Lookup (remotes c) addr now = Return (m, r)" "rm_ok m"
    "peers m = (peers (remotes c))(addr \<mapsto> r)"
    by (rule Lookup_ok)
  then have v: "live (chans m) (rSendQueue r) queueSize" using peers_live(1) [of m addr r] by simp
  obtain cs b where s: "try_send (chans m) (rSendQueue r) p = Return (cs, b)" "rm_ok (m\<lparr>chans := cs\<rparr>)"
    using rm_ok_send [OF l(2) v] by blast
  have "WriteTo c p addr now = Return (c\<lparr>remotes := m\<lparr>chans := cs\<rparr>\<rparr>, Inr (length p))"
    using assms(2) l(1) s(1) by (simp add: WriteTo_def WriteTo_queue_def WriteTo_send_def SendQueue_def)
  with l v s show ?thesis by (intro that)
qed

lemma closed_error: "conn_ok c \<Longrightarrow> closed c \<Longrightarrow> \<exists>e. err c = Some e \<and> opError verb c = Return (OpError verb e)"
  by (auto simp: conn_ok_def opError_def)

lemma Close_closed:
  assumes "conn_ok c"
  obtains c' e where "Close c = Return (c', e)" "conn_ok c'" "closed c'"
proof (cases "closed c")
  case True
  then show ?thesis using that assms closed_error [OF assms True, of "''close''"] by (auto simp: Close_def closeWithError_def)
next
  case False
  then show ?thesis using that assms by (auto simp: Close_def closeWithError_def conn_ok_def)
qed

lemma conn_step_ok:
  assumes "conn_ok c"
  shows "\<exists>c' d. conn_step c op = Return (c', d) \<and> conn_ok c'"
proof (cases op)
  case (IncomingOp p a)
  then show ?thesis using assms by (simp add: QueueIncoming_ok)
next
  case (ReadOp n pick)
  from assms show ?thesis
    by (cases rule: ReadFrom_cases [where n = n and pick = pick]) (use assms in \<open>auto simp: ReadOp conn_ok_def\<close>)
next
  case (WriteOp p a t)
  show ?thesis
  proof (cases "closed c")
    case True
    with closed_error [OF assms, of "''write''"] assms show ?thesis
      by (auto simp: WriteOp WriteTo_def WriteTo_queue_def)
  next
    case False
    from assms False show ?thesis
      by (rule WriteTo_open [where addr = a and now = t and p = p]) (use assms in \<open>auto simp: WriteOp conn_ok_def\<close>)
  qed
next
  case (CloseOp e)
  show ?thesis
  proof (cases "closed c")
    case True
    with closed_error [OF assms, of "''close''"] assms show ?thesis by (auto simp: CloseOp closeWithError_def)
  next
    case False
    with assms show ?thesis by (auto simp: CloseOp closeWithError_def conn_ok_def)
  qed
next
  case (MapOp op')
  have "rm_ok (remotes c)" using assms by (simp add: conn_ok_def)
  from rm_step_ok [OF this, of op'] assms show ?thesis by (auto simp: MapOp conn_ok_def)
qed

lemma conn_run_ok: "conn_ok c \<Longrightarrow> \<exists>c' ds. conn_run c ops = Return (c', ds) \<and> conn_ok c'"
proof (induction ops arbitrary: c)
  case (Cons op ops)
  obtain c1 d1 where s: "conn_step c op = Return (c1, d1)" "conn_ok c1"
    using conn_step_ok [OF Cons.prems, of op] by blast
  from Cons.IH [OF s(2)] s(1) show ?case by auto
qed simp

section \<open>Order of delivery\<close>

lemma WriteTo_frame:
  assumes "WriteTo c p a t = Return (c', res)"
  shows "recvQueue c' = recvQueue c \<and> closed c' = closed c \<and> err c' = err c \<and> (closed c \<longrightarrow> c' = c)"
proof -
  obtain c1 r1 where q: "WriteTo_queue c a t = Return (c1, r1)"
    and s: "(case r1 of Inl e \<Rightarrow> Return (c1, Inl e) | Inr q \<Rightarrow> WriteTo_send c1 q p) = Return (c', res)"
    using assms by (auto simp: WriteTo_def run_bind_Return)
  have "recvQueue c1 = recvQueue c \<and> closed c1 = closed c \<and> err c1 = err c \<and>
      (closed c \<longrightarrow> c1 = c \<and> (\<exists>e. r1 = Inl e))"
    using q by (auto simp: WriteTo_queue_def run_bind_Return split: if_splits)
  with s show ?thesis by (cases r1) (auto simp: WriteTo_send_def run_bind_Return)
qed




lemma WriteTo_queue_cases:
  assumes "conn_ok c"
  obtains (shut) e where "WriteTo_queue c a t = Return (c, Inl e)"
  | (found) m r where "Lookup (remotes c) a t = Return (m, r)" "rm_ok m" "peers m = (peers (remotes c))(a \<mapsto> r)" "LastSeen r = t"
      "WriteTo_queue c a t = Return (c\<lparr>remotes := m\<rparr>, Inr (rSendQueue r))"
proof (cases "closed c")
  case True
  then show ?thesis using closed_error [OF assms, of "''write''"] shut by (auto simp: WriteTo_queue_def)
next
  case False
  have "rm_ok (remotes c)" using assms by (simp add: conn_ok_def)
  then obtain m r where "Lookup (remotes c) a t = Return (m, r)" "rm_ok m" "peers m = (peers (remotes c))(a \<mapsto> r)" "LastSeen r = t"
    by (rule Lookup_ok)
  then show ?thesis using False by (intro found) (simp_all add: WriteTo_queue_def SendQueue_def)
qed





section \<open>Outgoing packets\<close>

definition outgoing :: "'a queuePacketConn \<Rightarrow> 'a \<Rightarrow> bytes list" where
  "outgoing c a = (case peers (remotes c) a of None \<Rightarrow> [] | Some r \<Rightarrow> ch_buf (chans (remotes c) ! rSendQueue r))"

lemma peers_distinct_queues:
  assumes "rm_ok m" and "peers m a = Some r" and "peers m b = Some s" and "a \<noteq> b"
  shows "rSendQueue r \<noteq> rSendQueue s"
proof -
  have i: "inner_ok (inner m)" using assms(1) by (simp add: rm_ok_def heap_ok_def)
  have "r \<in> set (byAge (inner m))" "s \<in> set (byAge (inner m))" "Addr r = a" "Addr s = b"
    using assms(2,3) by (simp_all add: peers_iff [OF i])
  with assms(1,4) show ?thesis by (auto simp: rm_ok_def refs_ok_def inj_on_def)
qed

text \<open>Looking an address up changes nobody's queue.\<close>

lemma Lookup_outgoing:
  assumes "rm_ok (remotes c)" and "Lookup (remotes c) addr now = Return (m, r)"
  shows "outgoing (c\<lparr>remotes := m\<rparr>) = outgoing c"
proof (cases "peers (remotes c) addr")
  case None
  obtain m' where m': "Lookup (remotes c) addr now = Return (m', \<lparr>Addr = addr, LastSeen = now,
      rSendQueue = length (chans (remotes c)), rStash = Suc (length (chans (remotes c)))\<rparr>)"
    "peers m' = (peers (remotes c))(addr \<mapsto> \<lparr>Addr = addr, LastSeen = now,
      rSendQueue = length (chans (remotes c)), rStash = Suc (length (chans (remotes c)))\<rparr>)"
    "chans m' = chans (remotes c) @ [empty_chan queueSize, empty_chan 1]"
    by (rule Lookup_new [OF assms(1) None])
  have "m = m'" using assms(2) m'(1) by simp
  moreover have "chans m' ! rSendQueue s = chans (remotes c) ! rSendQueue s" if "peers (remotes c) a = Some s" for a s
    using peers_live(1) [OF assms(1) that] by (simp add: m'(3) live_def nth_append)
  ultimately show ?thesis
    using None m'(2,3) by (auto simp: outgoing_def fun_eq_iff nth_append split: option.splits)
next
  case (Some r0)
  obtain m' where m': "Lookup (remotes c) addr now = Return (m', r0\<lparr>LastSeen := now\<rparr>)"
    "peers m' = (peers (remotes c))(addr \<mapsto> r0\<lparr>LastSeen := now\<rparr>)" "chans m' = chans (remotes c)"
    by (rule Lookup_known [OF assms(1) Some])
  then show ?thesis using Some assms(2) by (auto simp: outgoing_def fun_eq_iff split: option.splits)
qed

lemma outgoing_update:
  assumes "rm_ok m" and "peers m a = Some r"
  shows "outgoing (c\<lparr>remotes := m\<lparr>chans := (chans m)[rSendQueue r := (chans m ! rSendQueue r)\<lparr>ch_buf := b\<rparr>]\<rparr>\<rparr>)
    = (outgoing (c\<lparr>remotes := m\<rparr>))(a := b)"
proof
  fix x
  have lt: "rSendQueue r < length (chans m)" using peers_live(1) [OF assms] by (simp add: live_def)
  have p: "peers (m\<lparr>chans := cs\<rparr>) = peers m" for cs by (simp add: peers_def)
  show "outgoing (c\<lparr>remotes := m\<lparr>chans := (chans m)[rSendQueue r := (chans m ! rSendQueue r)\<lparr>ch_buf := b\<rparr>]\<rparr>\<rparr>) x
      = ((outgoing (c\<lparr>remotes := m\<rparr>))(a := b)) x"
    using assms lt peers_distinct_queues [OF assms]
    by (cases "x = a") (auto simp: outgoing_def p split: option.splits)
qed

section \<open>The gap in WriteTo\<close>

text \<open>
  An operation that may run between the two halves of a \<open>WriteTo\<close> that asked for its queue at
  \<open>t0\<close>: clocks do not run backwards, and no expiry happens \<open>timeout\<close> or more after \<open>t0\<close>.
\<close>

fun within :: "int \<Rightarrow> 'a rm_op \<Rightarrow> bool" where
  "within t0 (SendQueueOp a t) \<longleftrightarrow> t0 \<le> t"
| "within t0 (StashOp a p t) \<longleftrightarrow> t0 \<le> t"
| "within t0 (UnstashOp a t) \<longleftrightarrow> t0 \<le> t"
| "within t0 (ExpireOp t timeout) \<longleftrightarrow> timeSub t t0 < timeout"
| "within t0 (RecvOp c) \<longleftrightarrow> True"

definition holds_queue :: "'a remoteMap \<Rightarrow> 'a \<Rightarrow> nat \<Rightarrow> int \<Rightarrow> bool" where
  "holds_queue m a q t0 \<longleftrightarrow> rm_ok m \<and> (\<exists>r. peers m a = Some r \<and> rSendQueue r = q \<and> t0 \<le> LastSeen r)"

lemma peers_chans [simp]: "peers (m\<lparr>chans := cs\<rparr>) = peers m"
  by (simp add: peers_def)

lemma Lookup_holds:
  assumes "holds_queue m a q t0" and "t0 \<le> t" and "Lookup m b t = Return (m', r)"
  shows "holds_queue m' a q t0"
proof -
  from assms(1) obtain s where s: "rm_ok m" "peers m a = Some s" "rSendQueue s = q" "t0 \<le> LastSeen s"
    by (auto simp: holds_queue_def)
  obtain m1 r1 where l: "Lookup m b t = Return (m1, r1)" "rm_ok m1" "peers m1 = (peers m)(b \<mapsto> r1)"
    "LastSeen r1 = t"
    by (rule Lookup_ok [OF s(1)])
  have "rSendQueue r1 = q" if "a = b"
  proof -
    have "peers m b = Some s" using s(2) that by simp
    then obtain m2 where "Lookup m b t = Return (m2, s\<lparr>LastSeen := t\<rparr>)"
      by (rule Lookup_known [OF s(1)])
    with l(1) s(3) show ?thesis by auto
  qed
  with s l assms(2,3) show ?thesis by (auto simp: holds_queue_def)
qed

lemma rm_step_holds:
  assumes "holds_queue m a q t0" and "within t0 op" and "rm_step m op = Return m'"
  shows "holds_queue m' a q t0"
proof -
  have ok: "rm_ok m" "rm_ok m'"
    using assms(1,3) rm_step_ok [of m op] by (auto simp: holds_queue_def)
  show ?thesis
  proof (cases op)
    case (StashOp b p t)
    then obtain m1 r where "Lookup m b t = Return (m1, r)" "peers m' = peers m1"
      using assms(3) by (auto simp: Stash_def run_bind_Return)
    with Lookup_holds [OF assms(1), of t b m1 r] assms(2) ok(2) show ?thesis
      by (auto simp: StashOp holds_queue_def)
  next
    case (ExpireOp t d)
    from assms(1) obtain s where s: "peers m a = Some s" "rSendQueue s = q" "t0 \<le> LastSeen s"
      by (auto simp: holds_queue_def)
    have i: "inner_ok (inner m)" "inner_ok (inner m')" using ok by (auto simp: rm_ok_def heap_ok_def)
    have "\<not> expired t d s"
      using assms(2) timeSub_mono [OF s(3), of t] by (auto simp: ExpireOp expired_def)
    moreover have "set (byAge (inner m')) = {r \<in> set (byAge (inner m)). \<not> expired t d r}"
      using removeExpired_ok [OF ok(1), of t d] assms(3) by (auto simp: ExpireOp)
    ultimately show ?thesis using s ok(2) by (auto simp: holds_queue_def peers_iff i)
  qed (use assms Lookup_holds [OF assms(1)] ok in
      \<open>auto simp: SendQueue_def Unstash_def run_bind_Return holds_queue_def\<close>)
qed

lemma rm_run_holds:
  "holds_queue m a q t0 \<Longrightarrow> (\<forall>op\<in>set ops. within t0 op) \<Longrightarrow> rm_run m ops = Return m' \<Longrightarrow> holds_queue m' a q t0"
proof (induction ops arbitrary: m)
  case (Cons op ops)
  then show ?case using rm_step_holds [of m a q t0 op] by (auto simp: run_bind_Return)
qed simp








text \<open>A closed queue stays closed, and a record that nobody looks up stays as old as it is.\<close>

fun refreshes :: "'a \<Rightarrow> 'a rm_op \<Rightarrow> bool" where
  "refreshes a (SendQueueOp b t) \<longleftrightarrow> a = b"
| "refreshes a (StashOp b p t) \<longleftrightarrow> a = b"
| "refreshes a (UnstashOp b t) \<longleftrightarrow> a = b"
| "refreshes a (ExpireOp t timeout) \<longleftrightarrow> False"
| "refreshes a (RecvOp c) \<longleftrightarrow> False"

definition queue_closed :: "'a remoteMap \<Rightarrow> nat \<Rightarrow> bool" where
  "queue_closed m q \<longleftrightarrow> q < length (chans m) \<and> ch_closed (chans m ! q)"

definition queue_aging :: "'a remoteMap \<Rightarrow> 'a \<Rightarrow> nat \<Rightarrow> int \<Rightarrow> bool" where
  "queue_aging m a q t0 \<longleftrightarrow> queue_closed m q \<or> (\<exists>r. peers m a = Some r \<and> rSendQueue r = q \<and> LastSeen r = t0)"

lemma queue_closed_map: "map ch_closed cs = map ch_closed (chans m) \<Longrightarrow> queue_closed (m\<lparr>chans := cs\<rparr>) q = queue_closed m q"
  unfolding queue_closed_def by simp (metis length_map nth_map)

lemma Lookup_closed:
  assumes "rm_ok m" and "queue_closed m q" and "Lookup m a t = Return (m', r)"
  shows "queue_closed m' q"
proof -
  have "\<exists>cs. chans m' = chans m @ cs"
  proof (cases "peers m a")
    case None
    show ?thesis by (rule Lookup_new [OF assms(1) None, of t]) (use assms(3) in auto)
  next
    case (Some r0)
    show ?thesis by (rule Lookup_known [OF assms(1) Some, of t]) (use assms(3) in auto)
  qed
  with assms(2) show ?thesis by (auto simp: queue_closed_def nth_append)
qed

lemma rm_step_closed:
  assumes "rm_ok m" and "queue_closed m q" and "rm_step m op = Return m'"
  shows "queue_closed m' q"
proof (cases op)
  case (StashOp a p t)
  then obtain m1 r cs b where l: "Lookup m a t = Return (m1, r)" "try_send (chans m1) (rStash r) p = Return (cs, b)" "m' = m1\<lparr>chans := cs\<rparr>"
    using assms(3) by (auto simp: Stash_def run_bind_Return)
  with Lookup_closed [OF assms(1,2) l(1)] try_send_frame [OF l(2)] show ?thesis by (simp add: queue_closed_map)
next
  case (ExpireOp t d)
  with removeExpired_ok [OF assms(1), of t d] assms(2,3) show ?thesis by (auto simp: close_queues_def queue_closed_def)
next
  case (RecvOp c)
  then show ?thesis using assms(2,3) try_recv_frame [of "chans m" c, OF surjective_pairing] by (auto simp: queue_closed_map)
qed (use assms in \<open>auto simp: SendQueue_def Unstash_def run_bind_Return dest: Lookup_closed\<close>)

lemma rm_run_closed: "rm_ok m \<Longrightarrow> queue_closed m q \<Longrightarrow> rm_run m ops = Return m' \<Longrightarrow> queue_closed m' q"
proof (induction ops arbitrary: m)
  case (Cons op ops)
  then show ?case using rm_step_ok [of m op] by (auto dest: rm_step_closed)
qed simp

lemma Lookup_other: "rm_ok m \<Longrightarrow> Lookup m b t = Return (m', r) \<Longrightarrow> a \<noteq> b \<Longrightarrow> peers m' a = peers m a"
  by (rule Lookup_ok [of m b t]) auto

lemma expire_aging:
  assumes "rm_ok m" and "queue_aging m a q t0" and "removeExpired m t timeout = Return m'"
  shows "queue_aging m' a q t0" and "timeSub t t0 \<ge> timeout \<Longrightarrow> queue_closed m' q"
proof -
  have i: "inner_ok (inner m)" using assms(1) by (simp add: rm_ok_def heap_ok_def)
  from removeExpired_ok [OF assms(1), of t timeout] assms(3)
  have e: "rm_ok m'" "set (byAge (inner m')) = {r \<in> set (byAge (inner m)). \<not> expired t timeout r}"
    "close_queues (rSendQueue ` {r \<in> set (byAge (inner m)). expired t timeout r}) (chans m) (chans m')" by auto
  then have i': "inner_ok (inner m')" by (simp add: rm_ok_def heap_ok_def)
  have c: "queue_closed m' q" if "queue_closed m q \<or> (\<exists>r. peers m a = Some r \<and> rSendQueue r = q \<and> expired t timeout r)"
    using that e(3) peers_live(1) [OF assms(1)] by (auto simp: queue_closed_def close_queues_def live_def peers_iff [OF i])
  moreover have "peers m' a = Some r" if "peers m a = Some r" "\<not> expired t timeout r" for r
    using that e(2) by (simp add: peers_iff [OF i] peers_iff [OF i'])
  ultimately show "queue_aging m' a q t0" using assms(2) by (auto simp: queue_aging_def)
  show "queue_closed m' q" if "timeSub t t0 \<ge> timeout"
    using c assms(2) that by (auto simp: queue_aging_def expired_def)
qed

lemma rm_step_aging:
  assumes "rm_ok m" and "queue_aging m a q t0" and "\<not> refreshes a op" and "rm_step m op = Return m'"
  shows "queue_aging m' a q t0"
proof (cases "queue_closed m q")
  case True
  with rm_step_closed [OF assms(1) _ assms(4)] show ?thesis by (simp add: queue_aging_def)
next
  case False
  then have "peers m' a = peers m a \<Longrightarrow> ?thesis" using assms(2) by (auto simp: queue_aging_def)
  then show ?thesis
  proof (cases op)
    case (ExpireOp t d)
    then show ?thesis using expire_aging(1) [OF assms(1,2)] assms(4) by simp
  qed (use assms(3,4) Lookup_other [OF assms(1)] in \<open>auto simp: SendQueue_def Stash_def Unstash_def run_bind_Return\<close>)
qed

lemma rm_run_aging:
  "rm_ok m \<Longrightarrow> queue_aging m a q t0 \<Longrightarrow> \<forall>op\<in>set ops. \<not> refreshes a op \<Longrightarrow> rm_run m ops = Return m' \<Longrightarrow> queue_aging m' a q t0"
proof (induction ops arbitrary: m)
  case (Cons op ops)
  then show ?case using rm_step_ok [of m op] by (auto dest: rm_step_aging)
qed simp

lemma rm_run_append: "rm_run m (ops @ ops') = run_bind (rm_run m ops) (\<lambda>m. rm_run m ops')"
proof (induction ops arbitrary: m)
  case (Cons op ops)
  then show ?case by (cases "rm_step m op") simp_all
qed simp

section \<open>Properties\<close>



lemma run_bind_Return_id [simp]: "run_bind m Return = m"
  by (cases m) auto

lemma conn_run_queue:
  "conn_ok c \<Longrightarrow> \<not> closed c \<Longrightarrow> length (ch_buf (recvQueue c)) + length ps \<le> queueSize \<Longrightarrow>
   conn_run c (map (\<lambda>(p, a). IncomingOp p a) ps @ ops) =
   conn_run (c\<lparr>recvQueue := (recvQueue c)\<lparr>ch_buf := ch_buf (recvQueue c) @ ps\<rparr>\<rparr>) ops"
proof (induction ps arbitrary: c)
  case (Cons x ps)
  obtain p a where x: "x = (p, a)" by force
  let ?c = "QueueIncoming c p a"
  have q: "?c = c\<lparr>recvQueue := (recvQueue c)\<lparr>ch_buf := ch_buf (recvQueue c) @ [(p, a)]\<rparr>\<rparr>"
    using Cons.prems by (simp add: QueueIncoming_def conn_ok_def)
  have "conn_ok ?c" using Cons.prems(1) by (rule QueueIncoming_ok)
  from Cons.IH [OF this] Cons.prems(2,3) show ?case
    by (simp add: x q)
qed simp

lemma conn_run_read:
  "conn_ok c \<Longrightarrow> \<not> closed c \<Longrightarrow> ch_buf (recvQueue c) = ps \<Longrightarrow>
   \<exists>c'. conn_run c (replicate (length ps) (ReadOp n pick)) = Return (c', map (\<lambda>(p, a). (take n p, a)) ps)"
proof (induction ps arbitrary: c)
  case (Cons x ps)
  obtain p a where x: "x = (p, a)" by force
  let ?c = "c\<lparr>recvQueue := (recvQueue c)\<lparr>ch_buf := ps\<rparr>\<rparr>"
  have "conn_ok ?c" using Cons.prems by (auto simp: conn_ok_def)
  with Cons.IH [of ?c] Cons.prems(2) obtain c' where
    "conn_run ?c (replicate (length ps) (ReadOp n pick)) = Return (c', map (\<lambda>(p, a). (take n p, a)) ps)" by auto
  with Cons.prems show ?case by (auto simp: ReadFrom_def ReadFrom_wait_def x)
qed simp

text \<open>
  Up to \<open>queueSize\<close> packets that are queued before anyone reads are all delivered, in order, each
  cut to the reader's buffer.
\<close>

theorem incoming_delivered:
  assumes "length ps \<le> queueSize"
  shows "\<exists>c. conn_run (NewQueuePacketConn addr)
      (map (\<lambda>(p, a). IncomingOp p a) ps @ replicate (length ps) (ReadOp n pick))
    = Return (c, map (\<lambda>(p, a). (take n p, a)) ps)"
proof -
  let ?c = "NewQueuePacketConn addr"
  let ?c1 = "?c\<lparr>recvQueue := (recvQueue ?c)\<lparr>ch_buf := ch_buf (recvQueue ?c) @ ps\<rparr>\<rparr>"
  have o: "conn_ok ?c" "\<not> closed ?c" "ch_buf (recvQueue ?c) = []"
    using NewQueuePacketConn_ok by (auto simp: NewQueuePacketConn_def)
  have "conn_ok ?c1" using o assms by (simp add: conn_ok_def)
  from conn_run_read [OF this, of ps n pick] conn_run_queue [OF o(1,2), of ps] o assms
  show ?thesis by simp
qed

theorem incoming_delivered_witness:
  "\<exists>c. conn_run (NewQueuePacketConn 0)
      (map (\<lambda>(p, a). IncomingOp p a) [([1, 2], 5), ([3], 6 :: nat)] @ replicate (length [([1, 2 :: byte], 5), ([3], 6 :: nat)]) (ReadOp 1 True))
    = Return (c, map (\<lambda>(p, a). (take 1 p, a)) [([1, 2], 5), ([3], 6)])"
  by (rule incoming_delivered) (simp add: queueSize_def)

lemma WriteTo_appends:
  assumes "conn_ok c" and "\<not> closed c"
  shows "\<exists>c'. WriteTo c p addr now = Return (c', Inr (length p)) \<and> conn_ok c' \<and>
    outgoing c' = (outgoing c)(addr := if length (outgoing c addr) < queueSize then outgoing c addr @ [p]
                                       else outgoing c addr)"
proof -
  from assms obtain m r cs b where w: "Lookup (remotes c) addr now = Return (m, r)" "rm_ok m"
    "peers m = (peers (remotes c))(addr \<mapsto> r)" "live (chans m) (rSendQueue r) queueSize"
    "try_send (chans m) (rSendQueue r) p = Return (cs, b)" "rm_ok (m\<lparr>chans := cs\<rparr>)"
    "WriteTo c p addr now = Return (c\<lparr>remotes := m\<lparr>chans := cs\<rparr>\<rparr>, Inr (length p))"
    by (rule WriteTo_open)
  have same: "outgoing (c\<lparr>remotes := m\<rparr>) = outgoing c"
    using assms(1) by (intro Lookup_outgoing [OF _ w(1)]) (simp add: conn_ok_def)
  have a: "peers m addr = Some r" using w(3) by simp
  have buf: "ch_buf (chans m ! rSendQueue r) = outgoing c addr"
    using a fun_cong [OF same, of addr] by (simp add: outgoing_def)
  have cs: "cs = (if length (outgoing c addr) < queueSize
      then (chans m)[rSendQueue r := (chans m ! rSendQueue r)\<lparr>ch_buf := outgoing c addr @ [p]\<rparr>] else chans m)"
    using w(4,5) buf by (auto simp: try_send_def live_def split: if_splits)
  have "outgoing (c\<lparr>remotes := m\<lparr>chans := cs\<rparr>\<rparr>) = (outgoing c)(addr :=
      if length (outgoing c addr) < queueSize then outgoing c addr @ [p] else outgoing c addr)"
    using outgoing_update [OF w(2) a, where c = c and b = "outgoing c addr @ [p]"] same by (simp add: cs)
  with w(6,7) assms(1) show ?thesis by (auto simp: conn_ok_def)
qed

text \<open>
  On an open connection \<open>WriteTo\<close> appends the packet to the queue of exactly the given address,
  creating it if there is none, and drops it if that queue already holds \<open>queueSize\<close> packets; it
  reports the packet's length either way, and no other address's queue changes.
\<close>

theorem WriteTo_queues:
  assumes "conn_ok c" and "\<not> closed c"
  shows "\<exists>c'. WriteTo c p addr now = Return (c', Inr (length p)) \<and> conn_ok c' \<and>
    outgoing c' = (outgoing c)(addr := if length (outgoing c addr) < queueSize then outgoing c addr @ [p]
                                       else outgoing c addr)"
  using assms by (rule WriteTo_appends)

theorem WriteTo_queues_witness:
  "\<exists>c'. WriteTo (NewQueuePacketConn 0) [1, 2, 3] (9 :: nat) 5 = Return (c', Inr 3) \<and> outgoing c' 9 = [[1, 2, 3]]"
proof -
  have "\<not> closed (NewQueuePacketConn (0 :: nat))" "outgoing (NewQueuePacketConn (0 :: nat)) 9 = []"
    by (simp_all add: NewQueuePacketConn_def outgoing_def peers_def NewRemoteMap_def)
  with WriteTo_queues [OF NewQueuePacketConn_ok, of "0 :: nat" "[1, 2, 3]" 9 5] show ?thesis
    by (auto simp: queueSize_def)
qed

lemma closed_step:
  assumes "conn_ok c" and "closed c" and "conn_step c op = Return (c', d)"
  shows "closed c' \<and> err c' = err c \<and> d = []"
proof (cases op)
  case (ReadOp n pick)
  from assms(1) show ?thesis
    by (cases rule: ReadFrom_cases [where n = n and pick = pick]) (use assms(2,3) in \<open>auto simp: ReadOp\<close>)
qed (use assms in \<open>auto simp: run_bind_Return QueueIncoming_def closeWithError_def dest: WriteTo_frame split: if_splits\<close>)

lemma closed_run:
  "conn_ok c \<Longrightarrow> closed c \<Longrightarrow> conn_run c ops = Return (c', d) \<Longrightarrow> conn_ok c' \<and> closed c' \<and> err c' = err c \<and> d = []"
proof (induction ops arbitrary: c c' d)
  case (Cons op ops)
  obtain c1 d1 where s: "conn_step c op = Return (c1, d1)" "conn_ok c1"
    using conn_step_ok [OF Cons.prems(1), of op] by blast
  with Cons.prems(3) obtain d2 where r: "conn_run c1 ops = Return (c', d2)" "d = d1 @ d2"
    by (auto simp: run_bind_Return)
  from closed_step [OF Cons.prems(1,2) s(1)] Cons.IH [OF s(2) _ r(1)] r(2) show ?case by simp
qed simp

text \<open>
  C28: Closing takes effect once and for good: the first \<open>closeWithError\<close> succeeds; after it, and after
  any further calls, nothing is delivered, and every read, write and close fails with the error of
  that first call (\<open>errClosedPacketConn\<close> if it gave none).
\<close>

theorem close_once:
  assumes "conn_ok c" and "\<not> closed c" and "closeWithError c e = Return (c1, res)"
    and "conn_run c1 ops = Return (c2, ds)"
  defines "x \<equiv> (case e of None \<Rightarrow> errClosedPacketConn | Some y \<Rightarrow> y)"
  shows "res = None \<and> ds = [] \<and>
    ReadFrom c2 n pick = Return (Some (c2, Inl (OpError ''read'' x))) \<and>
    WriteTo c2 p addr now = Return (c2, Inl (OpError ''write'' x)) \<and>
    closeWithError c2 e' = Return (c2, Some (OpError ''close'' x)) \<and>
    QueueIncoming c2 p addr = c2"
proof -
  have c1: "res = None" "closed c1" "err c1 = Some x" "conn_ok c1"
    using assms(1-3) by (auto simp: closeWithError_def x_def conn_ok_def)
  from closed_run [OF c1(4,2) assms(4)] c1(3) have c2: "closed c2" "err c2 = Some x" "ds = []" by auto
  then show ?thesis
    using c1(1) by (simp add: ReadFrom_def WriteTo_def WriteTo_queue_def closeWithError_def QueueIncoming_def opError_def)
qed

theorem close_once_witness:
  "\<exists>c1 c2 ds. closeWithError (NewQueuePacketConn (0 :: nat)) None = Return (c1, None) \<and>
     conn_run c1 [IncomingOp [1] 5, ReadOp 10 False, CloseOp None] = Return (c2, ds) \<and> ds = [] \<and>
     closeWithError c2 (Some EOF) = Return (c2, Some (OpError ''close'' errClosedPacketConn))"
proof -
  let ?c = "NewQueuePacketConn (0 :: nat)"
  obtain c1 where c1: "closeWithError ?c None = Return (c1, None)"
    by (simp add: closeWithError_def NewQueuePacketConn_def)
  then have o: "conn_ok c1"
    using conn_step_ok [OF NewQueuePacketConn_ok, of "0 :: nat" "CloseOp None"] by auto
  then obtain c2 ds where r: "conn_run c1 [IncomingOp [1] 5, ReadOp 10 False, CloseOp None] = Return (c2, ds)"
    using conn_run_ok by blast
  have "\<not> closed ?c" by (simp add: NewQueuePacketConn_def)
  from close_once [OF NewQueuePacketConn_ok this c1 r, of 0 False "[]" 0 0 "Some EOF"] c1 r show ?thesis by auto
qed

text \<open>
  \<open>WriteTo\<close> does not panic on a queue that expires under it: whatever happens to the map between
  its two halves, the queue is still open when the packet is sent, as long as no expiry runs
  \<open>timeout\<close> or more after the queue was asked for.
\<close>

theorem WriteTo_gap_safe:
  assumes "conn_ok c" and "WriteTo_queue c addr t0 = Return (c1, Inr q)"
    and "\<forall>op\<in>set ops. within t0 op" and "rm_run (remotes c1) ops = Return m"
  shows "\<exists>c2. WriteTo_send (c1\<lparr>remotes := m\<rparr>) q p = Return (c2, Inr (length p))"
proof -
  have ok: "rm_ok (remotes c)" using assms(1) by (simp add: conn_ok_def)
  obtain m1 r where l: "Lookup (remotes c) addr t0 = Return (m1, r)" "rm_ok m1"
    "peers m1 = (peers (remotes c))(addr \<mapsto> r)" "LastSeen r = t0"
    by (rule Lookup_ok [OF ok])
  then have "remotes c1 = m1" "q = rSendQueue r"
    using assms(2) by (auto simp: WriteTo_queue_def SendQueue_def run_bind_Return split: if_splits)
  then have "holds_queue (remotes c1) addr q t0" using l by (auto simp: holds_queue_def)
  from rm_run_holds [OF this assms(3,4)] obtain s where
    m: "rm_ok m" "peers m addr = Some s" "rSendQueue s = q" by (auto simp: holds_queue_def)
  then have "live (chans m) q queueSize" using peers_live(1) by metis
  from rm_ok_send [OF m(1) this, of p] show ?thesis by (auto simp: WriteTo_send_def)
qed

theorem WriteTo_gap_safe_witness:
  "\<exists>c1 q m c2. WriteTo_queue (NewQueuePacketConn 0) (9 :: nat) 100 = Return (c1, Inr q) \<and>
     rm_run (remotes c1) [ExpireOp 149 50] = Return m \<and>
     WriteTo_send (c1\<lparr>remotes := m\<rparr>) q [1, 2] = Return (c2, Inr 2)"
proof -
  let ?c = "NewQueuePacketConn (0 :: nat)"
  have ok: "rm_ok (remotes ?c)" by (simp add: NewQueuePacketConn_def NewRemoteMap_ok)
  obtain m1 r where l: "Lookup (remotes ?c) 9 100 = Return (m1, r)" "rm_ok m1" by (rule Lookup_ok [OF ok])
  then have w: "WriteTo_queue ?c 9 100 = Return (?c\<lparr>remotes := m1\<rparr>, Inr (rSendQueue r))"
    by (simp add: WriteTo_queue_def SendQueue_def) (simp add: NewQueuePacketConn_def)
  obtain m where m: "rm_run m1 [ExpireOp 149 50] = Return m" using rm_run_ok [OF l(2)] by blast
  from WriteTo_gap_safe [OF NewQueuePacketConn_ok w, of "[ExpireOp 149 50]" m "[1, 2]"] w m show ?thesis
    by (auto simp: timeSub_def)
qed

text \<open>
  C29: Without that condition it does. If, after a \<open>WriteTo\<close> has looked its queue up at \<open>t0\<close>, an expiry runs \<open>timeout\<close> or more after
  \<open>t0\<close> with no other lookup of the address before it, then the \<open>WriteTo\<close>, resumed at any time later, sends on a closed channel, which panics:
  for every address, packet and connection, and whatever else is done to the map of peers before and after the expiry.
\<close>

theorem WriteTo_gap_panics:
  assumes "conn_ok c" and "WriteTo_queue c addr t0 = Return (c1, Inr q)"
    and "\<forall>op\<in>set ops. \<not> refreshes addr op" and "timeSub t t0 \<ge> timeout"
  shows "\<exists>m. rm_run (remotes c1) (ops @ ExpireOp t timeout # ops') = Return m \<and>
    WriteTo_send (c1\<lparr>remotes := m\<rparr>) q p = Panic ''send on closed channel''"
proof -
  from assms(1) have ok: "rm_ok (remotes c1)" and "queue_aging (remotes c1) addr q t0"
    by (cases rule: WriteTo_queue_cases [where a = addr and t = t0], use assms(2) in \<open>auto simp: queue_aging_def\<close>)+
  moreover obtain m1 where m1: "rm_run (remotes c1) ops = Return m1" "rm_ok m1" using rm_run_ok [OF ok] by blast
  ultimately have "queue_aging m1 addr q t0" using rm_run_aging [OF ok _ assms(3)] by blast
  moreover obtain m2 where m2: "removeExpired m1 t timeout = Return m2" "rm_ok m2" using removeExpired_ok [OF m1(2)] by blast
  ultimately have "queue_closed m2 q" using expire_aging(2) [OF m1(2)] assms(4) by blast
  moreover obtain m where m: "rm_run m2 ops' = Return m" using rm_run_ok [OF m2(2)] by blast
  ultimately have "queue_closed m q" using rm_run_closed [OF m2(2)] by blast
  with m1 m2 m show ?thesis by (auto simp: rm_run_append WriteTo_send_def try_send_def queue_closed_def)
qed

theorem WriteTo_gap_panics_witness:
  "\<exists>c1 q m. WriteTo_queue (NewQueuePacketConn 0) (9 :: nat) 100 = Return (c1, Inr q) \<and>
     rm_run (remotes c1) ([StashOp 8 [5] 120] @ ExpireOp 150 50 # [SendQueueOp 9 151]) = Return m \<and>
     WriteTo_send (c1\<lparr>remotes := m\<rparr>) q [1, 2] = Panic ''send on closed channel''"
proof -
  let ?c = "NewQueuePacketConn (0 :: nat)"
  have ok: "rm_ok (remotes ?c)" "\<not> closed ?c" by (simp_all add: NewQueuePacketConn_def NewRemoteMap_ok)
  obtain m1 r where "Lookup (remotes ?c) 9 100 = Return (m1, r)" by (rule Lookup_ok [OF ok(1)])
  then have w: "WriteTo_queue ?c 9 100 = Return (?c\<lparr>remotes := m1\<rparr>, Inr (rSendQueue r))"
    using ok(2) by (simp add: WriteTo_queue_def SendQueue_def)
  from WriteTo_gap_panics [OF NewQueuePacketConn_ok w, of "[StashOp 8 [5] 120]" 50 150 "[SendQueueOp 9 151]" "[1, 2]"] w show ?thesis
    by (auto simp: timeSub_def)
qed

end
