(* ===== verification/Packet_Select.thy ===== *)
theory Packet_Select
  imports Queue_Packet_Conn
begin

text \<open>
  What the HTTP handler of the server and the poll loop of the client have in common: they take the
  packets for one peer out of a \<^verbatim>\<open>QueuePacketConn\<close>, the stashed packet first, by nested
  \<^verbatim>\<open>select\<close> statements.

  Other goroutines use the same connection meanwhile. A schedule gives, for every point of the code at
  which others may run, the calls they make there, for every reading of the clock its value, and for
  every \<^verbatim>\<open>select\<close> with several ready cases the one it takes.
\<close>

section \<open>Schedules\<close>

record 'a sched =
  others :: "nat \<Rightarrow> 'a conn_op list"
  clock :: "nat \<Rightarrow> int"
  pick :: "nat \<Rightarrow> bool"

definition interfere :: "'a sched \<Rightarrow> nat \<Rightarrow> 'a queuePacketConn \<Rightarrow> 'a queuePacketConn run" where
  "interfere sch k c = run_bind (conn_run c (others sch k)) (\<lambda>(c', _). Return c')"

definition quiet :: "'a sched \<Rightarrow> bool" where
  "quiet sch \<longleftrightarrow> others sch = (\<lambda>_. [])"

section \<open>Receiving\<close>

text \<open>A reference outside the store would be a nil channel, on which a receive blocks.\<close>

definition conn_recv :: "'a queuePacketConn \<Rightarrow> nat \<Rightarrow> 'a queuePacketConn \<times> bytes received" where
  "conn_recv c q =
     (if q < length (chans (remotes c))
      then (let (cs, x) = try_recv (chans (remotes c)) q in (c\<lparr>remotes := (remotes c)\<lparr>chans := cs\<rparr>\<rparr>, x))
      else (c, WouldBlock))"

text \<open>A receive case of a \<^verbatim>\<open>select\<close>: \<open>None\<close> if it is not ready; a closed channel gives a nil packet.\<close>

definition recv_case :: "'a queuePacketConn \<Rightarrow> nat \<Rightarrow> ('a queuePacketConn \<times> bytes) option" where
  "recv_case c q =
     (case conn_recv c q of
        (c', Got p) \<Rightarrow> Some (c', p)
      | (c', GotClosed) \<Rightarrow> Some (c', [])
      | (c', WouldBlock) \<Rightarrow> None)"

text \<open>Two receive cases, of which \<open>b\<close> says which one is taken if both are ready.\<close>

definition recv_either :: "bool \<Rightarrow> 'a queuePacketConn \<Rightarrow> nat \<Rightarrow> nat \<Rightarrow> ('a queuePacketConn \<times> bytes) option" where
  "recv_either b c q1 q2 =
     (let (x, y) = (if b then (q1, q2) else (q2, q1))
      in case recv_case c x of Some r \<Rightarrow> Some r | None \<Rightarrow> recv_case c y)"

section \<open>The packets that wait for a peer\<close>

definition stashed :: "'a queuePacketConn \<Rightarrow> 'a \<Rightarrow> bytes list" where
  "stashed c a = (case peers (remotes c) a of None \<Rightarrow> [] | Some r \<Rightarrow> ch_buf (chans (remotes c) ! rStash r))"

lemma QueueIncoming_waiting [simp]:
  "stashed (QueueIncoming c p x) = stashed c" "outgoing (QueueIncoming c p x) = outgoing c"
proof -
  have "remotes (QueueIncoming c p x) = remotes c" by (simp add: QueueIncoming_def)
  then show "stashed (QueueIncoming c p x) = stashed c" "outgoing (QueueIncoming c p x) = outgoing c"
    unfolding stashed_def [abs_def] outgoing_def [abs_def] by (simp_all only:)
qed

lemma stash_refs_distinct:
  assumes "rm_ok m" and "peers m a = Some r" and "peers m b = Some s"
  shows "a \<noteq> b \<Longrightarrow> rStash r \<noteq> rStash s" and "rSendQueue r \<noteq> rStash s"
proof -
  have i: "inner_ok (inner m)" using assms(1) by (simp add: rm_ok_def heap_ok_def)
  have rs: "r \<in> set (byAge (inner m))" "s \<in> set (byAge (inner m))" "Addr r = a" "Addr s = b"
    using assms(2,3) by (simp_all add: peers_iff [OF i])
  have refs: "refs_ok (set (byAge (inner m))) (chans m)" using assms(1) by (simp add: rm_ok_def)
  show "rStash r \<noteq> rStash s" if "a \<noteq> b" using refs rs that by (auto simp: refs_ok_def inj_on_def)
  show "rSendQueue r \<noteq> rStash s" using refs rs by (auto simp: refs_ok_def)
qed

lemma stashed_update:
  assumes "rm_ok m" and "peers m a = Some r"
  shows "stashed (c\<lparr>remotes := m\<lparr>chans := (chans m)[rSendQueue r := x]\<rparr>\<rparr>) = stashed (c\<lparr>remotes := m\<rparr>)"
    and "stashed (c\<lparr>remotes := m\<lparr>chans := (chans m)[rStash r := (chans m ! rStash r)\<lparr>ch_buf := b\<rparr>]\<rparr>\<rparr>)
      = (stashed (c\<lparr>remotes := m\<rparr>))(a := b)"
    and "outgoing (c\<lparr>remotes := m\<lparr>chans := (chans m)[rStash r := x]\<rparr>\<rparr>) = outgoing (c\<lparr>remotes := m\<rparr>)"
proof -
  have lt: "rStash r < length (chans m)" using peers_live(2) [OF assms] by (simp add: live_def)
  show "stashed (c\<lparr>remotes := m\<lparr>chans := (chans m)[rSendQueue r := x]\<rparr>\<rparr>) = stashed (c\<lparr>remotes := m\<rparr>)"
    using stash_refs_distinct(2) [OF assms] by (auto simp: stashed_def fun_eq_iff split: option.splits)
  show "outgoing (c\<lparr>remotes := m\<lparr>chans := (chans m)[rStash r := x]\<rparr>\<rparr>) = outgoing (c\<lparr>remotes := m\<rparr>)"
    by (auto simp: outgoing_def fun_eq_iff stash_refs_distinct(2) [OF assms(1) _ assms(2), THEN not_sym] split: option.splits)
  show "stashed (c\<lparr>remotes := m\<lparr>chans := (chans m)[rStash r := (chans m ! rStash r)\<lparr>ch_buf := b\<rparr>]\<rparr>\<rparr>)
      = (stashed (c\<lparr>remotes := m\<rparr>))(a := b)"
  proof
    fix y
    show "stashed (c\<lparr>remotes := m\<lparr>chans := (chans m)[rStash r := (chans m ! rStash r)\<lparr>ch_buf := b\<rparr>]\<rparr>\<rparr>) y
      = ((stashed (c\<lparr>remotes := m\<rparr>))(a := b)) y"
      using assms lt stash_refs_distinct(1) [OF assms]
      by (cases "y = a") (auto simp: stashed_def split: option.splits)
  qed
qed

lemma Lookup_stashed:
  assumes "rm_ok (remotes c)" and "Lookup (remotes c) addr now = Return (m, r)"
  shows "stashed (c\<lparr>remotes := m\<rparr>) = stashed c"
proof (cases "peers (remotes c) addr")
  case None
  obtain m' where m': "Lookup (remotes c) addr now = Return (m', \<lparr>Addr = addr, LastSeen = now,
      rSendQueue = length (chans (remotes c)), rStash = Suc (length (chans (remotes c)))\<rparr>)"
    "peers m' = (peers (remotes c))(addr \<mapsto> \<lparr>Addr = addr, LastSeen = now,
      rSendQueue = length (chans (remotes c)), rStash = Suc (length (chans (remotes c)))\<rparr>)"
    "chans m' = chans (remotes c) @ [empty_chan queueSize, empty_chan 1]"
    by (rule Lookup_new [OF assms(1) None])
  have "m = m'" using assms(2) m'(1) by simp
  moreover have "chans m' ! rStash s = chans (remotes c) ! rStash s" if "peers (remotes c) a = Some s" for a s
    using peers_live(2) [OF assms(1) that] by (simp add: m'(3) live_def nth_append)
  ultimately show ?thesis
    using None m'(2,3) by (auto simp: stashed_def fun_eq_iff nth_append split: option.splits)
next
  case (Some r0)
  obtain m' where m': "Lookup (remotes c) addr now = Return (m', r0\<lparr>LastSeen := now\<rparr>)"
    "peers m' = (peers (remotes c))(addr \<mapsto> r0\<lparr>LastSeen := now\<rparr>)" "chans m' = chans (remotes c)"
    by (rule Lookup_known [OF assms(1) Some])
  then show ?thesis using Some assms(2) by (auto simp: stashed_def fun_eq_iff split: option.splits)
qed

text \<open>A connection that only differs in the times at which peers were last seen.\<close>

definition same_packets :: "'a queuePacketConn \<Rightarrow> 'a queuePacketConn \<Rightarrow> bool" where
  "same_packets c c' \<longleftrightarrow> outgoing c' = outgoing c \<and> stashed c' = stashed c \<and>
     recvQueue c' = recvQueue c \<and> closed c' = closed c \<and> err c' = err c"

lemma same_packets_refl [simp]: "same_packets c c"
  by (simp add: same_packets_def)

lemma same_packets_trans: "same_packets c c' \<Longrightarrow> same_packets c' c'' \<Longrightarrow> same_packets c c''"
  by (simp add: same_packets_def)

text \<open>The references a peer has at a connection.\<close>

definition refs_of :: "'a queuePacketConn \<Rightarrow> 'a \<Rightarrow> nat \<Rightarrow> nat \<Rightarrow> bool" where
  "refs_of c a us out \<longleftrightarrow> (\<exists>r. peers (remotes c) a = Some r \<and> rStash r = us \<and> rSendQueue r = out)"

lemma Lookup_same:
  assumes "conn_ok c"
  obtains m r where "Lookup (remotes c) addr now = Return (m, r)" "conn_ok (c\<lparr>remotes := m\<rparr>)"
    "same_packets c (c\<lparr>remotes := m\<rparr>)" "peers m = (peers (remotes c))(addr \<mapsto> r)"
proof -
  have ok: "rm_ok (remotes c)" using assms by (simp add: conn_ok_def)
  obtain m r where l: "Lookup (remotes c) addr now = Return (m, r)" "rm_ok m" "peers m = (peers (remotes c))(addr \<mapsto> r)"
    by (rule Lookup_ok [OF ok])
  then show ?thesis
    using assms Lookup_outgoing [OF ok l(1)] Lookup_stashed [OF ok l(1)]
    by (intro that) (simp_all add: conn_ok_def same_packets_def)
qed

text \<open>\<open>Unstash\<close> followed by \<open>OutgoingQueue\<close>, with nothing in between, gives the two references.\<close>

lemma both_queues:
  assumes "conn_ok c"
  obtains c1 c2 us out where "ConnUnstash c addr t1 = Return (c1, us)" "OutgoingQueue c1 addr t2 = Return (c2, out)"
    "conn_ok c2" "same_packets c c2" "refs_of c2 addr us out"
proof -
  obtain m r where l: "Lookup (remotes c) addr t1 = Return (m, r)" "conn_ok (c\<lparr>remotes := m\<rparr>)"
    "same_packets c (c\<lparr>remotes := m\<rparr>)" "peers m = (peers (remotes c))(addr \<mapsto> r)"
    by (rule Lookup_same [OF assms])
  let ?c1 = "c\<lparr>remotes := m\<rparr>"
  have ok: "rm_ok m" using l(2) by (simp add: conn_ok_def)
  have k: "peers m addr = Some r" using l(4) by simp
  obtain m' where m': "Lookup m addr t2 = Return (m', r\<lparr>LastSeen := t2\<rparr>)" "rm_ok m'"
    "peers m' = (peers m)(addr \<mapsto> r\<lparr>LastSeen := t2\<rparr>)" by (rule Lookup_known [OF ok k])
  have s: "same_packets ?c1 (c\<lparr>remotes := m'\<rparr>)"
    using Lookup_outgoing [of ?c1 addr t2 m' "r\<lparr>LastSeen := t2\<rparr>"] Lookup_stashed [of ?c1 addr t2 m' "r\<lparr>LastSeen := t2\<rparr>"]
      ok m'(1) by (simp add: same_packets_def)
  show ?thesis
  proof (rule that)
    show "ConnUnstash c addr t1 = Return (?c1, rStash r)" using l(1) by (simp add: ConnUnstash_def Unstash_def)
    show "OutgoingQueue ?c1 addr t2 = Return (c\<lparr>remotes := m'\<rparr>, rSendQueue r)"
      using m'(1) by (simp add: OutgoingQueue_def SendQueue_def)
    show "conn_ok (c\<lparr>remotes := m'\<rparr>)" using l(2) m'(2) by (simp add: conn_ok_def)
    show "same_packets c (c\<lparr>remotes := m'\<rparr>)" using same_packets_trans [OF l(3) s] .
    show "refs_of (c\<lparr>remotes := m'\<rparr>) addr (rStash r) (rSendQueue r)" using m'(3) by (simp add: refs_of_def)
  qed
qed

section \<open>Receiving from one's queues\<close>

lemma stashed_one: "conn_ok c \<Longrightarrow> length (stashed c a) \<le> 1"
  using peers_live(2) [of "remotes c" a] by (auto simp: stashed_def conn_ok_def live_def split: option.splits)

lemma recv_case_stash:
  assumes "conn_ok c" and "refs_of c a us out"
  shows "recv_case c us =
    (case stashed c a of [] \<Rightarrow> None
     | p # ps \<Rightarrow> Some (c\<lparr>remotes := (remotes c)\<lparr>chans := (chans (remotes c))[us := (chans (remotes c) ! us)\<lparr>ch_buf := ps\<rparr>]\<rparr>\<rparr>, p))"
proof -
  obtain r where r: "peers (remotes c) a = Some r" "rStash r = us" using assms(2) by (auto simp: refs_of_def)
  have "live (chans (remotes c)) us 1" using peers_live(2) [OF _ r(1)] assms(1) r(2) by (simp add: conn_ok_def)
  then show ?thesis
    using r by (auto simp: recv_case_def conn_recv_def try_recv_def stashed_def live_def split: list.splits)
qed

lemma recv_case_queue:
  assumes "conn_ok c" and "refs_of c a us out"
  shows "recv_case c out =
    (case outgoing c a of [] \<Rightarrow> None
     | p # ps \<Rightarrow> Some (c\<lparr>remotes := (remotes c)\<lparr>chans := (chans (remotes c))[out := (chans (remotes c) ! out)\<lparr>ch_buf := ps\<rparr>]\<rparr>\<rparr>, p))"
proof -
  obtain r where r: "peers (remotes c) a = Some r" "rSendQueue r = out" using assms(2) by (auto simp: refs_of_def)
  have "live (chans (remotes c)) out queueSize" using peers_live(1) [OF _ r(1)] assms(1) r(2) by (simp add: conn_ok_def)
  then show ?thesis
    using r by (auto simp: recv_case_def conn_recv_def try_recv_def outgoing_def live_def split: list.splits)
qed

lemma conn_recv_ok: "conn_ok c \<Longrightarrow> conn_recv c q = (c', x) \<Longrightarrow> conn_ok c' \<and> recvQueue c' = recvQueue c \<and> closed c' = closed c"
  using rm_ok_recv [of "remotes c" q] by (auto simp: conn_recv_def conn_ok_def split: prod.splits if_splits)

lemma recv_case_ok: "conn_ok c \<Longrightarrow> recv_case c q = Some (c', p) \<Longrightarrow> conn_ok c' \<and> recvQueue c' = recvQueue c \<and> closed c' = closed c"
  by (auto simp: recv_case_def dest: conn_recv_ok split: prod.splits received.splits)

lemma recv_either_ok: "conn_ok c \<Longrightarrow> recv_either b c q1 q2 = Some (c', p) \<Longrightarrow> conn_ok c' \<and> recvQueue c' = recvQueue c \<and> closed c' = closed c"
  by (auto simp: recv_either_def Let_def dest: recv_case_ok split: option.splits if_splits)

text \<open>Taking the stashed packet, and taking the first queued packet, as changes of what waits.\<close>

lemma take_stashed:
  assumes "conn_ok c" and "refs_of c a us out" and "stashed c a = p # ps"
  obtains c' where "recv_case c us = Some (c', p)" "conn_ok c'" "stashed c' = (stashed c)(a := ps)"
    "outgoing c' = outgoing c" "recvQueue c' = recvQueue c" "closed c' = closed c" "refs_of c' a us out"
proof -
  obtain r where r: "peers (remotes c) a = Some r" "rStash r = us" using assms(2) by (auto simp: refs_of_def)
  have ok: "rm_ok (remotes c)" using assms(1) by (simp add: conn_ok_def)
  let ?c' = "c\<lparr>remotes := (remotes c)\<lparr>chans := (chans (remotes c))[us := (chans (remotes c) ! us)\<lparr>ch_buf := ps\<rparr>]\<rparr>\<rparr>"
  have t: "recv_case c us = Some (?c', p)" using recv_case_stash [OF assms(1,2)] assms(3) by simp
  show ?thesis
    using t recv_case_ok [OF assms(1) t] stashed_update(2,3) [OF ok r(1), where c = c] r(2) assms(2)
    by (intro that [of ?c']) (auto simp: refs_of_def)
qed

lemma take_queued:
  assumes "conn_ok c" and "refs_of c a us out" and "outgoing c a = p # ps"
  obtains c' where "recv_case c out = Some (c', p)" "conn_ok c'" "outgoing c' = (outgoing c)(a := ps)"
    "stashed c' = stashed c" "recvQueue c' = recvQueue c" "closed c' = closed c" "refs_of c' a us out"
proof -
  obtain r where r: "peers (remotes c) a = Some r" "rSendQueue r = out" using assms(2) by (auto simp: refs_of_def)
  have ok: "rm_ok (remotes c)" using assms(1) by (simp add: conn_ok_def)
  let ?c' = "c\<lparr>remotes := (remotes c)\<lparr>chans := (chans (remotes c))[out := (chans (remotes c) ! out)\<lparr>ch_buf := ps\<rparr>]\<rparr>\<rparr>"
  have t: "recv_case c out = Some (?c', p)" using recv_case_queue [OF assms(1,2)] assms(3) by simp
  show ?thesis
    using t recv_case_ok [OF assms(1) t] stashed_update(1) [OF ok r(1), where c = c]
      outgoing_update [OF ok r(1), where c = c and b = ps] r(2) assms(2)
    by (intro that [of ?c']) (auto simp: refs_of_def)
qed

text \<open>Stashing with an empty stash puts the packet first in line.\<close>

lemma ConnStash_empty:
  assumes "conn_ok c" and "stashed c a = []"
  obtains c' where "ConnStash c p a now = Return (c', True)" "conn_ok c'" "stashed c' = (stashed c)(a := [p])"
    "outgoing c' = outgoing c" "recvQueue c' = recvQueue c" "closed c' = closed c"
proof -
  obtain m r where l: "Lookup (remotes c) a now = Return (m, r)" "conn_ok (c\<lparr>remotes := m\<rparr>)"
    "same_packets c (c\<lparr>remotes := m\<rparr>)" "peers m = (peers (remotes c))(a \<mapsto> r)"
    by (rule Lookup_same [OF assms(1)])
  have ok: "rm_ok m" and k: "peers m a = Some r" using l(2,4) by (simp_all add: conn_ok_def)
  have "stashed (c\<lparr>remotes := m\<rparr>) a = []" using l(3) assms(2) by (simp add: same_packets_def)
  then have e: "ch_buf (chans m ! rStash r) = []" using k by (simp add: stashed_def)
  have v: "live (chans m) (rStash r) 1" using peers_live(2) [OF ok k] .
  let ?cs = "(chans m)[rStash r := (chans m ! rStash r)\<lparr>ch_buf := [p]\<rparr>]"
  have s: "try_send (chans m) (rStash r) p = Return (?cs, True)" using v e by (simp add: try_send_def live_def)
  have "rm_ok (m\<lparr>chans := ?cs\<rparr>)" using rm_ok_send [OF ok v, of p] s by auto
  then show ?thesis
    using l s stashed_update(2,3) [OF ok k, where c = c]
    by (intro that [of "c\<lparr>remotes := m\<lparr>chans := ?cs\<rparr>\<rparr>"])
      (simp_all add: ConnStash_def Stash_def conn_ok_def same_packets_def)
qed

text \<open>Whatever the stash holds, stashing does not panic.\<close>

lemma ConnStash_ok:
  assumes "conn_ok c"
  obtains c' b where "ConnStash c p a now = Return (c', b)" "conn_ok c'"
proof -
  have "rm_ok (remotes c)" using assms by (simp add: conn_ok_def)
  from rm_step_ok [OF this, of "StashOp a p now"] obtain m b where
    "Stash (remotes c) a p now = Return (m, b)" "rm_ok m" by (auto simp: run_bind_Return)
  then show ?thesis using assms by (intro that [of "c\<lparr>remotes := m\<rparr>" b]) (simp_all add: ConnStash_def conn_ok_def)
qed

section \<open>Interference\<close>

lemma interfere_ok:
  assumes "conn_ok c"
  obtains c' where "interfere sch k c = Return c'" "conn_ok c'"
  using conn_run_ok [OF assms, of "others sch k"] by (auto simp: interfere_def)

lemma interfere_quiet [simp]: "quiet sch \<Longrightarrow> interfere sch k c = Return c"
  by (simp add: interfere_def quiet_def)

lemma ConnUnstash_ok:
  assumes "conn_ok c"
  obtains c' us where "ConnUnstash c a t = Return (c', us)" "conn_ok c'"
  by (rule Lookup_same [OF assms, of a t]) (rule that, simp_all add: ConnUnstash_def Unstash_def)

lemma OutgoingQueue_ok:
  assumes "conn_ok c"
  obtains c' out where "OutgoingQueue c a t = Return (c', out)" "conn_ok c'"
  by (rule Lookup_same [OF assms, of a t]) (rule that, simp_all add: OutgoingQueue_def SendQueue_def)

section \<open>What is not changed\<close>

lemma remotes_only_closed:
  "OutgoingQueue c a t = Return (c', q) \<Longrightarrow> closed c' = closed c"
  "ConnStash c p a t = Return (c', b) \<Longrightarrow> closed c' = closed c"
  "ConnUnstash c a t = Return (c', q) \<Longrightarrow> closed c' = closed c"
  "conn_recv c n = (c', x) \<Longrightarrow> closed c' = closed c"
  by (auto simp: OutgoingQueue_def ConnStash_def ConnUnstash_def conn_recv_def run_bind_Return Let_def split: if_splits prod.splits)

lemma recv_closed:
  "recv_case c n = Some (c', x) \<Longrightarrow> closed c' = closed c"
  "recv_either b c n m = Some (c', x) \<Longrightarrow> closed c' = closed c"
  by (auto simp: recv_case_def recv_either_def split: prod.splits received.splits option.splits if_splits dest: remotes_only_closed)

lemma QueueIncoming_closed [simp]: "closed (QueueIncoming c p a) = closed c"
  by (simp add: QueueIncoming_def)

end
