(* ===== verification/Base64.thy ===== *)
theory Base64
  imports Champa_Prelude
begin

text \<open>
  What the program uses of Go's \<^verbatim>\<open>encoding/base64\<close>: the streaming encoder of
  \<^verbatim>\<open>base64.NewEncoder\<close> and the streaming decoder of \<^verbatim>\<open>base64.NewDecoder\<close> with the standard
  alphabet and padding, for the armor; and \<open>EncodeToString\<close> and \<open>DecodeString\<close> without padding in
  the URL alphabet, for request paths.

  The locale \<open>stream_sink\<close> is what the streaming encoder needs of the writer below it; it asks
  for no truthful byte counts, because the encoder ignores them.
\<close>

section \<open>Alphabets\<close>

definition alphabet :: "bool \<Rightarrow> bytes" where
  "alphabet url = str ''ABCDEFGHIJKLMNOPQRSTUVWXYZabcdefghijklmnopqrstuvwxyz0123456789'' @
     (if url then str ''-_'' else str ''+/'')"

text \<open>The character of a value below 64, and the value of a character.\<close>

definition b64char :: "bool \<Rightarrow> nat \<Rightarrow> byte" where
  "b64char url n =
     (if n < 26 then of_nat (n + 65) else if n < 52 then of_nat (n + 71) else if n < 62 then of_nat (n - 4)
      else if n = 62 then (if url then 45 else 43) else (if url then 95 else 47))"

definition b64val :: "bool \<Rightarrow> byte \<Rightarrow> nat option" where
  "b64val url c =
     (let n = unat c in
      if 65 \<le> n \<and> n \<le> 90 then Some (n - 65)
      else if 97 \<le> n \<and> n \<le> 122 then Some (n - 71)
      else if 48 \<le> n \<and> n \<le> 57 then Some (n + 4)
      else if n = (if url then 45 else 43) then Some 62
      else if n = (if url then 95 else 47) then Some 63
      else None)"

lemma alphabet_b64char: "map (b64char url) [0..<64] = alphabet url"
  by (cases url) (simp_all add: b64char_def alphabet_def str_def upt_rec)

definition padChar :: byte where
  "padChar = 61"

section \<open>Whole strings\<close>

fun b64encode :: "bool \<Rightarrow> bytes \<Rightarrow> bytes" where
  "b64encode url (a # b # c # s) =
     b64char url (unat a div 4) # b64char url (unat a mod 4 * 16 + unat b div 16) #
     b64char url (unat b mod 16 * 4 + unat c div 64) # b64char url (unat c mod 64) # b64encode url s"
| "b64encode url [a, b] =
     b64char url (unat a div 4) # b64char url (unat a mod 4 * 16 + unat b div 16) #
     b64char url (unat b mod 16 * 4) # (if url then [] else [padChar])"
| "b64encode url [a] =
     b64char url (unat a div 4) # b64char url (unat a mod 4 * 16) # (if url then [] else [padChar, padChar])"
| "b64encode url [] = []"

text \<open>Three bytes of four values, two of three, one of two; excess low bits are ignored.\<close>

definition quantum :: "nat \<Rightarrow> nat \<Rightarrow> nat \<Rightarrow> nat \<Rightarrow> bytes" where
  "quantum w x y z = [of_nat (w * 4 + x div 16), of_nat (x mod 16 * 16 + y div 4), of_nat (y mod 4 * 64 + z)]"

text \<open>
  The streaming decoder on characters without line breaks: what it delivers, and how it ends when the
  stream under it ends with \<open>e\<close>. (The offset in a \<open>CorruptInputError\<close> is relative to an internal
  buffer and is left at 0.)
\<close>

fun b64stream :: "goerror \<Rightarrow> bytes \<Rightarrow> bytes \<times> goerror" where
  "b64stream e (a # b # c # d # s) =
     (case (b64val False a, b64val False b, b64val False c, b64val False d) of
        (Some w, Some x, Some y, Some z) \<Rightarrow> (let (out, e') = b64stream e s in (quantum w x y z @ out, e'))
      | (Some w, Some x, Some y, None) \<Rightarrow>
          if d = padChar then (take 2 (quantum w x y 0), if s = [] then e else CorruptInputError 0)
          else ([], CorruptInputError 0)
      | (Some w, Some x, None, None) \<Rightarrow>
          if c = padChar \<and> d = padChar then (take 1 (quantum w x 0 0), if s = [] then e else CorruptInputError 0)
          else ([], CorruptInputError 0)
      | _ \<Rightarrow> ([], CorruptInputError 0))"
| "b64stream e [] = ([], e)"
| "b64stream e s = ([], if e = EOF then ErrUnexpectedEOF else e)"

text \<open>\<^verbatim>\<open>RawURLEncoding.DecodeString\<close>: line breaks are skipped, no padding is accepted.\<close>

fun b64raw :: "bytes \<Rightarrow> bytes \<times> goerror option" where
  "b64raw (a # b # c # d # s) =
     (case (b64val True a, b64val True b, b64val True c, b64val True d) of
        (Some w, Some x, Some y, Some z) \<Rightarrow> (let (out, err) = b64raw s in (quantum w x y z @ out, err))
      | _ \<Rightarrow> ([], Some (CorruptInputError 0)))"
| "b64raw [a, b, c] =
     (case (b64val True a, b64val True b, b64val True c) of
        (Some w, Some x, Some y) \<Rightarrow> (take 2 (quantum w x y 0), None)
      | _ \<Rightarrow> ([], Some (CorruptInputError 0)))"
| "b64raw [a, b] =
     (case (b64val True a, b64val True b) of
        (Some w, Some x) \<Rightarrow> (take 1 (quantum w x 0 0), None)
      | _ \<Rightarrow> ([], Some (CorruptInputError 0)))"
| "b64raw [a] = ([], Some (CorruptInputError 0))"
| "b64raw [] = ([], None)"

definition isNewline :: "byte \<Rightarrow> bool" where
  "isNewline b \<longleftrightarrow> b = 10 \<or> b = 13"

definition RawURL_EncodeToString :: "bytes \<Rightarrow> bytes" where
  "RawURL_EncodeToString s = b64encode True s"

definition RawURL_DecodeString :: "bytes \<Rightarrow> bytes \<times> goerror option" where
  "RawURL_DecodeString s = b64raw (filter (\<lambda>b. \<not> isNewline b) s)"

definition Std_NewDecoder :: "reader \<Rightarrow> reader" where
  "Std_NewDecoder r =
     (let (out, e) = b64stream (rerr r) (filter (\<lambda>b. \<not> isNewline b) (rdata r))
      in \<lparr>rdata = out, rerr = e\<rparr>)"

section \<open>The streaming encoder\<close>

record 'w b64enc =
  b64w :: 'w
  b64buf :: bytes
  b64err :: "goerror option"

text \<open>The interior loop: groups of at most 768 bytes, a multiple of three.\<close>

function b64interior :: "'w io_write \<Rightarrow> 'w \<Rightarrow> bytes \<Rightarrow> 'w \<times> bytes \<times> goerror option" where
  "b64interior wr w p =
     (if length p < 3 then (w, p, None)
      else
        (let nn = (if 768 > length p then length p - length p mod 3 else 768)
         in case wr w (b64encode False (take nn p)) of
              (w', _, Some e) \<Rightarrow> (w', p, Some e)
            | (w', _, None) \<Rightarrow> b64interior wr w' (drop nn p)))"
  by pat_completeness auto
termination
proof (relation "measure (\<lambda>(_, _, p). length p)", goal_cases)
  case (2 wr w p nn)
  have "length p mod 3 < 3" by simp
  with 2 show ?case by (auto simp: Let_def)
qed simp

declare b64interior.simps [simp del]

definition b64Write :: "'w io_write \<Rightarrow> 'w b64enc \<Rightarrow> bytes \<Rightarrow> 'w b64enc \<times> goerror option" where
  "b64Write wr enc p =
     (if b64err enc \<noteq> None then (enc, b64err enc)
      else
        (let i = (if b64buf enc = [] then 0 else min (3 - length (b64buf enc)) (length p));
             buf = b64buf enc @ take i p
         in if buf \<noteq> [] \<and> length buf < 3 then (enc\<lparr>b64buf := buf\<rparr>, None)
            else
              (let (w1, _, e1) = (if buf = [] then (b64w enc, 0, None) else wr (b64w enc) (b64encode False buf))
               in if e1 \<noteq> None then (enc\<lparr>b64w := w1, b64buf := buf, b64err := e1\<rparr>, e1)
                  else
                    (let (w2, rest, e2) = b64interior wr w1 (drop i p)
                     in if e2 \<noteq> None then (enc\<lparr>b64w := w2, b64buf := [], b64err := e2\<rparr>, e2)
                        else (enc\<lparr>b64w := w2, b64buf := rest\<rparr>, None)))))"

definition b64Close :: "'w io_write \<Rightarrow> 'w b64enc \<Rightarrow> 'w b64enc \<times> goerror option" where
  "b64Close wr enc =
     (if b64err enc = None \<and> b64buf enc \<noteq> []
      then (let (w, _, e) = wr (b64w enc) (b64encode False (b64buf enc))
            in (enc\<lparr>b64w := w, b64buf := [], b64err := e\<rparr>, e))
      else (enc, b64err enc))"

section \<open>Round trips\<close>

lemma b64val_char [simp]: "n < 64 \<Longrightarrow> b64val url (b64char url n) = Some n"
proof -
  assume "n < 64"
  have u: "unat (of_nat k :: byte) = k" if "k < 256" for k
    using that by (simp add: unsigned_of_nat take_bit_eq_mod)
  from \<open>n < 64\<close> show ?thesis
    by (cases url) (auto simp: b64val_def b64char_def Let_def u simp del: of_nat_add of_nat_diff)
qed

lemma b64char_not_pad: "b64char url n \<noteq> padChar"
proof -
  have "unat (b64char url n) \<noteq> 61"
    by (auto simp: b64char_def unsigned_of_nat take_bit_eq_mod simp del: of_nat_add of_nat_diff)
  then show ?thesis by (auto simp: padChar_def)
qed

lemma b64val_pad [simp]: "b64val url padChar = None"
  by (cases url) (simp_all add: b64val_def padChar_def)

lemma of_nat_unat_byte: "unat (x :: byte) = n \<Longrightarrow> of_nat n = x"
  by (metis of_nat_unat ucast_id)

lemma sextets:
  fixes a b c :: byte
  shows "unat a div 4 < 64" "unat a mod 4 * 16 + unat b div 16 < 64" "unat b mod 16 * 4 + unat c div 64 < 64"
    "unat a mod 4 * 16 < 64" "unat b mod 16 * 4 < 64" "unat c mod 64 < 64"
proof -
  have "unat a < 256" "unat b < 256" "unat c < 256" by simp_all
  then have "unat a div 4 < 64" "unat b div 16 < 16" "unat c div 64 < 4" by (simp_all add: div_less_iff_less_mult)
  moreover have "unat a mod 4 \<le> 3" "unat b mod 16 \<le> 15" using mod_less_divisor [of 4 "unat a"] mod_less_divisor [of 16 "unat b"] by linarith+
  ultimately show "unat a div 4 < 64" "unat a mod 4 * 16 + unat b div 16 < 64" "unat b mod 16 * 4 + unat c div 64 < 64"
    "unat a mod 4 * 16 < 64" "unat b mod 16 * 4 < 64" "unat c mod 64 < 64" by simp_all
qed

lemma quantum_encode:
  fixes a b c :: byte
  shows "quantum (unat a div 4) (unat a mod 4 * 16 + unat b div 16) (unat b mod 16 * 4 + unat c div 64) (unat c mod 64)
      = [a, b, c]"
    and "take 2 (quantum (unat a div 4) (unat a mod 4 * 16 + unat b div 16) (unat b mod 16 * 4) 0) = [a, b]"
    and "take 1 (quantum (unat a div 4) (unat a mod 4 * 16) 0 0) = [a]"
proof -
  have "unat b div 16 < 16" "unat c div 64 < 4" using unat_byte_less [of b] unat_byte_less [of c] by (simp_all add: div_less_iff_less_mult)
  then have "(unat a mod 4 * 16 + unat b div 16) div 16 = unat a mod 4" "(unat a mod 4 * 16 + unat b div 16) mod 16 = unat b div 16"
    "(unat b mod 16 * 4 + unat c div 64) div 4 = unat b mod 16" "(unat b mod 16 * 4 + unat c div 64) mod 4 = unat c div 64"
    by simp_all
  then show "quantum (unat a div 4) (unat a mod 4 * 16 + unat b div 16) (unat b mod 16 * 4 + unat c div 64) (unat c mod 64)
      = [a, b, c]"
    "take 2 (quantum (unat a div 4) (unat a mod 4 * 16 + unat b div 16) (unat b mod 16 * 4) 0) = [a, b]"
    "take 1 (quantum (unat a div 4) (unat a mod 4 * 16) 0 0) = [a]"
    by (simp_all add: quantum_def of_nat_unat_byte div_mult_mod_eq del: of_nat_add of_nat_mult)
qed

lemma b64stream_encode [simp]: "b64stream e (b64encode False s) = (s, e)"
  by (induction False s rule: b64encode.induct)
    (simp_all add: sextets quantum_encode b64char_not_pad b64val_pad del: One_nat_def)

lemma b64raw_encode [simp]: "b64raw (b64encode True s) = (s, None)"
  by (induction True s rule: b64encode.induct) (simp_all add: sextets quantum_encode del: One_nat_def)

lemma b64encode_append:
  "length s mod 3 = 0 \<Longrightarrow> b64encode url (s @ t) = b64encode url s @ b64encode url t"
proof (induction url s rule: b64encode.induct)
  case (1 url a b c s)
  have "Suc (Suc (Suc n)) mod 3 = n mod 3" for n :: nat by presburger
  with 1 show ?case by simp
qed simp_all

text \<open>The characters that can occur in encoded text.\<close>

definition b64safe :: "byte \<Rightarrow> bool" where
  "b64safe c \<longleftrightarrow> b64val False c \<noteq> None \<or> c = padChar"

definition urlsafe :: "byte \<Rightarrow> bool" where
  "urlsafe c \<longleftrightarrow> b64val True c \<noteq> None"

lemma b64encode_safe: "c \<in> set (b64encode False s) \<Longrightarrow> b64safe c"
  by (induction False s rule: b64encode.induct) (auto simp: b64safe_def sextets)

lemma b64encode_urlsafe: "c \<in> set (b64encode True s) \<Longrightarrow> urlsafe c"
  by (induction True s rule: b64encode.induct) (auto simp: urlsafe_def sextets)

lemma safe_not_newline: "b64safe c \<Longrightarrow> \<not> isNewline c" "urlsafe c \<Longrightarrow> \<not> isNewline c"
  by (auto simp: b64safe_def urlsafe_def isNewline_def b64val_def padChar_def)

lemma filter_safe: "(\<And>c. c \<in> set s \<Longrightarrow> \<not> P c) \<Longrightarrow> filter (\<lambda>c. \<not> P c) s = s"
  by (simp add: filter_id_conv)

lemma RawURL_roundtrip [simp]: "RawURL_DecodeString (RawURL_EncodeToString s) = (s, None)"
  unfolding RawURL_DecodeString_def RawURL_EncodeToString_def
  by (subst filter_safe) (auto dest: b64encode_urlsafe safe_not_newline)

lemma Std_NewDecoder_encode [simp]:
  "Std_NewDecoder \<lparr>rdata = b64encode False s, rerr = e\<rparr> = \<lparr>rdata = s, rerr = e\<rparr>"
  unfolding Std_NewDecoder_def
  by (subst filter_safe) (auto dest: b64encode_safe safe_not_newline)

section \<open>What the encoder writes\<close>

lemma mod3_append: "length a mod 3 = 0 \<Longrightarrow> length b mod 3 = 0 \<Longrightarrow> length (a @ b) mod 3 = 0"
  by (simp add: mod_eq_0_iff_dvd)

lemma b64Write_eq:
  assumes "b64err enc = None"
    and "i = (if b64buf enc = [] then 0 else min (3 - length (b64buf enc)) (length p))"
    and "buf = b64buf enc @ take i p" and "\<not> (buf \<noteq> [] \<and> length buf < 3)"
    and "(if buf = [] then (b64w enc, 0, None) else wr (b64w enc) (b64encode False buf)) = (w1, k, e1)"
    and "b64interior wr w1 (drop i p) = (w2, rest, e2)"
  shows "b64Write wr enc p =
    (if e1 \<noteq> None then (enc\<lparr>b64w := w1, b64buf := buf, b64err := e1\<rparr>, e1)
     else if e2 \<noteq> None then (enc\<lparr>b64w := w2, b64buf := [], b64err := e2\<rparr>, e2)
     else (enc\<lparr>b64w := w2, b64buf := rest\<rparr>, None))"
  unfolding b64Write_def Let_def assms(2) [symmetric] assms(3) [symmetric] assms(5) using assms(1,4,6)
  by (simp only: if_False prod.case not_True_eq_False simp_thms split: if_splits)

text \<open>
  A sink with a stream it has taken so far, for bytes that satisfy \<open>fine\<close>.
\<close>

locale stream_sink =
  fixes wr :: "'w io_write"
    and holds :: "'w \<Rightarrow> bytes \<Rightarrow> bool"
    and fine :: "byte \<Rightarrow> bool"
  assumes write_holds: "holds w s \<Longrightarrow> (\<forall>c\<in>set p. fine c) \<Longrightarrow> wr w p = (w', n, None) \<Longrightarrow> holds w' (s @ p)"

locale b64_sink = stream_sink wr holds b64safe for wr :: "'w io_write" and holds
begin

definition b64holds :: "'w b64enc \<Rightarrow> bytes \<Rightarrow> bytes \<Rightarrow> bool" where
  "b64holds enc s d \<longleftrightarrow> b64err enc = None \<and> length (b64buf enc) < 3 \<and>
     (\<exists>d0. d = d0 @ b64buf enc \<and> length d0 mod 3 = 0 \<and> holds (b64w enc) (s @ b64encode False d0))"

lemma write_b64:
  assumes "holds w (s @ b64encode False d)" and "length d mod 3 = 0" and "wr w (b64encode False p) = (w', n, None)"
  shows "holds w' (s @ b64encode False (d @ p))"
  using write_holds [OF assms(1) _ assms(3)] b64encode_safe assms(2) by (auto simp: b64encode_append)

lemma interior_holds:
  "holds w (s @ b64encode False d) \<Longrightarrow> length d mod 3 = 0 \<Longrightarrow> b64interior wr w p = (w', rest, None) \<Longrightarrow>
   \<exists>q. p = q @ rest \<and> length q mod 3 = 0 \<and> length rest < 3 \<and> holds w' (s @ b64encode False (d @ q))"
proof (induction "length p" arbitrary: w d p rule: less_induct)
  case less
  show ?case
  proof (cases "length p < 3")
    case True
    with less.prems show ?thesis by (auto simp: b64interior.simps [of wr w p])
  next
    case False
    define nn where "nn = (if 768 > length p then length p - length p mod 3 else 768)"
    have nn: "nn mod 3 = 0" "0 < nn" "nn \<le> length p"
    proof -
      show "nn mod 3 = 0"
        by (auto simp: nn_def)
      have "length p mod 3 < 3" by simp
      then show "0 < nn" "nn \<le> length p" using False by (auto simp: nn_def)
    qed
    obtain w1 k e where w1: "wr w (b64encode False (take nn p)) = (w1, k, e)" by (cases "wr w (b64encode False (take nn p))") auto
    with less.prems(3) False have e: "e = None" and r: "b64interior wr w1 (drop nn p) = (w', rest, None)"
      by (auto simp: b64interior.simps [of wr w p] nn_def [symmetric] Let_def split: option.splits)
    have m: "length (take nn p) mod 3 = 0" using nn by (simp add: min_def)
    have h: "holds w1 (s @ b64encode False (d @ take nn p))"
      using write_b64 [OF less.prems(1,2)] w1 e by blast
    have "length (drop nn p) < length p" using nn by simp
    from less.hyps [OF this h mod3_append [OF less.prems(2) m] r] obtain q where "drop nn p = q @ rest" "length q mod 3 = 0" "length rest < 3"
      "holds w' (s @ b64encode False ((d @ take nn p) @ q))"
      by (elim exE conjE) (rule that)
    with m show ?thesis
      by (intro exI [of _ "take nn p @ q"]) (metis append.assoc append_take_drop_id mod3_append)
  qed
qed

lemma b64Write_holds:
  assumes "b64holds enc s d" and "b64Write wr enc p = (enc', None)"
  shows "b64holds enc' s (d @ p)"
proof -
  from assms(1) obtain d0 where err: "b64err enc = None" and len: "length (b64buf enc) < 3"
    and d: "d = d0 @ b64buf enc" "length d0 mod 3 = 0" "holds (b64w enc) (s @ b64encode False d0)"
    by (auto simp: b64holds_def)
  define i where "i = (if b64buf enc = [] then 0 else min (3 - length (b64buf enc)) (length p))"
  define buf where "buf = b64buf enc @ take i p"
  show ?thesis
  proof (cases "buf \<noteq> [] \<and> length buf < 3")
    case True
    then have "enc' = enc\<lparr>b64buf := buf\<rparr>" "take i p = p"
      using assms(2) err len by (auto simp: b64Write_def i_def [symmetric] buf_def [symmetric] Let_def)
        (auto simp: buf_def i_def split: if_splits)
    then show ?thesis using True err d by (auto simp: b64holds_def buf_def)
  next
    case False
    then have buf: "length buf mod 3 = 0" using len by (auto simp: buf_def i_def min_def split: if_splits)
    obtain w1 k e1 where w1: "(if buf = [] then (b64w enc, 0, None) else wr (b64w enc) (b64encode False buf)) = (w1, k, e1)"
      by (metis prod_cases3)
    obtain w2 rest e2 where w2: "b64interior wr w1 (drop i p) = (w2, rest, e2)" by (metis prod_cases3)
    have e: "e1 = None" "e2 = None" "enc' = enc\<lparr>b64w := w2, b64buf := rest\<rparr>"
      using assms(2) b64Write_eq [OF err i_def buf_def False w1 w2] by (auto split: if_splits)
    have "holds w1 (s @ b64encode False (d0 @ buf))"
      using write_b64 [OF d(3,2)] d(3) w1 e(1) by (auto split: if_splits)
    from interior_holds [OF this mod3_append [OF d(2) buf] w2 [unfolded e(2)]] obtain q where
      q: "drop i p = q @ rest" "length q mod 3 = 0" "length rest < 3" "holds w2 (s @ b64encode False ((d0 @ buf) @ q))"
      by (elim exE conjE) (rule that)
    have "d @ p = d @ take i p @ q @ rest" by (metis q(1) append_take_drop_id)
    also have "\<dots> = ((d0 @ buf) @ q) @ rest" by (simp add: d(1) buf_def)
    finally have "d @ p = ((d0 @ buf) @ q) @ rest" .
    with q mod3_append [OF mod3_append [OF d(2) buf] q(2)] e err show ?thesis
      unfolding b64holds_def by auto
  qed
qed

lemma b64Close_holds:
  assumes "b64holds enc s d" and "b64Close wr enc = (enc', None)"
  shows "holds (b64w enc') (s @ b64encode False d)"
  using assms write_b64
  by (auto simp: b64holds_def b64Close_def split: if_splits prod.splits)

end

locale b64_reliable_sink = b64_sink +
  assumes write_succeeds: "holds w s \<Longrightarrow> (\<forall>c\<in>set p. b64safe c) \<Longrightarrow> snd (snd (wr w p)) = None"
begin

lemma write_b64_succeeds: "holds w s \<Longrightarrow> \<exists>w' n. wr w (b64encode False p) = (w', n, None)"
  using write_succeeds [of w s "b64encode False p"] b64encode_safe
  by (cases "wr w (b64encode False p)") auto

lemma interior_succeeds:
  "holds w (s @ b64encode False d) \<Longrightarrow> length d mod 3 = 0 \<Longrightarrow> \<exists>w' rest. b64interior wr w p = (w', rest, None)"
proof (induction "length p" arbitrary: w d p rule: less_induct)
  case less
  show ?case
  proof (cases "length p < 3")
    case True
    then show ?thesis by (simp add: b64interior.simps [of wr w p])
  next
    case False
    define nn where "nn = (if 768 > length p then length p - length p mod 3 else 768)"
    have nn: "length (take nn p) mod 3 = 0" "0 < nn"
    proof -
      have "length p mod 3 < 3" by simp
      then show "0 < nn" using False by (auto simp: nn_def)
      have "nn mod 3 = 0" "nn \<le> length p" by (auto simp: nn_def)
      then show "length (take nn p) mod 3 = 0" by (simp add: min_def)
    qed
    obtain w1 k where w1: "wr w (b64encode False (take nn p)) = (w1, k, None)"
      using write_b64_succeeds [OF less.prems(1)] by blast
    have "length (drop nn p) < length p" using nn False by (cases p) auto
    from less.hyps [OF this write_b64 [OF less.prems w1] mod3_append [OF less.prems(2) nn(1)]]
    show ?thesis using False w1 by (simp add: b64interior.simps [of wr w p] nn_def [symmetric] Let_def)
  qed
qed

lemma b64Write_succeeds:
  assumes "b64holds enc s d"
  shows "\<exists>enc'. b64Write wr enc p = (enc', None) \<and> b64holds enc' s (d @ p)"
proof -
  from assms obtain d0 where err: "b64err enc = None" and len: "length (b64buf enc) < 3"
    and d: "d = d0 @ b64buf enc" "length d0 mod 3 = 0" "holds (b64w enc) (s @ b64encode False d0)"
    by (auto simp: b64holds_def)
  define i where "i = (if b64buf enc = [] then 0 else min (3 - length (b64buf enc)) (length p))"
  define buf where "buf = b64buf enc @ take i p"
  have "\<exists>enc'. b64Write wr enc p = (enc', None)"
  proof (cases "buf \<noteq> [] \<and> length buf < 3")
    case True
    then show ?thesis
      unfolding b64Write_def Let_def i_def [symmetric] buf_def [symmetric] by (simp add: err)
  next
    case False
    then have buf: "length buf mod 3 = 0" using len by (auto simp: buf_def i_def min_def split: if_splits)
    obtain w1 k where w1: "(if buf = [] then (b64w enc, 0, None) else wr (b64w enc) (b64encode False buf)) = (w1, k, None)"
      using write_b64_succeeds [OF d(3), of buf] by (cases "buf = []") auto
    have "holds w1 (s @ b64encode False (d0 @ buf))"
      using write_b64 [OF d(3,2)] d(3) w1 by (auto split: if_splits)
    then obtain w2 rest where "b64interior wr w1 (drop i p) = (w2, rest, None)"
      using interior_succeeds [OF _ mod3_append [OF d(2) buf]] by blast
    from b64Write_eq [OF err i_def buf_def False w1 this] show ?thesis by simp
  qed
  then show ?thesis using b64Write_holds [OF assms] by blast
qed

lemma b64Close_succeeds:
  assumes "b64holds enc s d"
  shows "\<exists>enc'. b64Close wr enc = (enc', None) \<and> holds (b64w enc') (s @ b64encode False d)"
proof -
  from assms obtain d0 where "b64err enc = None" "holds (b64w enc) (s @ b64encode False d0)"
    by (auto simp: b64holds_def)
  with write_b64_succeeds [of "b64w enc" "s @ b64encode False d0" "b64buf enc"]
  have "\<exists>enc'. b64Close wr enc = (enc', None)" by (auto simp: b64Close_def)
  then show ?thesis using b64Close_holds [OF assms] by blast
qed

end

end
