(* ===== verification/Armor.thy ===== *)
theory Armor
  imports Base64
begin

text \<open>
  The AMP armor of \<^verbatim>\<open>armor/encoder.go\<close> and \<^verbatim>\<open>armor/decoder.go\<close>. The encoder is the chain base64
  encoder, element encoder, writer; the decoder finds the text of the pre elements, splits it at
  whitespace, joins the pieces, takes off the version byte and decodes base64.

  The HTML tokenizer (\<^verbatim>\<open>golang.org/x/net/html\<close>) is not part of the repository. It is a function
  from the input and the limit set with \<open>SetMaxBuf\<close> to the tokens it produces and the error it ends
  with; \<open>tokenizer_ok\<close> says what the round trip needs of it. The pipe between the decoding
  goroutine and its reader hands over what was written and then the error the goroutine closed it
  with, so a decoder is a reader with the goroutine's output as its data.
\<close>

section \<open>The encoder\<close>

definition boilerplateStart :: bytes where
  \<open>boilerplateStart =
     str ''<!doctype html>'' @ [10] @
     str ''<html amp>'' @ [10] @
     str ''<head>'' @ [10] @
     str ''<meta charset="utf-8">'' @ [10] @
     str ''<script async src="https://cdn.ampproject.org/v0.js"></script>'' @ [10] @
     str ''<link rel="canonical" href="#">'' @ [10] @
     str ''<meta name="viewport" content="width=device-width">'' @ [10] @
     str ''<style amp-boilerplate>body{-webkit-animation:-amp-start 8s steps(1,end) 0s 1 normal both;-moz-animation:-amp-start 8s steps(1,end) 0s 1 normal both;-ms-animation:-amp-start 8s steps(1,end) 0s 1 normal both;animation:-amp-start 8s steps(1,end) 0s 1 normal both}@-webkit-keyframes -amp-start{from{visibility:hidden}to{visibility:visible}}@-moz-keyframes -amp-start{from{visibility:hidden}to{visibility:visible}}@-ms-keyframes -amp-start{from{visibility:hidden}to{visibility:visible}}@-o-keyframes -amp-start{from{visibility:hidden}to{visibility:visible}}@keyframes -amp-start{from{visibility:hidden}to{visibility:visible}}</style><noscript><style amp-boilerplate>body{-webkit-animation:none;-moz-animation:none;-ms-animation:none;animation:none}</style></noscript>'' @ [10] @
     str ''</head>'' @ [10] @
     str ''<body>'' @ [10]\<close>

definition boilerplateEnd :: bytes where
  \<open>boilerplateEnd =
     str ''</body>'' @ [10] @
     str ''</html>''\<close>

definition elementSizeLimit :: nat where
  "elementSizeLimit = 32 * 1024"

definition bytesPerChunk :: nat where
  "bytesPerChunk = 32"

definition chunksPerElement :: nat where
  "chunksPerElement = (elementSizeLimit - 1) div (bytesPerChunk + 1)"

record 'w elementEncoder =
  ew :: 'w
  chunkCounter :: nat
  elementCounter :: nat

text \<open>One iteration of the loop of \<open>elementEncoder.Write\<close>: the rest of \<open>p\<close>, the total and the error.\<close>

definition element_round ::
  "'w io_write \<Rightarrow> 'w elementEncoder \<Rightarrow> bytes \<Rightarrow> nat \<Rightarrow> 'w elementEncoder \<times> bytes \<times> nat \<times> goerror option" where
  "element_round wr enc p tot =
     (let (w1, _, e1) = (if elementCounter enc = 0 \<and> chunkCounter enc = 0
                         then wr (ew enc) (str ''<pre>'' @ [10]) else (ew enc, 0, None))
      in if e1 \<noteq> None then (enc\<lparr>ew := w1\<rparr>, p, tot, e1)
         else
           (let n = (let n = bytesPerChunk - chunkCounter enc in if n > length p then length p else n);
                (w2, nn2, e2) = wr w1 (take n p)
            in if e2 \<noteq> None then (enc\<lparr>ew := w2\<rparr>, p, tot, e2)
               else
                 (let tot2 = tot + nn2;
                      p2 = drop n p;
                      enc2 = enc\<lparr>ew := w2, chunkCounter := chunkCounter enc + n\<rparr>;
                      (enc3, nn3, e3) =
                        (if chunkCounter enc2 \<ge> bytesPerChunk
                         then (let (w3, nn, e) = wr (ew enc2) [10]
                               in (enc2\<lparr>ew := w3, chunkCounter := 0, elementCounter := elementCounter enc2 + 1\<rparr>, nn, e))
                         else (enc2, 0, None))
                  in if e3 \<noteq> None then (enc3, p2, tot2, e3)
                     else
                       (let tot3 = tot2 + nn3;
                            (enc4, nn4, e4) =
                              (if elementCounter enc3 \<ge> chunksPerElement
                               then (let (w4, nn, e) = wr (ew enc3) (str ''</pre>'' @ [10])
                                     in (enc3\<lparr>ew := w4, elementCounter := 0\<rparr>, nn, e))
                               else (enc3, 0, None))
                        in if e4 \<noteq> None then (enc4, p2, tot3, e4)
                           else (enc4, p2, tot3 + nn4, None)))))"

lemma element_round_progress:
  assumes "element_round wr enc p tot = (enc', p', tot', None)" and "p \<noteq> []"
  shows "2 * length p' + (if chunkCounter enc' \<ge> bytesPerChunk then 1 else 0)
       < 2 * length p + (if chunkCounter enc \<ge> bytesPerChunk then 1 else (0 :: nat))"
  using assms
  by (auto simp: element_round_def Let_def bytesPerChunk_def split: if_splits prod.splits)

function element_loop :: "'w io_write \<Rightarrow> 'w elementEncoder \<Rightarrow> bytes \<Rightarrow> nat \<Rightarrow> 'w elementEncoder \<times> nat \<times> goerror option" where
  "element_loop wr enc p tot =
     (if p = [] then (enc, tot, None)
      else
        (case element_round wr enc p tot of
           (enc', _, tot', Some e) \<Rightarrow> (enc', tot', Some e)
         | (enc', p', tot', None) \<Rightarrow> element_loop wr enc' p' tot'))"
  by pat_completeness auto
termination
  by (relation "measure (\<lambda>(_, enc, p, _). 2 * length p + (if chunkCounter enc \<ge> bytesPerChunk then 1 else 0))")
    (auto dest!: element_round_progress [OF sym] split: if_splits)

declare element_loop.simps [simp del]

definition element_Write :: "'w io_write \<Rightarrow> 'w elementEncoder io_write" where
  "element_Write wr enc p = element_loop wr enc p 0"

definition element_Close :: "'w io_write \<Rightarrow> 'w elementEncoder \<Rightarrow> 'w elementEncoder \<times> goerror option" where
  "element_Close wr enc =
     (if \<not> (elementCounter enc = 0 \<and> chunkCounter enc = 0)
      then
        (let (w, _, err) = wr (ew enc) (if chunkCounter enc = 0 then str ''</pre>'' @ [10] else [10] @ str ''</pre>'' @ [10])
         in (enc\<lparr>ew := w\<rparr>, err))
      else (enc, None))"

text \<open>
  \<open>armorEncoder\<close>: the base64 encoder, over the element encoder, over the writer; \<open>enc.w\<close> and the
  element encoder's writer are the same object.
\<close>

type_synonym 'w armorEncoder = "'w elementEncoder b64enc"

definition NewEncoder :: "'w io_write \<Rightarrow> 'w \<Rightarrow> 'w \<times> (goerror + 'w armorEncoder)" where
  "NewEncoder wr w =
     (let (w1, _, err) = wr w boilerplateStart
      in case err of
           Some e \<Rightarrow> (w1, Inl e)
         | None \<Rightarrow>
             (let (element, _, err) = element_Write wr \<lparr>ew = w1, chunkCounter = 0, elementCounter = 0\<rparr> [48]
              in case err of
                   Some e \<Rightarrow> (ew element, Inl e)
                 | None \<Rightarrow> (ew element, Inr \<lparr>b64w = element, b64buf = [], b64err = None\<rparr>)))"

definition armor_Write :: "'w io_write \<Rightarrow> 'w armorEncoder \<Rightarrow> bytes \<Rightarrow> 'w armorEncoder \<times> goerror option" where
  "armor_Write wr enc p = b64Write (element_Write wr) enc p"

definition armor_Close :: "'w io_write \<Rightarrow> 'w armorEncoder \<Rightarrow> 'w \<times> goerror option" where
  "armor_Close wr enc =
     (let (enc1, err) = b64Close (element_Write wr) enc
      in if err \<noteq> None then (ew (b64w enc1), err)
         else
           (let (element, err) = element_Close wr (b64w enc1)
            in if err \<noteq> None then (ew element, err)
               else (let (w, _, err) = wr (ew element) boilerplateEnd in (w, err))))"

section \<open>The decoder\<close>

definition isASCIIWhitespace :: "byte \<Rightarrow> bool" where
  "isASCIIWhitespace b \<longleftrightarrow> b \<in> {0x09, 0x0a, 0x0c, 0x0d, 0x20}"

definition splitASCIIWhitespace :: "bytes \<Rightarrow> bool \<Rightarrow> nat \<times> bytes option" where
  "splitASCIIWhitespace data atEOF =
     (let i = length (takeWhile isASCIIWhitespace data);
          j = i + length (takeWhile (\<lambda>b. \<not> isASCIIWhitespace b) (drop i data))
      in if j < length data then (j + 1, Some (take (j - i) (drop i data)))
         else if atEOF \<and> i < j then (j, Some (take (j - i) (drop i data)))
         else (i, None))"

datatype html_token =
    TextToken bytes
  | StartTagToken bytes
  | EndTagToken bytes
  | OtherToken

type_synonym tokenizer = "nat \<Rightarrow> reader \<Rightarrow> html_token list \<times> goerror"

lemma splitASCIIWhitespace_advance:
  "splitASCIIWhitespace data atEOF = (n, Some t) \<Longrightarrow> 0 < n \<and> data \<noteq> []"
  by (auto simp: splitASCIIWhitespace_def Let_def split: if_splits)

text \<open>\<^verbatim>\<open>bufio.Scanner\<close> over a text that is completely in memory.\<close>

function scan :: "bytes \<Rightarrow> bytes list" where
  "scan data =
     (case splitASCIIWhitespace data True of
        (n, Some t) \<Rightarrow> t # scan (drop n data)
      | (n, None) \<Rightarrow> [])"
  by pat_completeness auto
termination
  by (relation "measure length") (auto dest!: splitASCIIWhitespace_advance [OF sym])

declare scan.simps [simp del]

fun write_all :: "'w io_write \<Rightarrow> 'w \<Rightarrow> bytes list \<Rightarrow> nat \<Rightarrow> 'w \<times> nat \<times> goerror option" where
  "write_all wr w [] tot = (w, tot, None)"
| "write_all wr w (t # ts) tot =
     (let (w', n, err) = wr w t
      in if err \<noteq> None then (w', tot + n, err) else write_all wr w' ts (tot + n))"

fun decode_loop :: "'w io_write \<Rightarrow> 'w \<Rightarrow> html_token list \<Rightarrow> goerror \<Rightarrow> bool \<Rightarrow> nat \<Rightarrow> 'w \<times> nat \<times> goerror option" where
  "decode_loop wr w [] e active tot =
     (let err = (if e = EOF then None else Some e)
      in if err = None \<and> active then (w, tot, Some (ErrorText ''missing </pre> tag'')) else (w, tot, err))"
| "decode_loop wr w (TextToken text # tokens) e active tot =
     (if active
      then
        (let (w', tot', err) = write_all wr w (scan text) tot
         in if err \<noteq> None then (w', tot', err) else decode_loop wr w' tokens e active tot')
      else decode_loop wr w tokens e active tot)"
| "decode_loop wr w (StartTagToken tn # tokens) e active tot =
     (if tn = str ''pre''
      then (if active then (w, tot, Some (ErrorText ''unexpected <pre>'')) else decode_loop wr w tokens e True tot)
      else decode_loop wr w tokens e active tot)"
| "decode_loop wr w (EndTagToken tn # tokens) e active tot =
     (if tn = str ''pre''
      then (if \<not> active then (w, tot, Some (ErrorText ''unexpected </pre>'')) else decode_loop wr w tokens e False tot)
      else decode_loop wr w tokens e active tot)"
| "decode_loop wr w (OtherToken # tokens) e active tot = decode_loop wr w tokens e active tot"

definition decodeToWriter :: "tokenizer \<Rightarrow> 'w io_write \<Rightarrow> 'w \<Rightarrow> reader \<Rightarrow> 'w \<times> nat \<times> goerror option" where
  "decodeToWriter tok wr w r =
     (let (tokens, e) = tok elementSizeLimit r in decode_loop wr w tokens e False 0)"

definition pipeReader :: "tokenizer \<Rightarrow> reader \<Rightarrow> reader" where
  "pipeReader tok r =
     (let (d, _, err) = decodeToWriter tok buffer_Write [] r
      in \<lparr>rdata = d, rerr = (case err of None \<Rightarrow> EOF | Some e \<Rightarrow> e)\<rparr>)"

definition NewDecoder :: "tokenizer \<Rightarrow> reader \<Rightarrow> goerror + reader" where
  "NewDecoder tok r =
     (case Read1 (pipeReader tok r) of
        (Inl e, _) \<Rightarrow> Inl e
      | (Inr version, pr) \<Rightarrow>
          if version = 48 then Inr (Std_NewDecoder pr) else Inl (ErrUnknownVersion version))"

section \<open>Words of a text\<close>

abbreviation nows :: "bytes \<Rightarrow> bytes" where
  "nows \<equiv> filter (\<lambda>b. \<not> isASCIIWhitespace b)"

text \<open>
  Splitting does not depend on how the text arrives: a token found before the end of the data is the
  token found when more data follows.
\<close>

lemma splitASCIIWhitespace_stable:
  assumes "splitASCIIWhitespace data False = (n, Some t)"
  shows "splitASCIIWhitespace (data @ rest) atEOF = (n, Some t)"
proof -
  define i where "i = length (takeWhile isASCIIWhitespace data)"
  define j where "j = i + length (takeWhile (\<lambda>b. \<not> isASCIIWhitespace b) (drop i data))"
  have split: "drop i data = dropWhile isASCIIWhitespace data" by (simp add: i_def dropWhile_eq_drop)
  from assms have j: "j < length data" "n = j + 1" "t = take (j - i) (drop i data)"
    by (auto simp: splitASCIIWhitespace_def i_def [symmetric] j_def [symmetric] Let_def split: if_splits)
  have i: "i < length data" using j(1) by (simp add: j_def)
  have "takeWhile isASCIIWhitespace (data @ rest) = takeWhile isASCIIWhitespace data"
    using i unfolding i_def by (metis less_irrefl takeWhile_append takeWhile_eq_all_conv)
  then have i': "length (takeWhile isASCIIWhitespace (data @ rest)) = i" by (simp add: i_def)
  have "takeWhile (\<lambda>b. \<not> isASCIIWhitespace b) (drop i data @ rest) = takeWhile (\<lambda>b. \<not> isASCIIWhitespace b) (drop i data)"
  proof -
    have "takeWhile (\<lambda>b. \<not> isASCIIWhitespace b) (drop i data) \<noteq> drop i data"
    proof
      assume "takeWhile (\<lambda>b. \<not> isASCIIWhitespace b) (drop i data) = drop i data"
      then have "j = i + length (drop i data)" by (simp only: j_def)
      then show False using j(1) by simp
    qed
    then show ?thesis by (metis takeWhile_append takeWhile_eq_all_conv)
  qed
  then have "takeWhile (\<lambda>b. \<not> isASCIIWhitespace b) (drop i (data @ rest)) = takeWhile (\<lambda>b. \<not> isASCIIWhitespace b) (drop i data)"
    using i by simp
  then show ?thesis
    using j i by (simp add: splitASCIIWhitespace_def i' j_def [symmetric] Let_def)
qed

lemma nows_takeWhile: "nows (takeWhile isASCIIWhitespace s) = []"
  by (auto simp: filter_empty_conv dest: set_takeWhileD)

lemma split_at_end:
  "splitASCIIWhitespace data True = (n, Some t) \<Longrightarrow> t \<noteq> [] \<and> nows data = t @ nows (drop n data)"
  "splitASCIIWhitespace data True = (n, None) \<Longrightarrow> nows data = []"
proof -
  define i where "i = length (takeWhile isASCIIWhitespace data)"
  define word where "word = takeWhile (\<lambda>b. \<not> isASCIIWhitespace b) (drop i data)"
  define j where "j = i + length word"
  have data: "data = takeWhile isASCIIWhitespace data @ drop i data"
    by (simp add: i_def flip: dropWhile_eq_drop)
  then have nd: "nows data = nows (drop i data)" by (metis append_Nil filter_append nows_takeWhile)
  have dj: "drop j data = dropWhile (\<lambda>b. \<not> isASCIIWhitespace b) (drop i data)"
    by (simp add: word_def j_def add.commute dropWhile_eq_drop)
  then have rest: "drop i data = word @ drop j data"
    by (simp add: word_def)
  have w: "nows word = word" by (auto simp: word_def filter_id_conv dest: set_takeWhileD)
  have tk: "take (j - i) (drop i data) = word"
    by (subst rest) (simp add: j_def)
  have ne: "word \<noteq> []" if "i < length data"
  proof -
    have "dropWhile isASCIIWhitespace data \<noteq> []" using that by (simp add: i_def dropWhile_eq_drop)
    then have "\<not> isASCIIWhitespace (hd (drop i data))" "drop i data \<noteq> []"
      using hd_dropWhile [of isASCIIWhitespace data] by (simp_all add: i_def dropWhile_eq_drop)
    then show ?thesis by (cases "drop i data") (simp_all add: word_def)
  qed
  have ws: "isASCIIWhitespace (data ! j)" if "j < length data"
    using that hd_dropWhile [of "\<lambda>b. \<not> isASCIIWhitespace b" "drop i data"] dj
    by (metis drop_eq_Nil hd_drop_conv_nth linorder_not_le)
  have sp: "splitASCIIWhitespace data True =
      (if j < length data then (j + 1, Some word) else if i < j then (j, Some word) else (i, None))"
    unfolding splitASCIIWhitespace_def Let_def i_def [symmetric] word_def [symmetric] j_def [symmetric] tk by simp
  show "t \<noteq> [] \<and> nows data = t @ nows (drop n data)" if "splitASCIIWhitespace data True = (n, Some t)"
  proof (cases "j < length data")
    case True
    then have t: "n = j + 1" "t = word"
      using that by (simp_all add: sp)
    have "nows (drop j data) = nows (drop (j + 1) data)"
      using True ws by (metis Cons_nth_drop_Suc Suc_eq_plus1 filter.simps(2))
    then have "nows data = word @ nows (drop (j + 1) data)"
      using nd rest w by (metis filter_append)
    moreover have "i < length data" using True by (simp add: j_def)
    ultimately show ?thesis using t ne by simp
  next
    case False
    then have t: "n = j" "t = word" "i < j"
      using that by (simp_all add: sp split: if_splits)
    with nd rest w False show ?thesis by (auto simp: j_def)
  qed
  show "nows data = []" if "splitASCIIWhitespace data True = (n, None)"
  proof -
    have "\<not> i < j" using that by (auto simp: sp split: if_splits)
    then have "\<not> i < length data" using ne by (auto simp: j_def)
    then show ?thesis using nd by simp
  qed
qed

lemma concat_scan: "concat (scan data) = nows data"
proof (induction data rule: scan.induct)
  case (1 data)
  show ?case
  proof (cases "splitASCIIWhitespace data True")
    case (Pair n t)
    show ?thesis
    proof (cases t)
      case None
      with Pair split_at_end(2) show ?thesis by (simp add: scan.simps [of data])
    next
      case (Some w)
      with Pair split_at_end(1) [of data n w] "1.IH" show ?thesis by (simp add: scan.simps [of data])
    qed
  qed
qed

section \<open>The text of the pre elements\<close>

text \<open>What the decoder hands on: the words of the text inside pre elements, joined.\<close>

fun pre_text :: "html_token list \<Rightarrow> bool \<Rightarrow> bytes" where
  "pre_text [] active = []"
| "pre_text (TextToken text # ts) active = (if active then nows text else []) @ pre_text ts active"
| "pre_text (StartTagToken tn # ts) active = pre_text ts (active \<or> tn = str ''pre'')"
| "pre_text (EndTagToken tn # ts) active = pre_text ts (active \<and> tn \<noteq> str ''pre'')"
| "pre_text (OtherToken # ts) active = pre_text ts active"

text \<open>Pre elements are not nested, and each is closed.\<close>

fun pre_balanced :: "html_token list \<Rightarrow> bool \<Rightarrow> bool" where
  "pre_balanced [] active \<longleftrightarrow> \<not> active"
| "pre_balanced (StartTagToken tn # ts) active \<longleftrightarrow>
     (if tn = str ''pre'' then \<not> active \<and> pre_balanced ts True else pre_balanced ts active)"
| "pre_balanced (EndTagToken tn # ts) active \<longleftrightarrow>
     (if tn = str ''pre'' then active \<and> pre_balanced ts False else pre_balanced ts active)"
| "pre_balanced (_ # ts) active \<longleftrightarrow> pre_balanced ts active"

lemma write_all_buffer: "write_all buffer_Write w ts tot = (w @ concat ts, tot + length (concat ts), None)"
  by (induction ts arbitrary: w tot) (auto simp: buffer_Write_def)

lemma decode_loop_buffer:
  "pre_balanced tokens active \<Longrightarrow>
   decode_loop buffer_Write w tokens e active tot =
     (w @ pre_text tokens active, tot + length (pre_text tokens active), if e = EOF then None else Some e)"
  by (induction buffer_Write w tokens e active tot rule: decode_loop.induct)
    (auto simp: write_all_buffer concat_scan split: if_splits)

lemma decode_loop_unbalanced:
  "\<not> pre_balanced tokens active \<Longrightarrow> \<exists>w' tot' x. decode_loop buffer_Write w tokens EOF active tot = (w', tot', Some (ErrorText x))"
  by (induction buffer_Write w tokens EOF active tot rule: decode_loop.induct)
    (auto simp: write_all_buffer split: if_splits)

section \<open>What is assumed of the tokenizer\<close>

definition render :: "bytes \<Rightarrow> bytes" where
  "render t = str ''<pre>'' @ t @ str ''</pre>'' @ [10]"

definition text_ok :: "bytes \<Rightarrow> bool" where
  "text_ok t \<longleftrightarrow> t \<noteq> [] \<and> length t + 16 \<le> elementSizeLimit \<and> (\<forall>c\<in>set t. b64safe c \<or> c = 10)"

definition no_pre :: "html_token list \<Rightarrow> bool" where
  "no_pre ts \<longleftrightarrow> StartTagToken (str ''pre'') \<notin> set ts \<and> EndTagToken (str ''pre'') \<notin> set ts"

text \<open>
  On a page of the encoder's form, with element texts that need no unescaping and fit the buffer with room for what the
  tokenizer reads ahead, the tokenizer finds the pre elements and their texts, and no others in the boilerplate.
\<close>

definition tokenizer_ok :: "tokenizer \<Rightarrow> bool" where
  "tokenizer_ok tok \<longleftrightarrow>
     (\<forall>texts. (\<forall>t\<in>set texts. text_ok t) \<longrightarrow>
        (\<exists>before after. no_pre before \<and> no_pre after \<and>
           tok elementSizeLimit (eof_reader (boilerplateStart @ concat (map render texts) @ boilerplateEnd)) =
             (before @ concat (map (\<lambda>t. [StartTagToken (str ''pre''), TextToken t, EndTagToken (str ''pre''), TextToken [10]]) texts) @ after,
              EOF)))"

lemma no_pre_append:
  "no_pre ts \<Longrightarrow> pre_text (ts @ us) False = pre_text us False \<and> pre_balanced (ts @ us) False = pre_balanced us False"
  by (induction ts "False" rule: pre_text.induct) (auto simp: no_pre_def)

lemma elements_text:
  "pre_text (concat (map (\<lambda>t. [StartTagToken (str ''pre''), TextToken t, EndTagToken (str ''pre''), TextToken [10]]) texts) @ us) False
     = nows (concat texts) @ pre_text us False"
  "pre_balanced (concat (map (\<lambda>t. [StartTagToken (str ''pre''), TextToken t, EndTagToken (str ''pre''), TextToken [10]]) texts) @ us) False
     = pre_balanced us False"
  by (induction texts) auto

lemma no_pre_end: "no_pre ts \<Longrightarrow> pre_text ts False = [] \<and> pre_balanced ts False"
  using no_pre_append [of ts "[]"] by simp

lemma decode_page:
  assumes "tokenizer_ok tok" and "\<forall>t\<in>set texts. text_ok t"
  shows "pipeReader tok (eof_reader (boilerplateStart @ concat (map render texts) @ boilerplateEnd))
    = eof_reader (nows (concat texts))"
proof -
  obtain before after where ba: "no_pre before" "no_pre after"
    "tok elementSizeLimit (eof_reader (boilerplateStart @ concat (map render texts) @ boilerplateEnd)) =
      (before @ concat (map (\<lambda>t. [StartTagToken (str ''pre''), TextToken t, EndTagToken (str ''pre''), TextToken [10]]) texts) @ after, EOF)"
    using assms unfolding tokenizer_ok_def by blast
  then show ?thesis
    using no_pre_append [OF ba(1)] no_pre_end [OF ba(2)]
    by (simp add: pipeReader_def decodeToWriter_def decode_loop_buffer elements_text)
qed

section \<open>What the element encoder writes\<close>

text \<open>
  After the stream \<open>s\<close> the sink holds \<open>hdr\<close>, some complete elements and, unless both counters are
  zero, the beginning of one more; the words of their texts are \<open>s\<close>, and the counters give the
  length of the unfinished text.
\<close>

definition element_holds ::
  "('w \<Rightarrow> bytes) \<Rightarrow> ('w \<Rightarrow> bool) \<Rightarrow> bytes \<Rightarrow> 'w elementEncoder \<Rightarrow> bytes \<Rightarrow> bool" where
  "element_holds content ok hdr enc s \<longleftrightarrow>
     ok (ew enc) \<and> chunkCounter enc < 32 \<and> elementCounter enc < 992 \<and>
     (\<exists>texts cur.
        content (ew enc) = hdr @ concat (map render texts) @ (if cur = [] then [] else str ''<pre>'' @ cur) \<and>
        (\<forall>t\<in>set texts. text_ok t) \<and> (\<forall>c\<in>set cur. b64safe c \<or> c = 10) \<and>
        length cur = (if elementCounter enc = 0 \<and> chunkCounter enc = 0 then 0
                      else 1 + 33 * elementCounter enc + chunkCounter enc) \<and>
        nows (concat texts @ cur) = s)"

lemma limits [simp]: "bytesPerChunk = 32" "elementSizeLimit = 32768" "chunksPerElement = 992"
  by (simp_all add: bytesPerChunk_def elementSizeLimit_def chunksPerElement_def)

lemma safe_not_space: "b64safe c \<Longrightarrow> \<not> isASCIIWhitespace c"
  by (auto simp: b64safe_def isASCIIWhitespace_def b64val_def padChar_def)

lemma nows_safe: "(\<forall>c\<in>set p. b64safe c) \<Longrightarrow> nows p = p"
  by (auto simp: filter_id_conv safe_not_space)

lemma isASCIIWhitespace_newline [simp]: "isASCIIWhitespace 10"
  by (simp add: isASCIIWhitespace_def)

context io_writer
begin

text \<open>An iteration that reports no error, as the sequence of its writes.\<close>

lemma element_round_writes:
  assumes "ok (ew enc)" and "p \<noteq> []" and "chunkCounter enc < 32"
    and "element_round wr enc p tot = (enc', p', tot', None)"
  defines "n \<equiv> min (32 - chunkCounter enc) (length p)"
  shows "ok (ew enc') \<and> p' = drop n p \<and>
    content (ew enc') = content (ew enc) @
      (if elementCounter enc = 0 \<and> chunkCounter enc = 0 then str ''<pre>'' @ [10] else []) @ take n p @
      (if chunkCounter enc + n = 32 then [10] else []) @
      (if (if chunkCounter enc + n = 32 then elementCounter enc + 1 else elementCounter enc) \<ge> 992 then str ''</pre>'' @ [10] else []) \<and>
    chunkCounter enc' = (if chunkCounter enc + n = 32 then 0 else chunkCounter enc + n) \<and>
    elementCounter enc' =
      (let e = (if chunkCounter enc + n = 32 then elementCounter enc + 1 else elementCounter enc) in if e \<ge> 992 then 0 else e)"
proof -
  let ?open = "elementCounter enc = 0 \<and> chunkCounter enc = 0"
  have n: "(let n = bytesPerChunk - chunkCounter enc in if n > length p then length p else n) = n"
    using assms(3) by (simp add: n_def Let_def min_def)
  have full: "chunkCounter enc + n \<ge> 32 \<longleftrightarrow> chunkCounter enc + n = 32" using assms(3) by (auto simp: n_def)
  obtain w1 k1 e1 where w1: "(if ?open then wr (ew enc) (str ''<pre>'' @ [10]) else (ew enc, 0, None)) = (w1, k1, e1)"
    by (metis prod_cases3)
  obtain w2 k2 e2 where w2: "wr w1 (take n p) = (w2, k2, e2)" by (metis prod_cases3)
  obtain w3 k3 e3 where w3: "(if chunkCounter enc + n = 32 then wr w2 [10] else (w2, 0, None)) = (w3, k3, e3)"
    by (metis prod_cases3)
  let ?ec = "if chunkCounter enc + n = 32 then elementCounter enc + 1 else elementCounter enc"
  obtain w4 k4 e4 where w4: "(if ?ec \<ge> 992 then wr w3 (str ''</pre>'' @ [10]) else (w3, 0, None)) = (w4, k4, e4)"
    by (metis prod_cases3)
  have r: "e1 = None" "e2 = None" "e3 = None" "e4 = None" "p' = drop n p" "ew enc' = w4"
    "chunkCounter enc' = (if chunkCounter enc + n = 32 then 0 else chunkCounter enc + n)"
    "elementCounter enc' = (if ?ec \<ge> 992 then 0 else ?ec)"
    using assms(4) w1 w2 w3 w4 full unfolding element_round_def n
    by (auto simp: Let_def split: if_splits prod.splits)
  have c1: "ok w1 \<and> content w1 = content (ew enc) @ (if ?open then str ''<pre>'' @ [10] else [])"
    using w1 r(1) assms(1) write_content [OF assms(1)] write_ok [OF assms(1)] by (auto split: if_splits)
  have c2: "ok w2 \<and> content w2 = content w1 @ take n p"
    using w2 r(2) c1 write_content [of w1] write_ok [of w1] by auto
  have c3: "ok w3 \<and> content w3 = content w2 @ (if chunkCounter enc + n = 32 then [10] else [])"
    using w3 r(3) c2 write_content [of w2] write_ok [of w2] by (auto split: if_splits)
  have c4: "ok w4 \<and> content w4 = content w3 @ (if ?ec \<ge> 992 then str ''</pre>'' @ [10] else [])"
    using w4 r(4) c3 write_content [of w3] write_ok [of w3] by (auto split: if_splits)
  show ?thesis using c1 c2 c3 c4 r(5-8) by (simp add: Let_def)
qed

lemma round_holds:
  assumes "element_holds content ok hdr enc s" and "p \<noteq> []" and "\<forall>c\<in>set p. b64safe c"
    and "element_round wr enc p tot = (enc', p', tot', None)"
  shows "\<exists>q. p = q @ p' \<and> q \<noteq> [] \<and> element_holds content ok hdr enc' (s @ q)"
proof -
  define n where "n = min (32 - chunkCounter enc) (length p)"
  let ?cc = "chunkCounter enc" and ?ec = "elementCounter enc"
  from assms(1) obtain texts cur where h: "ok (ew enc)" "?cc < 32" "?ec < 992"
    "content (ew enc) = hdr @ concat (map render texts) @ (if cur = [] then [] else str ''<pre>'' @ cur)"
    "\<forall>t\<in>set texts. text_ok t" "\<forall>c\<in>set cur. b64safe c \<or> c = 10"
    "length cur = (if ?ec = 0 \<and> ?cc = 0 then 0 else 1 + 33 * ?ec + ?cc)" "nows (concat texts @ cur) = s"
    by (auto simp: element_holds_def)
  note r = element_round_writes [OF h(1) assms(2) h(2) assms(4), folded n_def]
  have n: "0 < n" "n \<le> length p" "?cc + n \<le> 32" using h(2) assms(2) by (auto simp: n_def)
  define cur1 where "cur1 = (if cur = [] then [10] else cur) @ take n p"
  have closed: "cur = [] \<longleftrightarrow> ?ec = 0 \<and> ?cc = 0" using h(7) by (auto split: if_splits)
  have len1: "length cur1 = 1 + 33 * ?ec + ?cc + n" using h(7) n closed by (auto simp: cur1_def)
  have chars1: "\<forall>c\<in>set cur1. b64safe c \<or> c = 10"
    using h(6) assms(3) by (auto simp: cur1_def dest: in_set_takeD)
  have nows1: "nows (concat texts @ cur1) = s @ take n p"
  proof -
    have "nows (take n p) = take n p" using assms(3) by (intro nows_safe) (auto dest: in_set_takeD)
    then show ?thesis using h(8) by (auto simp: cur1_def)
  qed
  have out: "content (ew enc) @ (if ?ec = 0 \<and> ?cc = 0 then str ''<pre>'' @ [10] else []) @ take n p
      = hdr @ concat (map render texts) @ str ''<pre>'' @ cur1"
    using h(4) closed by (auto simp: cur1_def)
  consider (inside) "?cc + n < 32" | (line) "?cc + n = 32" "?ec + 1 < 992" | (full) "?cc + n = 32" "?ec + 1 = 992"
    using n(3) h(3) by linarith
  then have "element_holds content ok hdr enc' (s @ take n p)"
  proof cases
    case inside
    then show ?thesis
      unfolding element_holds_def using r h(3,5) n out len1 chars1 nows1
      by (intro conjI exI [of _ texts] exI [of _ cur1]) (auto simp: Let_def)
  next
    case line
    then show ?thesis
      unfolding element_holds_def using r h(3,5) n out len1 chars1 nows1
      by (intro conjI exI [of _ texts] exI [of _ "cur1 @ [10]"]) (auto simp: Let_def)
  next
    case full
    have "text_ok (cur1 @ [10])" using len1 full chars1 by (auto simp: text_ok_def)
    with full show ?thesis
      unfolding element_holds_def using r h(3,5) n out nows1
      by (intro conjI exI [of _ "texts @ [cur1 @ [10]]"] exI [of _ "[]"]) (auto simp: Let_def render_def)
  qed
  moreover have "p = take n p @ p'" "take n p \<noteq> []" using r n assms(2) by auto
  ultimately show ?thesis by blast
qed

lemma element_loop_holds:
  "element_holds content ok hdr enc s \<Longrightarrow> (\<forall>c\<in>set p. b64safe c) \<Longrightarrow>
   element_loop wr enc p tot = (enc', k, None) \<Longrightarrow> element_holds content ok hdr enc' (s @ p)"
proof (induction "length p" arbitrary: enc s p tot rule: less_induct)
  case less
  show ?case
  proof (cases "p = []")
    case True
    with less.prems show ?thesis by (simp add: element_loop.simps [of wr enc "[]"])
  next
    case False
    obtain enc1 p1 tot1 e where r: "element_round wr enc p tot = (enc1, p1, tot1, e)" by (metis prod_cases4)
    with False less.prems(3) have e: "e = None" and l: "element_loop wr enc1 p1 tot1 = (enc', k, None)"
      by (auto simp: element_loop.simps [of wr enc p] split: option.splits)
    obtain q where q: "p = q @ p1" "q \<noteq> []" "element_holds content ok hdr enc1 (s @ q)"
      using round_holds [OF less.prems(1) False less.prems(2) r [unfolded e]] by blast
    have "element_holds content ok hdr enc' ((s @ q) @ p1)"
      using less.prems(2) q by (intro less.hyps [OF _ q(3) _ l]) auto
    then show ?thesis by (simp add: q(1))
  qed
qed

lemma element_sink: "b64_sink (element_Write wr) (element_holds content ok hdr)"
  by unfold_locales (auto simp: element_Write_def intro: element_loop_holds)

text \<open>Closing the element encoder leaves complete elements only.\<close>

lemma element_Close_page:
  assumes "element_holds content ok hdr enc s" and "element_Close wr enc = (enc', None)"
  shows "ok (ew enc') \<and> (\<exists>texts. content (ew enc') = hdr @ concat (map render texts) \<and>
    (\<forall>t\<in>set texts. text_ok t) \<and> nows (concat texts) = s)"
proof -
  let ?cc = "chunkCounter enc" and ?ec = "elementCounter enc"
  from assms(1) obtain texts cur where h: "ok (ew enc)" "?cc < 32" "?ec < 992"
    "content (ew enc) = hdr @ concat (map render texts) @ (if cur = [] then [] else str ''<pre>'' @ cur)"
    "\<forall>t\<in>set texts. text_ok t" "\<forall>c\<in>set cur. b64safe c \<or> c = 10"
    "length cur = (if ?ec = 0 \<and> ?cc = 0 then 0 else 1 + 33 * ?ec + ?cc)" "nows (concat texts @ cur) = s"
    by (auto simp: element_holds_def)
  have closed: "cur = [] \<longleftrightarrow> ?ec = 0 \<and> ?cc = 0" using h(7) by (auto split: if_splits)
  show ?thesis
  proof (cases "cur = []")
    case True
    with assms(2) closed have "enc' = enc" by (simp add: element_Close_def)
    with True h show ?thesis by auto
  next
    case False
    let ?nl = "if ?cc = 0 then [] else [10 :: byte]"
    obtain w k where w: "wr (ew enc) (?nl @ str ''</pre>'' @ [10]) = (w, k, None)" "ew enc' = w"
      using assms(2) False closed by (auto simp: element_Close_def split: prod.splits if_splits)
    have "text_ok (cur @ ?nl)" using False h(2,3,6,7) by (auto simp: text_ok_def split: if_splits)
    moreover have "content w = hdr @ concat (map render (texts @ [cur @ ?nl]))"
      using write_content [OF h(1) w(1)] h(4) False by (simp add: render_def)
    moreover have "nows (concat (texts @ [cur @ ?nl])) = s" using h(8) by auto
    ultimately show ?thesis using write_ok [OF h(1) w(1)] w(2) h(5)
      by (intro conjI exI [of _ "texts @ [cur @ ?nl]"]) auto
  qed
qed

end

context reliable_writer
begin

lemma element_round_succeeds:
  assumes "ok (ew enc)"
  shows "\<exists>enc' p' tot'. element_round wr enc p tot = (enc', p', tot', None) \<and> ok (ew enc')"
proof -
  let ?open = "elementCounter enc = 0 \<and> chunkCounter enc = 0"
  let ?n = "let n = bytesPerChunk - chunkCounter enc in if n > length p then length p else n"
  obtain w1 k1 where w1: "(if ?open then wr (ew enc) (str ''<pre>'' @ [10]) else (ew enc, 0, None)) = (w1, k1, None)" "ok w1"
    using write_succeeds [OF assms] assms by (cases ?open) force+
  obtain w2 k2 where w2: "wr w1 (take ?n p) = (w2, k2, None)" "ok w2" using write_succeeds [OF w1(2)] by blast
  obtain w3 k3 where w3: "wr w2 [10] = (w3, k3, None)" "ok w3" using write_succeeds [OF w2(2)] by blast
  obtain w4 k4 where w4: "wr w3 (str ''</pre>'' @ [10]) = (w4, k4, None)" "ok w4" using write_succeeds [OF w3(2)] by blast
  obtain w5 k5 where w5: "wr w2 (str ''</pre>'' @ [10]) = (w5, k5, None)" "ok w5" using write_succeeds [OF w2(2)] by blast
  show ?thesis
    unfolding element_round_def w1(1) w2(1) Let_def prod.case
    using w2 w3 w4 w5 by (auto simp: Let_def)
qed

lemma element_loop_succeeds:
  "element_holds content ok hdr enc s \<Longrightarrow> (\<forall>c\<in>set p. b64safe c) \<Longrightarrow> snd (snd (element_loop wr enc p tot)) = None"
proof (induction "length p" arbitrary: enc s p tot rule: less_induct)
  case less
  show ?case
  proof (cases "p = []")
    case True
    then show ?thesis by (simp add: element_loop.simps [of wr enc "[]"])
  next
    case False
    have "ok (ew enc)" using less.prems(1) by (simp add: element_holds_def)
    then obtain enc1 p1 tot1 where r: "element_round wr enc p tot = (enc1, p1, tot1, None)"
      using element_round_succeeds by blast
    obtain q where q: "p = q @ p1" "q \<noteq> []" "element_holds content ok hdr enc1 (s @ q)"
      using round_holds [OF less.prems(1) False less.prems(2) r] by blast
    have "snd (snd (element_loop wr enc1 p1 tot1)) = None"
      using less.prems(2) q by (intro less.hyps [OF _ q(3)]) auto
    then show ?thesis using False r by (simp add: element_loop.simps [of wr enc p])
  qed
qed

lemma element_reliable_sink: "b64_reliable_sink (element_Write wr) (element_holds content ok hdr)"
  by (intro b64_reliable_sink.intro element_sink b64_reliable_sink_axioms.intro)
    (auto simp: element_Write_def element_loop_succeeds)

end

interpretation page: b64_reliable_sink "element_Write buffer_Write" "element_holds (\<lambda>b. b) (\<lambda>_. True) hdr" for hdr
  by (rule buffer.element_reliable_sink)

section \<open>Whole pages\<close>

text \<open>An encoder that is opened, written to and closed, stopping at the first error.\<close>

fun armor_writes :: "'w io_write \<Rightarrow> 'w armorEncoder \<Rightarrow> bytes list \<Rightarrow> 'w armorEncoder \<times> goerror option" where
  "armor_writes wr enc [] = (enc, None)"
| "armor_writes wr enc (p # ps) =
     (case armor_Write wr enc p of
        (enc', Some e) \<Rightarrow> (enc', Some e)
      | (enc', None) \<Rightarrow> armor_writes wr enc' ps)"

definition armor_page :: "'w io_write \<Rightarrow> 'w \<Rightarrow> bytes list \<Rightarrow> 'w \<times> goerror option" where
  "armor_page wr w ps =
     (case NewEncoder wr w of
        (w', Inl e) \<Rightarrow> (w', Some e)
      | (_, Inr enc) \<Rightarrow>
          (case armor_writes wr enc ps of
             (enc', Some e) \<Rightarrow> (ew (b64w enc'), Some e)
           | (enc', None) \<Rightarrow> armor_Close wr enc'))"

lemma version_safe: "b64safe 48"
  by (simp add: b64safe_def b64val_def)

context io_writer
begin

lemma NewEncoder_holds:
  assumes "ok w" and "NewEncoder wr w = (w', Inr enc)"
  shows "b64_sink.b64holds (element_holds content ok (content w @ boilerplateStart)) enc [48] []"
proof -
  let ?hdr = "content w @ boilerplateStart"
  let ?e = "\<lambda>w. \<lparr>ew = w, chunkCounter = 0, elementCounter = 0\<rparr>"
  from assms(2) obtain w1 k1 el k2 where w1: "wr w boilerplateStart = (w1, k1, None)"
    and el: "element_Write wr (?e w1) [48] = (el, k2, None)" and enc: "enc = \<lparr>b64w = el, b64buf = [], b64err = None\<rparr>"
    by (auto simp: NewEncoder_def split: prod.splits option.splits)
  have "element_holds content ok ?hdr (?e w1) []"
    using write_content [OF assms(1) w1] write_ok [OF assms(1) w1] by (auto simp: element_holds_def intro!: exI [of _ "[]"])
  from stream_sink.write_holds [OF b64_sink.axioms [OF element_sink] this _ el] version_safe
  have "element_holds content ok ?hdr el [48]" by simp
  then show ?thesis by (simp add: b64_sink.b64holds_def [OF element_sink] enc)
qed

lemma armor_writes_holds:
  "b64_sink.b64holds (element_holds content ok hdr) enc s d \<Longrightarrow> armor_writes wr enc ps = (enc', None) \<Longrightarrow>
   b64_sink.b64holds (element_holds content ok hdr) enc' s (d @ concat ps)"
proof (induction ps arbitrary: enc d)
  case (Cons p ps)
  obtain enc1 where e: "armor_Write wr enc p = (enc1, None)" "armor_writes wr enc1 ps = (enc', None)"
    using Cons.prems(2) by (auto split: prod.splits option.splits)
  from b64_sink.b64Write_holds [OF element_sink Cons.prems(1)] e(1)
  have "b64_sink.b64holds (element_holds content ok hdr) enc1 s (d @ p)" by (simp add: armor_Write_def)
  from Cons.IH [OF this e(2)] show ?case by simp
qed simp

text \<open>The form of a page that was written without an error, to any writer.\<close>

lemma armor_page_form:
  assumes "ok w" and "armor_page wr w ps = (w', None)"
  shows "\<exists>texts. content w' = content w @ boilerplateStart @ concat (map render texts) @ boilerplateEnd \<and>
    (\<forall>t\<in>set texts. text_ok t) \<and> nows (concat texts) = [48] @ b64encode False (concat ps)"
proof -
  let ?hdr = "content w @ boilerplateStart"
  from assms(2) obtain w1 enc enc1 where a: "NewEncoder wr w = (w1, Inr enc)" "armor_writes wr enc ps = (enc1, None)"
    "armor_Close wr enc1 = (w', None)"
    by (auto simp: armor_page_def split: prod.splits sum.splits option.splits)
  have h: "b64_sink.b64holds (element_holds content ok ?hdr) enc1 [48] (concat ps)"
    using armor_writes_holds [OF NewEncoder_holds [OF assms(1) a(1)] a(2)] by simp
  from a(3) obtain enc2 el k where c: "b64Close (element_Write wr) enc1 = (enc2, None)"
    "element_Close wr (b64w enc2) = (el, None)" "wr (ew el) boilerplateEnd = (w', k, None)"
    by (auto simp: armor_Close_def split: prod.splits if_splits)
  from element_Close_page [OF b64_sink.b64Close_holds [OF element_sink h c(1)] c(2)]
  obtain texts where t: "ok (ew el)" "content (ew el) = ?hdr @ concat (map render texts)"
    "\<forall>t\<in>set texts. text_ok t" "nows (concat texts) = [48] @ b64encode False (concat ps)"
    by blast
  then show ?thesis using write_content [OF t(1) c(3)] by auto
qed

end

text \<open>Into a buffer every page is written without an error.\<close>

lemma armor_writes_buffer:
  "page.b64holds hdr enc s d \<Longrightarrow> \<exists>enc'. armor_writes buffer_Write enc ps = (enc', None)"
proof (induction ps arbitrary: enc d)
  case (Cons p ps)
  obtain enc1 where e: "b64Write (element_Write buffer_Write) enc p = (enc1, None)" "page.b64holds hdr enc1 s (d @ p)"
    using page.b64Write_succeeds [OF Cons.prems] by blast
  from Cons.IH [OF e(2)] e(1) show ?case by (simp add: armor_Write_def)
qed simp

lemma armor_page_buffer: "\<exists>out. armor_page buffer_Write b ps = (out, None)"
proof -
  let ?e = "\<lparr>ew = b @ boilerplateStart, chunkCounter = 0, elementCounter = 0\<rparr>"
  have "element_holds (\<lambda>b. b) (\<lambda>_. True) (b @ boilerplateStart) ?e []"
    by (auto simp: element_holds_def intro!: exI [of _ "[]"])
  then have "snd (snd (element_Write buffer_Write ?e [48])) = None"
    using version_safe by (intro page.write_succeeds) auto
  then obtain el k where "element_Write buffer_Write ?e [48] = (el, k, None)" by (metis prod.collapse)
  then obtain enc w' where n: "NewEncoder buffer_Write b = (w', Inr enc)"
    by (simp add: NewEncoder_def buffer_Write_def)
  note h = buffer.NewEncoder_holds [OF _ n]
  obtain enc1 where a: "armor_writes buffer_Write enc ps = (enc1, None)"
    using armor_writes_buffer [OF h] by blast
  have h1: "page.b64holds (b @ boilerplateStart) enc1 [48] ([] @ concat ps)"
    using buffer.armor_writes_holds [OF h a] by simp
  obtain enc2 where c: "b64Close (element_Write buffer_Write) enc1 = (enc2, None)"
    using page.b64Close_succeeds [OF h1] by blast
  have "\<exists>out. armor_Close buffer_Write enc1 = (out, None)"
    by (simp add: armor_Close_def c element_Close_def buffer_Write_def)
  then show ?thesis using n a by (simp add: armor_page_def)
qed

section \<open>A concrete tokenizer, for the witnesses\<close>

text \<open>Tags from \<^verbatim>\<open><\<close> to \<^verbatim>\<open>>\<close>, text between them.\<close>

definition tag_token :: "bytes \<Rightarrow> html_token" where
  "tag_token x = (if x \<noteq> [] \<and> hd x = 47 then EndTagToken (tl x) else StartTagToken (takeWhile (\<lambda>c. c \<noteq> 32) x))"

function simple_tok :: "bytes \<Rightarrow> html_token list" where
  "simple_tok [] = []"
| "simple_tok (c # s) =
     (if c = 60 then tag_token (takeWhile (\<lambda>c. c \<noteq> 62) s) # simple_tok (drop 1 (dropWhile (\<lambda>c. c \<noteq> 62) s))
      else TextToken (c # takeWhile (\<lambda>c. c \<noteq> 60) s) # simple_tok (dropWhile (\<lambda>c. c \<noteq> 60) s))"
  by pat_completeness auto
termination
  by (relation "measure length") (auto intro!: le_imp_less_Suc le_trans [OF diff_le_self] length_dropWhile_le)

text \<open>It skips the boilerplate at the start of a page.\<close>

definition simple_tokenizer :: tokenizer where
  "simple_tokenizer limit r =
     (let n = length boilerplateStart
      in (if take n (rdata r) = boilerplateStart then simple_tok (drop n (rdata r)) else simple_tok (rdata r), rerr r))"

lemma takeWhile_stop: "takeWhile (\<lambda>c. c \<noteq> x) (s @ x # r) = takeWhile (\<lambda>c. c \<noteq> x) s"
  by (induction s) auto

lemma dropWhile_stop: "x \<notin> set s \<Longrightarrow> dropWhile (\<lambda>c. c \<noteq> x) (s @ x # r) = x # r"
  by (induction s) auto

lemma simple_tok_render:
  assumes "text_ok t"
  shows "simple_tok (render t @ 60 # r) =
    [StartTagToken (str ''pre''), TextToken t, EndTagToken (str ''pre''), TextToken [10]] @ simple_tok (60 # r)"
proof -
  have t60: "60 \<notin> set t" using assms by (auto simp: text_ok_def b64safe_def b64val_def padChar_def)
  obtain c t' where t: "t = c # t'" using assms by (cases t) (auto simp: text_ok_def)
  with t60 have "c \<noteq> 60" "60 \<notin> set t'" by auto
  moreover from this have "takeWhile (\<lambda>c. c \<noteq> 60) t' = t'" by (auto simp: takeWhile_eq_all_conv)
  ultimately show ?thesis
    by (simp add: render_def t str_def tag_token_def takeWhile_stop dropWhile_stop)
qed

lemma simple_tok_elements:
  assumes "\<forall>t\<in>set texts. text_ok t"
  shows "simple_tok (concat (map render texts) @ boilerplateEnd) =
    concat (map (\<lambda>t. [StartTagToken (str ''pre''), TextToken t, EndTagToken (str ''pre''), TextToken [10]]) texts) @ simple_tok boilerplateEnd"
  using assms
proof (induction texts)
  case (Cons t texts)
  obtain r where r: "concat (map render texts) @ boilerplateEnd = 60 # r"
    by (cases texts) (auto simp: render_def boilerplateEnd_def str_def)
  with Cons simple_tok_render [of t r] show ?case by simp
qed simp

lemma simple_tok_end: "no_pre (simple_tok boilerplateEnd)"
  by (simp add: boilerplateEnd_def str_def no_pre_def tag_token_def)

lemma simple_tokenizer_ok: "tokenizer_ok simple_tokenizer"
  unfolding tokenizer_ok_def
proof (intro allI impI)
  fix texts :: "bytes list"
  assume t: "\<forall>t\<in>set texts. text_ok t"
  show "\<exists>before after. no_pre before \<and> no_pre after \<and>
      simple_tokenizer elementSizeLimit (eof_reader (boilerplateStart @ concat (map render texts) @ boilerplateEnd)) =
        (before @ concat (map (\<lambda>t. [StartTagToken (str ''pre''), TextToken t, EndTagToken (str ''pre''), TextToken [10]]) texts) @ after, EOF)"
    using simple_tok_elements [OF t] simple_tok_end
    by (intro exI [of _ "[]"] exI [of _ "simple_tok boilerplateEnd"])
      (simp add: simple_tokenizer_def Let_def no_pre_def)
qed

section \<open>Properties\<close>

lemma armor_page_decodes:
  assumes "tokenizer_ok tok"
  shows "\<exists>page. armor_page buffer_Write [] ps = (page, None) \<and>
    NewDecoder tok (eof_reader page) = Inr (eof_reader (concat ps))"
proof -
  obtain out where o: "armor_page buffer_Write [] ps = (out, None)" using armor_page_buffer by blast
  from buffer.armor_page_form [OF _ o] obtain texts where
    t: "out = boilerplateStart @ concat (map render texts) @ boilerplateEnd" "\<forall>t\<in>set texts. text_ok t"
    "nows (concat texts) = [48] @ b64encode False (concat ps)" by auto
  have "pipeReader tok (eof_reader out) = eof_reader (48 # b64encode False (concat ps))"
    using decode_page [OF assms t(2)] t(1,3) by simp
  then show ?thesis using o by (simp add: NewDecoder_def)
qed

lemma page_tokens:
  assumes "tokenizer_ok tok" and "armor_page buffer_Write [] ps = (page, None)"
  obtains ts where "tok elementSizeLimit (eof_reader page) = (ts, EOF)" "pre_balanced ts False"
proof -
  from buffer.armor_page_form [OF _ assms(2)] obtain texts where
    t: "page = boilerplateStart @ concat (map render texts) @ boilerplateEnd" "\<forall>t\<in>set texts. text_ok t" by auto
  then obtain before after where
    "no_pre before" "no_pre after" "tok elementSizeLimit (eof_reader page) =
      (before @ concat (map (\<lambda>t. [StartTagToken (str ''pre''), TextToken t, EndTagToken (str ''pre''), TextToken [10]]) texts) @ after, EOF)"
    using assms(1) unfolding tokenizer_ok_def t(1) by blast
  then show ?thesis using that by (simp add: no_pre_append elements_text no_pre_end)
qed

text \<open>
  A page that went through an AMP cache, which may change anything in it but the text of its pre elements (up to whitespace),
  is decoded like the page itself.
\<close>

definition keeps_pre :: "tokenizer \<Rightarrow> reader \<Rightarrow> reader \<Rightarrow> bool" where
  "keeps_pre tok r r' \<longleftrightarrow>
     (\<forall>ts e. tok elementSizeLimit r = (ts, e) \<longrightarrow> pre_balanced ts False \<longrightarrow>
        (\<exists>ts'. tok elementSizeLimit r' = (ts', e) \<and> pre_balanced ts' False \<and> pre_text ts' False = pre_text ts False))"

lemma keeps_pre_decodes:
  assumes "keeps_pre tok r r'" and "tok elementSizeLimit r = (ts, e)" and "pre_balanced ts False"
  shows "NewDecoder tok r' = NewDecoder tok r"
proof -
  obtain ts' where "tok elementSizeLimit r' = (ts', e)" "pre_balanced ts' False" "pre_text ts' False = pre_text ts False"
    using assms by (auto simp: keeps_pre_def)
  then have "pipeReader tok r' = pipeReader tok r"
    using assms(2,3) by (simp add: pipeReader_def decodeToWriter_def decode_loop_buffer)
  then show ?thesis by (simp add: NewDecoder_def)
qed

text \<open>
  C18: The armor round trip: whatever is written to an encoder over a buffer, in whatever pieces, the
  page is written without an error and \<open>NewDecoder\<close> on it gives a reader with exactly those bytes,
  for every tokenizer that recognises the page's elements.
\<close>

theorem armor_roundtrip:
  assumes "tokenizer_ok tok"
  shows "\<exists>page. armor_page buffer_Write [] ps = (page, None) \<and>
    NewDecoder tok (eof_reader page) = Inr (eof_reader (concat ps))"
  by (rule armor_page_decodes [OF assms])

theorem armor_roundtrip_witness:
  "tokenizer_ok simple_tokenizer \<and>
   (\<exists>page. armor_page buffer_Write [] [str ''This was encoded '', str ''with AMP armor.''] = (page, None) \<and>
     NewDecoder simple_tokenizer (eof_reader page) =
       Inr (eof_reader (concat [str ''This was encoded '', str ''with AMP armor.''])))"
  using simple_tokenizer_ok armor_roundtrip [OF simple_tokenizer_ok] by blast

text \<open>
  C19: A page holds the boilerplate around pre elements whose texts all stay, with 16 bytes to spare, within the limit the
  decoder sets on its tokenizer (\<open>elementSizeLimit\<close>), contains only base64 characters and newlines,
  and whose joined words are the version byte \<open>0\<close> and the base64 of the data.
\<close>

theorem armor_elements_fit:
  "\<exists>page texts. armor_page buffer_Write b ps = (page, None) \<and>
     page = b @ boilerplateStart @ concat (map render texts) @ boilerplateEnd \<and>
     (\<forall>t\<in>set texts. length t + 16 \<le> elementSizeLimit \<and> (\<forall>c\<in>set t. b64safe c \<or> c = 10)) \<and>
     nows (concat texts) = [48] @ b64encode False (concat ps)"
proof -
  obtain out where o: "armor_page buffer_Write b ps = (out, None)" using armor_page_buffer by blast
  from buffer.armor_page_form [OF _ o] o show ?thesis by (auto simp: text_ok_def)
qed

theorem armor_elements_fit_witness:
  "\<exists>page. armor_page buffer_Write [] [[1, 2, 3]] = (page, None)"
  using armor_elements_fit [of "[]" "[[1, 2, 3]]"] by blast

text \<open>
  C20: \<open>decodeToWriter\<close> accepts a page exactly when its pre elements are not nested and all closed, with
  no stray end tag; it then writes the text of the pre elements with all ASCII whitespace removed, and
  reports that many bytes. Everything else on the page, and how the text is broken into words and
  tokens, does not matter.
\<close>

theorem decodeToWriter_spec:
  assumes "tok elementSizeLimit r = (tokens, EOF)"
  shows "if pre_balanced tokens False
    then decodeToWriter tok buffer_Write [] r = (pre_text tokens False, length (pre_text tokens False), None)
    else (\<exists>w n x. decodeToWriter tok buffer_Write [] r = (w, n, Some (ErrorText x)))"
  using decode_loop_buffer [of tokens False "[]" EOF 0] decode_loop_unbalanced [of tokens False "[]" 0] assms
  by (simp add: decodeToWriter_def)

theorem decodeToWriter_spec_witness:
  "decodeToWriter simple_tokenizer buffer_Write [] (eof_reader (boilerplateStart @ str ''<p>x</p><pre> a b </pre>''))
     = (str ''ab'', 2, None)"
proof -
  let ?ts = "[StartTagToken (str ''p''), TextToken (str ''x''), EndTagToken (str ''p''), StartTagToken (str ''pre''),
       TextToken (str '' a b ''), EndTagToken (str ''pre'')]"
  let ?r = "eof_reader (boilerplateStart @ str ''<p>x</p><pre> a b </pre>'')"
  have t: "simple_tokenizer elementSizeLimit ?r = (?ts, EOF)"
    by (simp add: simple_tokenizer_def Let_def str_def tag_token_def)
  have "pre_balanced ?ts False" "pre_text ?ts False = str ''ab''"
    by (simp_all add: str_def isASCIIWhitespace_def)
  then show ?thesis
    using decodeToWriter_spec [of simple_tokenizer ?r ?ts, OF t] by (simp add: str_def)
qed

text \<open>
  \<open>elementEncoder.Write\<close> counts the newlines and end tags it adds: writing one full chunk of 32
  bytes reports 33, more than it was given, which no \<^verbatim>\<open>io.Writer\<close> may do. (The base64 encoder above
  it does not look at the count.)
\<close>

theorem element_Write_overcounts:
  "element_Write buffer_Write \<lparr>ew = [], chunkCounter = 0, elementCounter = 0\<rparr> (replicate 32 c)
     = (\<lparr>ew = str ''<pre>'' @ [10] @ replicate 32 c @ [10], chunkCounter = 0, elementCounter = 1\<rparr>, 33, None)"
  by (simp add: element_Write_def element_loop.simps element_round_def buffer_Write_def Let_def)

end
