(* ===== verification/Encapsulation.thy ===== *)
theory Encapsulation
  imports Champa_Prelude
begin

text \<open>
  The chunk encoding of \<^verbatim>\<open>encapsulation/encapsulation.go\<close>: \<open>ReadData\<close>, \<open>WriteData\<close>,
  \<open>WritePadding\<close> and \<open>MaxDataForSize\<close>, with \<open>dataPrefixForLength\<close>. Lengths handed to
  the prefix functions are Go \<^verbatim>\<open>int\<close>s and are modelled as \<open>int\<close>, with
  \<^verbatim>\<open>>>\<close> and \<^verbatim>\<open>&\<close> as \<open>drop_bit\<close> and \<open>AND\<close>. The package comment's table of valid
  formats is the inductive predicate \<open>length_prefix\<close>; the reader is proved to accept exactly
  the streams that table describes, and the writers to produce such streams.
\<close>

section \<open>Reading\<close>

text \<open>The mapping of \<^verbatim>\<open>io.EOF\<close> to \<^verbatim>\<open>io.ErrUnexpectedEOF\<close> inside a chunk.\<close>

definition unexpected :: "goerror \<Rightarrow> goerror" where
  "unexpected e = (if e = EOF then ErrUnexpectedEOF else e)"

function readLength :: "nat \<Rightarrow> bool \<Rightarrow> nat \<Rightarrow> reader \<Rightarrow> (goerror + nat) \<times> reader" where
  "readLength i moreLength n r =
     (if \<not> moreLength then (Inr n, r)
      else if i \<ge> 2 then (Inl ErrTooLong, r)
      else case Read1 r of
        (Inl e, r') \<Rightarrow> (Inl (unexpected e), r')
      | (Inr b, r') \<Rightarrow>
          readLength (Suc i) (b AND 0x80 \<noteq> 0) (push_bit 7 n OR unat (b AND 0x7f)) r')"
  by pat_completeness auto
termination
  by (relation "measure (\<lambda>(i, _). 2 - i)") auto

declare readLength.simps [simp del]

lemma readLength_unfold [go_simps]:
  "readLength i False n r = (Inr n, r)"
  "i \<ge> 2 \<Longrightarrow> readLength i True n r = (Inl ErrTooLong, r)"
  "i < 2 \<Longrightarrow> rdata r = [] \<Longrightarrow> readLength i True n r = (Inl (unexpected (rerr r)), r)"
  "i < 2 \<Longrightarrow> rdata r = b # bs \<Longrightarrow> readLength i True n r =
     readLength (Suc i) (b AND 0x80 \<noteq> 0) (push_bit 7 n OR unat (b AND 0x7f)) (r\<lparr>rdata := bs\<rparr>)"
  by (subst readLength.simps, simp add: Read1_def)+

lemma readLength_length:
  "readLength i m n r = (x, r') \<Longrightarrow> length (rdata r') \<le> length (rdata r) \<and> rerr r' = rerr r"
proof (induction i m n r rule: readLength.induct)
  case (1 i m n r)
  consider "\<not> m" | "m" "i \<ge> 2" | "m" "i < 2" "rdata r = []"
    | b bs where "m" "i < 2" "rdata r = b # bs"
    by (cases "rdata r") force+
  then show ?case
  proof cases
    case 4
    with "1.prems" have "length (rdata r') \<le> length (rdata (r\<lparr>rdata := bs\<rparr>)) \<and>
        rerr r' = rerr (r\<lparr>rdata := bs\<rparr>)"
      by (intro "1.IH" [of "Inr b" "r\<lparr>rdata := bs\<rparr>" b])
        (simp_all add: Read1_def readLength_unfold)
    with 4 show ?thesis by simp
  qed (use "1.prems" in \<open>auto simp: readLength_unfold\<close>)
qed

function ReadData :: "reader \<Rightarrow> (goerror + bytes) \<times> reader" where
  "ReadData r =
     (case Read1 r of
        (Inl e, r1) \<Rightarrow> (Inl e, r1)
      | (Inr b, r1) \<Rightarrow>
          (case readLength 0 (b AND 0x40 \<noteq> 0) (unat (b AND 0x3f)) r1 of
             (Inl e, r2) \<Rightarrow> (Inl e, r2)
           | (Inr n, r2) \<Rightarrow>
               if b AND 0x80 \<noteq> 0 then
                 (case ReadFull r2 n of
                    (Inl e, r3) \<Rightarrow> (Inl (unexpected e), r3)
                  | (Inr p, r3) \<Rightarrow> (Inr p, r3))
               else
                 (case CopyN_Discard r2 n of
                    (Some e, r3) \<Rightarrow> (Inl (unexpected e), r3)
                  | (None, r3) \<Rightarrow> ReadData r3)))"
  by pat_completeness auto
termination
proof (relation "measure (\<lambda>r. length (rdata r))", goal_cases)
  case 1
  show ?case by simp
next
  case (2 r x r1 b y r2 n z r3)
  then show ?case
    using Read1_length [of r b r1] readLength_length [of 0 "b AND 0x40 \<noteq> 0" "unat (b AND 0x3f)" r1 y r2]
      CopyN_Discard_length [of r2 n z r3]
    by simp
qed

declare ReadData.simps [simp del]

section \<open>Writing\<close>

definition dataPrefixForLength :: "int \<Rightarrow> goerror + bytes" where
  "dataPrefixForLength n =
     (if drop_bit 0 n AND 0x3f = drop_bit 0 n then
        Inr [0x80 OR word_of_int (drop_bit 0 n AND 0x3f)]
      else if drop_bit 7 n AND 0x3f = drop_bit 7 n then
        Inr [0xc0 OR word_of_int (drop_bit 7 n AND 0x3f), word_of_int (drop_bit 0 n AND 0x7f)]
      else if drop_bit 14 n AND 0x3f = drop_bit 14 n then
        Inr [0xc0 OR word_of_int (drop_bit 14 n AND 0x3f),
             0x80 OR word_of_int (drop_bit 7 n AND 0x7f), word_of_int (drop_bit 0 n AND 0x7f)]
      else Inl ErrTooLong)"

definition WriteData :: "'w io_write \<Rightarrow> 'w \<Rightarrow> bytes \<Rightarrow> 'w \<times> nat \<times> goerror option" where
  "WriteData wr w data =
     (case dataPrefixForLength (int (length data)) of
        Inl e \<Rightarrow> (w, 0, Some e)
      | Inr prefix \<Rightarrow>
          (let (w1, n, err) = wr w prefix in
           case err of
             Some e \<Rightarrow> (w1, n, Some e)
           | None \<Rightarrow> (let (w2, n2, err2) = wr w1 data in (w2, n + n2, err2))))"

definition paddingBuffer :: bytes where
  "paddingBuffer = replicate 1024 0"

text \<open>
  The \<^verbatim>\<open>switch\<close> of \<open>WritePadding\<close>: the prefix and the number of padding bytes that follow
  it. Its third case masks the middle byte with \<^verbatim>\<open>0x3f\<close>, as the code does; there is no
  default case, so when none applies the prefix stays nil.
\<close>

definition paddingPrefix :: "int \<Rightarrow> bytes \<times> int" where
  "paddingPrefix p =
     (if drop_bit 0 (p - 1) AND 0x3f = drop_bit 0 (p - 1) then
        ([word_of_int (drop_bit 0 (p - 1) AND 0x3f)], p - 1)
      else if drop_bit 7 (p - 2) AND 0x3f = drop_bit 7 (p - 2) then
        ([0x40 OR word_of_int (drop_bit 7 (p - 2) AND 0x3f),
          word_of_int (drop_bit 0 (p - 2) AND 0x7f)], p - 2)
      else if drop_bit 14 (p - 3) AND 0x3f = drop_bit 14 (p - 3) then
        ([0x40 OR word_of_int (drop_bit 14 (p - 3) AND 0x3f),
          0x80 OR word_of_int (drop_bit 7 (p - 3) AND 0x3f),
          word_of_int (drop_bit 0 (p - 3) AND 0x7f)], p - 3)
      else ([], p))"

function writePaddingLoop :: "'w io_write \<Rightarrow> 'w \<Rightarrow> int \<Rightarrow> nat \<Rightarrow> 'w \<times> nat \<times> goerror option" where
  "writePaddingLoop wr w n tot =
     (if n > 0 then
        (let p = (if int (length paddingBuffer) > n then n else int (length paddingBuffer));
             (prefix, q) = paddingPrefix p;
             (w1, nn, err) = wr w prefix in
         case err of
           Some e \<Rightarrow> (w1, tot + nn, Some e)
         | None \<Rightarrow>
             (let (w2, nn2, err2) = wr w1 (take (nat q) paddingBuffer) in
              case err2 of
                Some e \<Rightarrow> (w2, tot + nn + nn2, Some e)
              | None \<Rightarrow> writePaddingLoop wr w2 (n - p) (tot + nn + nn2)))
      else (w, tot, None))"
  by pat_completeness auto
termination
  by (relation "measure (\<lambda>(wr, w, n, tot). nat n)") (auto simp: paddingBuffer_def)

declare writePaddingLoop.simps [simp del]

definition WritePadding :: "'w io_write \<Rightarrow> 'w \<Rightarrow> int \<Rightarrow> ('w \<times> nat \<times> goerror option) run" where
  "WritePadding wr w n =
     (if n < 0 then Panic ''negative length'' else Return (writePaddingLoop wr w n 0))"

definition MaxDataForSize :: "int \<Rightarrow> int run" where
  "MaxDataForSize n =
     (if n = 0 then Panic ''zero length''
      else case dataPrefixForLength n of
        Inl ErrTooLong \<Rightarrow> Return (2 ^ (6 + 7 + 7) - 1 - 3)
      | Inl _ \<Rightarrow> Panic ''err''
      | Inr prefix \<Rightarrow> Return (n - int (length prefix)))"

section \<open>The formats of the package comment\<close>

text \<open>
  \<open>length_prefix d n p\<close>: the bytes \<open>p\<close> are a valid length prefix whose d bit is \<open>d\<close> and
  whose value bits encode \<open>n\<close>; one rule per row of the table.
\<close>

inductive length_prefix :: "bool \<Rightarrow> nat \<Rightarrow> bytes \<Rightarrow> bool" where
  one: "unat x mod 128 < 64 \<Longrightarrow> length_prefix (128 \<le> unat x) (unat x mod 64) [x]"
| two: "64 \<le> unat x mod 128 \<Longrightarrow> unat y < 128 \<Longrightarrow>
    length_prefix (128 \<le> unat x) (unat x mod 64 * 2 ^ 7 + unat y) [x, y]"
| three: "64 \<le> unat x mod 128 \<Longrightarrow> 128 \<le> unat y \<Longrightarrow> unat z < 128 \<Longrightarrow>
    length_prefix (128 \<le> unat x) ((unat x mod 64 * 2 ^ 7 + unat y mod 128) * 2 ^ 7 + unat z) [x, y, z]"

inductive_cases length_prefix_Nil: "length_prefix d n []"

text \<open>Streams that consist of padding chunks only.\<close>

inductive padding_stream :: "bytes \<Rightarrow> bool" where
  padding_Nil: "padding_stream []"
| padding_Cons: "length_prefix False (length q) p \<Longrightarrow> padding_stream s \<Longrightarrow> padding_stream (p @ q @ s)"

text \<open>The first three bytes of a stream that ask for a fourth prefix byte.\<close>

definition overlong :: "bytes \<Rightarrow> bool" where
  "overlong p \<longleftrightarrow> (\<exists>x y z. p = [x, y, z] \<and> 64 \<le> unat x mod 128 \<and> 128 \<le> unat y \<and> 128 \<le> unat z)"

section \<open>The reader accepts exactly the described streams\<close>

text \<open>The two bit tests and the two masks of the reader, on values of bytes.\<close>

lemma shift_in_byte: "push_bit 7 n OR unat (b AND 0x7f) = n * 2 ^ 7 + unat b mod 128" for b :: byte
  using push_or_add [of "unat (b AND 0x7f)" 7 n] by (simp add: byte_and_127)

lemma readLength_next:
  "i < 2 \<Longrightarrow> rdata r = b # bs \<Longrightarrow> readLength i True n r =
     readLength (Suc i) (128 \<le> unat b) (n * 2 ^ 7 + unat b mod 128) (r\<lparr>rdata := bs\<rparr>)"
  by (simp only: readLength_unfold(4) shift_in_byte byte_and_128 not_less)

lemmas read_simps = readLength_unfold(1-3) readLength_next byte_simps not_less

lemma readLength_prefix:
  assumes "length_prefix d n (b # bs)"
  shows "readLength 0 (b AND 0x40 \<noteq> 0) (unat (b AND 0x3f)) \<lparr>rdata = bs @ s, rerr = e\<rparr>
           = (Inr n, \<lparr>rdata = s, rerr = e\<rparr>)"
    and "b AND 0x80 \<noteq> 0 \<longleftrightarrow> d"
  using assms by (auto elim!: length_prefix.cases simp: read_simps)

lemma readLength_Inr:
  assumes "readLength 0 (b AND 0x40 \<noteq> 0) (unat (b AND 0x3f)) r = (Inr n, r')"
  shows "\<exists>bs. rdata r = bs @ rdata r' \<and> rerr r' = rerr r \<and> length_prefix (b AND 0x80 \<noteq> 0) n (b # bs)"
proof (cases "unat b mod 128 < 64")
  case True
  with assms show ?thesis by (auto simp: read_simps intro: length_prefix.intros)
next
  case more: False
  with assms obtain c cs where c: "rdata r = c # cs"
    by (cases "rdata r") (auto simp: read_simps)
  show ?thesis
  proof (cases "unat c < 128")
    case True
    with assms more c have "n = unat b mod 64 * 2 ^ 7 + unat c" "r' = r\<lparr>rdata := cs\<rparr>"
      by (auto simp: read_simps)
    with more True c show ?thesis
      using length_prefix.two [of b c] by (auto simp: byte_simps not_less)
  next
    case False
    with assms more c obtain d ds where d: "cs = d # ds"
      by (cases cs) (auto simp: read_simps)
    with assms more c False have d128: "unat d < 128"
      by (intro ccontr [of "unat d < 128"]) (simp add: read_simps)
    with assms more c False d
    have "n = (unat b mod 64 * 2 ^ 7 + unat c mod 128) * 2 ^ 7 + unat d" "r' = r\<lparr>rdata := ds\<rparr>"
      by (simp_all add: read_simps)
    with more False c d d128 show ?thesis
      using length_prefix.three [of b c d] by (auto simp: byte_simps not_less)
  qed
qed

lemma ReadData_Nil [simp]: "ReadData \<lparr>rdata = [], rerr = e\<rparr> = (Inl e, \<lparr>rdata = [], rerr = e\<rparr>)"
  by (simp add: ReadData.simps)

lemma ReadData_data:
  assumes "length_prefix True (length d) p"
  shows "ReadData \<lparr>rdata = p @ d @ s, rerr = e\<rparr> = (Inr d, \<lparr>rdata = s, rerr = e\<rparr>)"
proof -
  from assms obtain b bs where p: "p = b # bs" by (cases p) (auto elim: length_prefix_Nil)
  with assms have lp: "length_prefix True (length d) (b # bs)" by simp
  show ?thesis
    using readLength_prefix [OF lp] by (simp add: ReadData.simps p)
qed

lemma ReadData_padding:
  assumes "length_prefix False (length q) p"
  shows "ReadData \<lparr>rdata = p @ q @ s, rerr = e\<rparr> = ReadData \<lparr>rdata = s, rerr = e\<rparr>"
proof -
  from assms obtain b bs where p: "p = b # bs" by (cases p) (auto elim: length_prefix_Nil)
  with assms have lp: "length_prefix False (length q) (b # bs)" by simp
  show ?thesis
    using readLength_prefix [OF lp] by (simp add: ReadData.simps [of "\<lparr>rdata = _ # _, rerr = _\<rparr>"] p)
qed

lemma ReadData_padding_stream:
  "padding_stream q \<Longrightarrow> ReadData \<lparr>rdata = q @ s, rerr = e\<rparr> = ReadData \<lparr>rdata = s, rerr = e\<rparr>"
  by (induction rule: padding_stream.induct) (simp_all add: ReadData_padding)

text \<open>
  A stream that ends inside a chunk: something can be appended to make it a whole chunk.
\<close>

definition truncated :: "bytes \<Rightarrow> bool" where
  "truncated s \<longleftrightarrow> s \<noteq> [] \<and> (\<exists>t d p q. t \<noteq> [] \<and> s @ t = p @ q \<and> length_prefix d (length q) p)"

lemma truncatedI: "s \<noteq> [] \<Longrightarrow> t \<noteq> [] \<Longrightarrow> s @ t = p @ q \<Longrightarrow> length_prefix d (length q) p \<Longrightarrow> truncated s"
  unfolding truncated_def by blast

lemma truncated_prefix:
  assumes "s \<noteq> []" and "t \<noteq> []" and "length_prefix d n (s @ t)"
  shows "truncated s"
  by (rule truncatedI [of s "t @ replicate n 0" "s @ t" "replicate n 0" d]) (use assms in auto)

lemma readLength_Inl:
  assumes "readLength 0 (b AND 0x40 \<noteq> 0) (unat (b AND 0x3f)) r = (Inl e, r')"
  shows "(\<exists>c d. rdata r = [c, d] @ rdata r' \<and> e = ErrTooLong \<and> overlong [b, c, d]) \<or>
         rdata r' = [] \<and> e = unexpected (rerr r) \<and> truncated (b # rdata r)"
proof -
  from assms have more: "64 \<le> unat b mod 128"
    by (intro ccontr [of "64 \<le> unat b mod 128"]) (simp add: read_simps)
  show ?thesis
  proof (cases "rdata r")
    case Nil
    with more have "truncated (b # rdata r)"
      using truncated_prefix [of "[b]" "[0]"] length_prefix.two [of b 0] by simp
    with assms more Nil show ?thesis by (auto simp: read_simps)
  next
    case c: (Cons c cs)
    with assms more have c128: "128 \<le> unat c"
      by (intro ccontr [of "128 \<le> unat c"]) (simp add: read_simps)
    show ?thesis
    proof (cases cs)
      case Nil
      with more c c128 have "truncated (b # rdata r)"
        using truncated_prefix [of "[b, c]" "[0]"] length_prefix.three [of b c 0] by simp
      with assms more c c128 Nil show ?thesis by (auto simp: read_simps)
    next
      case d: (Cons d ds)
      with assms more c c128 have "128 \<le> unat d"
        by (intro ccontr [of "128 \<le> unat d"]) (simp add: read_simps)
      with assms more c c128 d show ?thesis by (auto simp: read_simps overlong_def)
    qed
  qed
qed

text \<open>
  The complete case analysis of a call: after some padding it finds a data chunk, the end of the
  stream, an overlong prefix, or a chunk that is cut short.
\<close>

definition read_outcome :: "reader \<Rightarrow> goerror + bytes \<Rightarrow> reader \<Rightarrow> bytes \<Rightarrow> bool" where
  "read_outcome r res r' s \<longleftrightarrow>
     (case res of
        Inr d \<Rightarrow> (\<exists>p. length_prefix True (length d) p \<and> s = p @ d @ rdata r')
      | Inl e \<Rightarrow> s = [] \<and> rdata r' = [] \<and> e = rerr r
               \<or> (\<exists>p. overlong p \<and> s = p @ rdata r') \<and> e = ErrTooLong
               \<or> truncated s \<and> rdata r' = [] \<and> e = unexpected (rerr r))"

text \<open>One iteration of the outer loop, from a first byte \<open>b\<close>.\<close>

lemma ReadData_step:
  assumes "rdata r = b # bs"
    and "readLength 0 (b AND 0x40 \<noteq> 0) (unat (b AND 0x3f)) (r\<lparr>rdata := bs\<rparr>) = (x, r2)"
  shows "x = Inl e \<Longrightarrow> ReadData r = (Inl e, r2)"
    and "x = Inr n \<Longrightarrow> length (rdata r2) < n \<Longrightarrow>
           ReadData r = (Inl (unexpected (rerr r)), r2\<lparr>rdata := []\<rparr>)"
    and "x = Inr n \<Longrightarrow> n \<le> length (rdata r2) \<Longrightarrow> b AND 0x80 \<noteq> 0 \<Longrightarrow>
           ReadData r = (Inr (take n (rdata r2)), r2\<lparr>rdata := drop n (rdata r2)\<rparr>)"
    and "x = Inr n \<Longrightarrow> n \<le> length (rdata r2) \<Longrightarrow> b AND 0x80 = 0 \<Longrightarrow>
           ReadData r = ReadData (r2\<lparr>rdata := drop n (rdata r2)\<rparr>)"
  using assms readLength_length [OF assms(2)]
  by (auto simp: ReadData.simps [of r] Read1_def ReadFull_def CopyN_Discard_def unexpected_def)

lemma truncated_chunk:
  assumes "length_prefix d n p" and "length s < n"
  shows "truncated (p @ s)"
proof (rule truncatedI [of _ "replicate (n - length s) 0" p "s @ replicate (n - length s) 0" d])
  show "p @ s \<noteq> []" using assms(1) by (auto elim: length_prefix_Nil)
qed (use assms in auto)

text \<open>A padding chunk in front of a stream changes nothing but the padding that is skipped.\<close>

lemma outcome_after_padding:
  assumes "rdata r = p @ rdata r2" and "length_prefix False n p" and "n \<le> length (rdata r2)" and "rerr r2 = rerr r"
    and "drop n (rdata r2) = q @ s" and "padding_stream q" and "rerr r' = rerr r2" and "read_outcome (r2\<lparr>rdata := drop n (rdata r2)\<rparr>) res r' s"
  shows "\<exists>q s. rdata r = q @ s \<and> padding_stream q \<and> rerr r' = rerr r \<and> read_outcome r res r' s"
proof -
  have "rdata r2 = take n (rdata r2) @ q @ s" unfolding assms(5) [symmetric] by simp
  then have "rdata r = (p @ take n (rdata r2) @ q) @ s" using assms(1) by simp
  moreover have "padding_stream (p @ take n (rdata r2) @ q)"
    using assms(2,3,6) by (intro padding_Cons) (simp_all add: min_absorb2)
  moreover have "read_outcome r res r' s" using assms(4,8) by (simp add: read_outcome_def split: sum.splits)
  moreover have "rerr r' = rerr r" using assms(4,7) by simp
  ultimately show ?thesis by blast
qed

lemma ReadData_cases:
  "ReadData r = (res, r') \<Longrightarrow>
     \<exists>q s. rdata r = q @ s \<and> padding_stream q \<and> rerr r' = rerr r \<and> read_outcome r res r' s"
  (is "_ \<Longrightarrow> \<exists>q s. ?goal r q s")
proof (induction "length (rdata r)" arbitrary: r rule: less_induct)
  case (less r)
  have start: "?goal r [] (rdata r) \<Longrightarrow> \<exists>q s. ?goal r q s" by blast
  show ?case
  proof (cases "rdata r")
    case Nil
    with less.prems show ?thesis
      by (intro start) (auto simp: ReadData.simps [of r] Read1_def read_outcome_def padding_Nil)
  next
    case (Cons b bs)
    obtain x r2 where rl: "readLength 0 (b AND 0x40 \<noteq> 0) (unat (b AND 0x3f)) (r\<lparr>rdata := bs\<rparr>) = (x, r2)"
      by force
    note step = ReadData_step [OF Cons rl]
    from readLength_length [OF rl] have r2: "rerr r2 = rerr r" "length (rdata r2) \<le> length bs" by simp_all
    have pre: "\<exists>p. rdata r = (b # p) @ rdata r2 \<and> length_prefix (b AND 0x80 \<noteq> 0) n (b # p)" if "x = Inr n" for n
      using readLength_Inr [OF rl [unfolded that]] Cons by auto
    consider e where "x = Inl e" | n where "x = Inr n" "length (rdata r2) < n" | n where "x = Inr n" "n \<le> length (rdata r2)" "b AND 0x80 \<noteq> 0"
      | n where "x = Inr n" "n \<le> length (rdata r2)" "b AND 0x80 = 0" by (cases x) (auto simp: not_le [symmetric])
    then show ?thesis
    proof cases
      case (1 e)
      from less.prems step(1) [OF 1(1)] have "res = Inl e" "r' = r2" by simp_all
      with readLength_Inl [OF rl [unfolded 1(1)]] Cons r2 show ?thesis
        by (intro start) (auto simp: read_outcome_def padding_Nil intro: exI [of "\<lambda>p. overlong p \<and> _ p" "[b, _, _]"])
    next
      case (2 n)
      from pre [OF 2(1)] obtain p where p: "rdata r = (b # p) @ rdata r2" "length_prefix (b AND 0x80 \<noteq> 0) n (b # p)" by blast
      with less.prems step(2) [OF 2(1,2)] truncated_chunk [OF p(2) 2(2)] r2 show ?thesis
        by (intro start) (auto simp: read_outcome_def padding_Nil)
    next
      case (3 n)
      from pre [OF 3(1)] obtain p where "rdata r = (b # p) @ rdata r2" "length_prefix (b AND 0x80 \<noteq> 0) n (b # p)" by blast
      with less.prems step(3) [OF 3(1-3)] r2 3 show ?thesis
        by (intro start) (auto simp: read_outcome_def padding_Nil intro!: exI [of _ "b # p"])
    next
      case (4 n)
      from pre [OF 4(1)] 4(3) obtain p where p: "rdata r = (b # p) @ rdata r2" "length_prefix False n (b # p)" by auto
      let ?r3 = "r2\<lparr>rdata := drop n (rdata r2)\<rparr>"
      have "ReadData ?r3 = (res, r')" using less.prems step(4) [OF 4(1-3)] by simp
      then obtain q s where "drop n (rdata r2) = q @ s" "padding_stream q" "rerr r' = rerr r2" "read_outcome ?r3 res r' s"
        using less.hyps [of ?r3] r2 Cons by fastforce
      then show ?thesis by (rule outcome_after_padding [OF p 4(2) r2(1)])
    qed
  qed
qed

lemma unexpected_neq_EOF [simp]: "unexpected e \<noteq> EOF"
  by (simp add: unexpected_def)

lemma truncated_not_Nil [simp]: "\<not> truncated []"
  by (simp add: truncated_def)

text \<open>
  C21: \<open>ReadData\<close> returns a data chunk exactly when the stream is some padding chunks, then a
  valid length prefix with the d bit set, then that many bytes, which it returns; what follows is
  left in the reader.
\<close>

theorem ReadData_accepts:
  "ReadData \<lparr>rdata = s, rerr = e\<rparr> = (Inr d, r') \<longleftrightarrow>
     (\<exists>q p rest. s = q @ p @ d @ rest \<and> padding_stream q \<and> length_prefix True (length d) p \<and>
                 r' = \<lparr>rdata = rest, rerr = e\<rparr>)"
proof
  assume "ReadData \<lparr>rdata = s, rerr = e\<rparr> = (Inr d, r')"
  then show "\<exists>q p rest. s = q @ p @ d @ rest \<and> padding_stream q \<and> length_prefix True (length d) p \<and>
                 r' = \<lparr>rdata = rest, rerr = e\<rparr>"
    by (cases r') (fastforce dest: ReadData_cases simp: read_outcome_def)
qed (auto simp: ReadData_padding_stream ReadData_data)

text \<open>
  On a stream that ends, \<open>ReadData\<close> reports \<^verbatim>\<open>io.EOF\<close> exactly when nothing but whole
  padding chunks is left; so the end was reached before the first byte of a length prefix.
\<close>

theorem ReadData_EOF:
  "ReadData (eof_reader s) = (Inl EOF, r') \<longleftrightarrow> padding_stream s \<and> r' = eof_reader []"
proof
  assume "ReadData (eof_reader s) = (Inl EOF, r')"
  then show "padding_stream s \<and> r' = eof_reader []"
    by (cases r') (auto dest!: ReadData_cases simp: read_outcome_def unexpected_def)
next
  assume "padding_stream s \<and> r' = eof_reader []"
  then show "ReadData (eof_reader s) = (Inl EOF, r')"
    using ReadData_padding_stream [of s "[]" EOF] by simp
qed

text \<open>The two other ways to fail, from the stream.\<close>

lemma ReadData_overlong:
  assumes "overlong p"
  shows "ReadData \<lparr>rdata = p @ s, rerr = e\<rparr> = (Inl ErrTooLong, \<lparr>rdata = s, rerr = e\<rparr>)"
proof -
  from assms obtain x y z where p: "p = [x, y, z]" "64 \<le> unat x mod 128" "128 \<le> unat y" "128 \<le> unat z"
    by (auto simp: overlong_def)
  then have "readLength 0 (x AND 0x40 \<noteq> 0) (unat (x AND 0x3f)) \<lparr>rdata = [y, z] @ s, rerr = e\<rparr>
      = (Inl ErrTooLong, \<lparr>rdata = s, rerr = e\<rparr>)"
    by (simp add: read_simps)
  then show ?thesis by (simp add: ReadData.simps [of "\<lparr>rdata = _ # _, rerr = _\<rparr>"] p(1))
qed

lemma readLength_cut:
  assumes "length_prefix d n (b # bs)" and "s @ t = bs" and "t \<noteq> []"
  shows "readLength 0 (b AND 0x40 \<noteq> 0) (unat (b AND 0x3f)) \<lparr>rdata = s, rerr = e\<rparr>
           = (Inl (unexpected e), \<lparr>rdata = [], rerr = e\<rparr>)"
  using assms by (auto elim!: length_prefix.cases simp: read_simps append_eq_Cons_conv)

lemma ReadData_truncated:
  assumes "truncated s"
  shows "ReadData \<lparr>rdata = s, rerr = e\<rparr> = (Inl (unexpected e), \<lparr>rdata = [], rerr = e\<rparr>)"
proof -
  from assms obtain t d p q where st: "s \<noteq> []" "t \<noteq> []" "s @ t = p @ q" "length_prefix d (length q) p"
    by (auto simp: truncated_def)
  from st(4) obtain b bs where p: "p = b # bs" by (cases p) (auto elim: length_prefix_Nil)
  with st obtain s' where s: "s = b # s'" "s' @ t = bs @ q" by (cases s) auto
  have lp: "length_prefix d (length q) (b # bs)" using st(4) p by simp
  from s(2) consider u where "s' @ u = bs" "t = u @ q" "u \<noteq> []" | u where "s' = bs @ u" "u @ t = q"
    using st(2) by (auto simp: append_eq_append_conv2 intro: that) (metis append_Nil append_Nil2)
  then show ?thesis
  proof cases
    case (1 u)
    from readLength_cut [OF lp 1(1,3), of e] show ?thesis by (simp add: ReadData.simps [of "\<lparr>rdata = _ # _, rerr = _\<rparr>"] s(1))
  next
    case (2 u)
    then have "length u < length q" using st(2) by auto
    then show ?thesis
      using ReadData_step(2) [OF _ _ refl, where r = "\<lparr>rdata = s, rerr = e\<rparr>"] readLength_prefix(1) [OF lp, of u e] by (simp add: s(1) 2(1))
  qed
qed

text \<open>
  C23: On a stream that ends, \<open>ReadData\<close> fails in exactly the three situations the package documents, each with its own error:
  \<^verbatim>\<open>io.EOF\<close>, when nothing but whole padding chunks is left; \<open>ErrTooLong\<close>, when padding is followed by three prefix bytes that
  all have their continuation bit set, leaving what comes after them in the reader; and \<^verbatim>\<open>io.ErrUnexpectedEOF\<close>, when padding is followed
  by a proper, non-empty beginning of a chunk, be it cut inside its length prefix or inside its data.
\<close>

theorem ReadData_errors:
  "ReadData (eof_reader s) = (Inl e, r') \<longleftrightarrow>
     (e = EOF \<and> padding_stream s \<and> r' = eof_reader []) \<or>
     (e = ErrTooLong \<and> (\<exists>q p rest. s = q @ p @ rest \<and> padding_stream q \<and> overlong p \<and> r' = eof_reader rest)) \<or>
     (e = ErrUnexpectedEOF \<and> (\<exists>q u. s = q @ u \<and> padding_stream q \<and> truncated u \<and> r' = eof_reader []))"
  (is "?lhs \<longleftrightarrow> ?rhs")
proof
  assume ?lhs
  then show ?rhs by (cases r') (fastforce dest!: ReadData_cases simp: read_outcome_def unexpected_def)
next
  assume ?rhs
  then show ?lhs
    using ReadData_padding_stream [of s "[]" EOF]
    by (elim disjE) (auto simp: ReadData_padding_stream ReadData_overlong ReadData_truncated unexpected_def)
qed

section \<open>The writers produce described streams\<close>

lemma unat_or_80: "unat w < 128 \<Longrightarrow> unat (0x80 OR w) = 128 + unat w" for w :: byte
  using push_or_add [of "unat w" 7 1] by (simp add: unsigned_or_eq)

lemma unat_or_c0: "unat w < 64 \<Longrightarrow> unat (0xc0 OR w) = 192 + unat w" for w :: byte
  using push_or_add [of "unat w" 6 3] by (simp add: unsigned_or_eq)

lemma unat_or_40: "unat w < 64 \<Longrightarrow> unat (0x40 OR w) = 64 + unat w" for w :: byte
  using push_or_add [of "unat w" 6 1] by (simp add: unsigned_or_eq)

lemma unat_byte_of_nat [simp]: "m < 256 \<Longrightarrow> unat (of_nat m :: byte) = m"
  by (simp add: unsigned_of_nat take_bit_nat_eq_self)

lemma fits_iff:
  "drop_bit 0 n AND 0x3f = drop_bit 0 n \<longleftrightarrow> 0 \<le> n \<and> n < 2 ^ 6"
  "drop_bit 7 n AND 0x3f = drop_bit 7 n \<longleftrightarrow> 0 \<le> n \<and> n < 2 ^ 13"
  "drop_bit 14 n AND 0x3f = drop_bit 14 n \<longleftrightarrow> 0 \<le> n \<and> n < 2 ^ 20" for n :: int
  by (auto simp: int_and_63_iff drop_bit_eq_div)

lemma byte_of_field:
  "word_of_int (drop_bit k (int n) AND 0x3f) = (of_nat (n div 2 ^ k mod 64) :: byte)"
  "word_of_int (drop_bit k (int n) AND 0x7f) = (of_nat (n div 2 ^ k mod 128) :: byte)"
proof -
  have "drop_bit k (int n) AND 0x3f = int (n div 2 ^ k mod 64)"
    "drop_bit k (int n) AND 0x7f = int (n div 2 ^ k mod 128)"
    by (simp_all only: int_and_63 int_and_127 drop_bit_eq_div zdiv_int zmod_int of_nat_power of_nat_numeral)
  then show "word_of_int (drop_bit k (int n) AND 0x3f) = (of_nat (n div 2 ^ k mod 64) :: byte)"
    "word_of_int (drop_bit k (int n) AND 0x7f) = (of_nat (n div 2 ^ k mod 128) :: byte)"
    by (simp_all only: of_int_of_nat_eq)
qed

text \<open>The prefix as a function of the length, by size class.\<close>

lemma dataPrefix_nat:
  "dataPrefixForLength (int n) =
     (if n < 2 ^ 6 then Inr [0x80 OR of_nat (n div 2 ^ 0 mod 64)]
      else if n < 2 ^ 13 then Inr [0xc0 OR of_nat (n div 2 ^ 7 mod 64), of_nat (n div 2 ^ 0 mod 128)]
      else if n < 2 ^ 20 then
        Inr [0xc0 OR of_nat (n div 2 ^ 14 mod 64), 0x80 OR of_nat (n div 2 ^ 7 mod 128),
             of_nat (n div 2 ^ 0 mod 128)]
      else Inl ErrTooLong)"
  unfolding dataPrefixForLength_def fits_iff byte_of_field by simp

lemma dataPrefix_negative: "n < 0 \<Longrightarrow> dataPrefixForLength n = Inl ErrTooLong"
  unfolding dataPrefixForLength_def fits_iff by simp

text \<open>The rows of the table, for bytes put together as a marker plus a value field.\<close>

lemma length_prefix_fields:
  "k < 64 \<Longrightarrow> unat x = (if d then 128 else 0) + k \<Longrightarrow> length_prefix d k [x]"
  "k < 64 \<Longrightarrow> unat x = (if d then 192 else 64) + k \<Longrightarrow> unat y < 128 \<Longrightarrow>
     n = k * 2 ^ 7 + unat y \<Longrightarrow> length_prefix d n [x, y]"
  "k < 64 \<Longrightarrow> unat x = (if d then 192 else 64) + k \<Longrightarrow> unat y = 128 + l \<Longrightarrow> l < 128 \<Longrightarrow> unat z < 128 \<Longrightarrow>
     n = (k * 2 ^ 7 + l) * 2 ^ 7 + unat z \<Longrightarrow> length_prefix d n [x, y, z]"
  using length_prefix.one [of x] length_prefix.two [of x y] length_prefix.three [of x y z]
  by (auto simp: mod_if split: if_splits)

lemma dataPrefix_valid:
  assumes "n < 2 ^ 20"
  shows "\<exists>p. dataPrefixForLength (int n) = Inr p \<and> length_prefix True n p \<and> length p \<le> 3"
proof -
  consider "n < 2 ^ 6" | "2 ^ 6 \<le> n" "n < 2 ^ 13" | "2 ^ 13 \<le> n" using assms by linarith
  then show ?thesis
  proof cases
    case 1
    then show ?thesis
      by (auto simp: dataPrefix_nat unat_or_80 intro!: length_prefix_fields(1))
  next
    case 2
    then show ?thesis
      by (auto simp: dataPrefix_nat unat_or_c0 intro!: length_prefix_fields(2) [of "n div 2 ^ 7"])
  next
    case 3
    have "n div 2 ^ 14 * 2 ^ 7 + n div 2 ^ 7 mod 128 = n div 2 ^ 7"
      using div_mult2_eq [of n "2 ^ 7" "2 ^ 7"] div_mult_mod_eq [of "n div 2 ^ 7" "2 ^ 7"] by simp
    with 3 assms show ?thesis
      by (auto simp: dataPrefix_nat unat_or_c0 unat_or_80
          intro!: length_prefix_fields(3) [of "n div 2 ^ 14" _ _ _ "n div 2 ^ 7 mod 128"])
  qed
qed

text \<open>
  The encoding of one packet, as the bytes a successful \<open>WriteData\<close> appends.
\<close>

definition data_chunk :: "bytes \<Rightarrow> bytes" where
  "data_chunk d = (case dataPrefixForLength (int (length d)) of Inl _ \<Rightarrow> [] | Inr p \<Rightarrow> p @ d)"

lemma data_chunk_prefix:
  assumes "length d < 2 ^ 20"
  obtains p where "data_chunk d = p @ d" and "dataPrefixForLength (int (length d)) = Inr p"
    and "length_prefix True (length d) p" and "length p \<le> 3"
  using dataPrefix_valid [OF assms] by (auto simp: data_chunk_def)

lemma data_chunk_length:
  "length d < 2 ^ 20 \<Longrightarrow> length d < length (data_chunk d) \<and> length (data_chunk d) \<le> length d + 3"
  by (erule data_chunk_prefix) (auto elim: length_prefix_Nil)

lemma ReadData_data_chunk:
  "length d < 2 ^ 20 \<Longrightarrow>
     ReadData \<lparr>rdata = data_chunk d @ s, rerr = e\<rparr> = (Inr d, \<lparr>rdata = s, rerr = e\<rparr>)"
  by (erule data_chunk_prefix) (simp add: ReadData_data)

context io_writer
begin

lemma WriteData_content:
  assumes "ok w" and "WriteData wr w d = (w', n, None)"
  shows "content w' = content w @ data_chunk d" and "n = length (data_chunk d)" and "ok w'"
proof -
  from assms(2) obtain p w1 n1 n2 where p: "dataPrefixForLength (int (length d)) = Inr p"
    and 1: "wr w p = (w1, n1, None)" and 2: "wr w1 d = (w', n2, None)" and n: "n = n1 + n2"
    by (auto simp: WriteData_def split: sum.splits option.splits prod.splits)
  note ok1 = write_ok [OF assms(1) 1]
  show "content w' = content w @ data_chunk d" "n = length (data_chunk d)" "ok w'"
    using p n write_content [OF assms(1) 1] write_content [OF ok1 2] write_count [OF assms(1) 1]
      write_count [OF ok1 2] write_ok [OF ok1 2]
    by (simp_all add: data_chunk_def)
qed

lemma WriteData_bound: "ok w \<Longrightarrow> WriteData wr w d = (w', n, None) \<Longrightarrow> length d < 2 ^ 20"
  by (rule ccontr) (auto simp: WriteData_def dataPrefix_nat)

lemma WriteData_too_long: "2 ^ 20 \<le> length d \<Longrightarrow> WriteData wr w d = (w, 0, Some ErrTooLong)"
  by (simp add: WriteData_def dataPrefix_nat)

end

context reliable_writer
begin

lemma WriteData_succeeds:
  assumes "ok w" and "length d < 2 ^ 20"
  shows "\<exists>w'. WriteData wr w d = (w', length (data_chunk d), None) \<and> ok w' \<and>
           content w' = content w @ data_chunk d"
proof -
  obtain p where p: "data_chunk d = p @ d" "dataPrefixForLength (int (length d)) = Inr p"
    using assms(2) by (rule data_chunk_prefix)
  from write_succeeds [OF assms(1), of p] obtain w1 where
    1: "wr w p = (w1, length p, None)" "ok w1" "content w1 = content w @ p" by blast
  from write_succeeds [OF 1(2), of d] show ?thesis by (auto simp: WriteData_def p 1)
qed

end

text \<open>
  Encoding and decoding are inverse: \<open>WriteData\<close> of a slice shorter than $2^{20}$ bytes to a
  buffer succeeds, reports exactly the number of bytes it appended, at most three more than the
  slice, and \<open>ReadData\<close> on what it appended, whatever follows, gives the slice back and leaves
  what follows.
\<close>

theorem WriteData_ReadData:
  assumes "length d < 2 ^ 20"
  shows "\<exists>enc. WriteData buffer_Write buf d = (buf @ enc, length enc, None) \<and>
           length enc \<le> length d + 3 \<and>
           ReadData \<lparr>rdata = enc @ s, rerr = e\<rparr> = (Inr d, \<lparr>rdata = s, rerr = e\<rparr>)"
  using assms buffer.WriteData_succeeds [of d buf] data_chunk_length [OF assms]
    ReadData_data_chunk [OF assms]
  by (auto intro!: exI [of _ "data_chunk d"])

theorem WriteData_ReadData_witness:
  "\<exists>enc. WriteData buffer_Write [7] [1, 2, 3] = ([7] @ enc, length enc, None) \<and>
     length enc \<le> length [1, 2, 3 :: byte] + 3 \<and>
     ReadData \<lparr>rdata = enc @ [9], rerr = EOF\<rparr> = (Inr [1, 2, 3], \<lparr>rdata = [9], rerr = EOF\<rparr>)"
  by (rule WriteData_ReadData) simp

text \<open>
  \<open>WriteData\<close> refuses exactly the slices that do not fit a three-byte prefix; it then writes
  nothing.
\<close>

theorem WriteData_ErrTooLong:
  "WriteData buffer_Write buf d = (buf, 0, Some ErrTooLong) \<longleftrightarrow> 2 ^ 20 \<le> length d"
  using buffer.WriteData_succeeds [of d buf]
  by (cases "length d < 2 ^ 20") (auto simp: buffer.WriteData_too_long)

section \<open>Padding\<close>

lemma paddingPrefix_valid:
  assumes "0 < p" and "p \<le> 1024"
  shows "\<exists>pre q. paddingPrefix (int p) = (pre, int q) \<and> length pre + q = p \<and> length_prefix False q pre"
proof (cases "p \<le> 64")
  case True
  define q where "q = p - 1"
  have q: "int p - 1 = int q" "q < 64" "p = q + 1" using assms True by (auto simp: q_def)
  have "paddingPrefix (int p) = ([of_nat (q div 2 ^ 0 mod 64)], int q)"
    unfolding paddingPrefix_def q(1) fits_iff byte_of_field using q(2) by simp
  with q show ?thesis by (auto intro!: length_prefix_fields(1))
next
  case False
  define q where "q = p - 2"
  have q: "int p - 2 = int q" "q < 2 ^ 13" "p = q + 2" "\<not> int p - 1 < 2 ^ 6"
    using assms False by (auto simp: q_def)
  have "paddingPrefix (int p) = ([0x40 OR of_nat (q div 2 ^ 7 mod 64), of_nat (q div 2 ^ 0 mod 128)], int q)"
    unfolding paddingPrefix_def q(1) fits_iff byte_of_field using q(2,4) by simp
  with q show ?thesis
    by (auto simp: unat_or_40 intro!: length_prefix_fields(2) [of "q div 2 ^ 7"])
qed

lemma writePaddingLoop_step:
  assumes "0 < n" and "paddingPrefix (min n 1024) = (pre, int q)"
    and "wr w pre = (w1, a, None)" and "wr w1 (take q paddingBuffer) = (w2, b, None)"
  shows "writePaddingLoop wr w n tot = writePaddingLoop wr w2 (n - min n 1024) (tot + a + b)"
proof -
  have "(if int (length paddingBuffer) > n then n else int (length paddingBuffer)) = min n 1024"
    by (simp add: paddingBuffer_def)
  with assms show ?thesis by (subst writePaddingLoop.simps) simp
qed

lemma padding_stream_append: "padding_stream s \<Longrightarrow> padding_stream t \<Longrightarrow> padding_stream (s @ t)"
  by (induction rule: padding_stream.induct) (auto intro: padding_stream.intros)

context reliable_writer
begin

lemma writePaddingLoop_succeeds:
  "ok w \<Longrightarrow> \<exists>w' q. writePaddingLoop wr w (int n) tot = (w', tot + n, None) \<and> ok w' \<and>
     content w' = content w @ q \<and> length q = n \<and> padding_stream q"
proof (induction n arbitrary: w tot rule: less_induct)
  case (less n)
  show ?case
  proof (cases "n = 0")
    case True
    with less.prems show ?thesis by (simp add: writePaddingLoop.simps padding_Nil)
  next
    case False
    define p where "p = min n 1024"
    with False have p: "0 < p" "p \<le> 1024" "p \<le> n" "int p = min (int n) 1024" by auto
    from paddingPrefix_valid [OF p(1,2)] obtain pre q where
      pre: "paddingPrefix (int p) = (pre, int q)" "length pre + q = p" "length_prefix False q pre" by blast
    let ?pad = "take q paddingBuffer"
    have pad: "length ?pad = q" using p pre(2) by (simp add: paddingBuffer_def)
    from write_succeeds [OF less.prems, of pre] obtain w1 where
      1: "wr w pre = (w1, length pre, None)" "ok w1" "content w1 = content w @ pre" by blast
    from write_succeeds [OF 1(2), of ?pad] obtain w2 where
      2: "wr w1 ?pad = (w2, q, None)" "ok w2" "content w2 = content w1 @ ?pad" using pad by auto
    from less.IH [of "n - p" w2 "tot + length pre + q"] 2(2) p obtain w' r where
      r: "writePaddingLoop wr w2 (int (n - p)) (tot + length pre + q) = (w', tot + n, None)" "ok w'"
        "content w' = content w2 @ r" "length r = n - p" "padding_stream r" using pre(2) by auto
    have "writePaddingLoop wr w (int n) tot = (w', tot + n, None)"
      using writePaddingLoop_step [of "int n" pre q wr w w1 "length pre" w2 q tot] False p pre 1 2 r(1)
      by (simp del: min_less_iff_conj)
    moreover have "padding_stream (pre @ ?pad @ r)"
      using pre(3) r(5) pad by (intro padding_Cons) (simp_all only:)
    ultimately show ?thesis using 1 2 r p pre pad
      by (auto intro!: exI [of _ "pre @ ?pad @ r"])
  qed
qed

end

text \<open>
  \<open>WritePadding\<close> of \<open>n\<close> bytes to a buffer terminates without error, appends exactly \<open>n\<close>
  bytes, prefixes included, reports \<open>n\<close>, and the reader skips all of what it appended. (The third
  case of its \<^verbatim>\<open>switch\<close>, whose mask would be wrong, is never reached.)
\<close>

theorem WritePadding_skipped:
  "\<exists>q. WritePadding buffer_Write buf (int n) = Return (buf @ q, n, None) \<and> length q = n \<and>
     padding_stream q \<and>
     ReadData \<lparr>rdata = q @ s, rerr = e\<rparr> = ReadData \<lparr>rdata = s, rerr = e\<rparr>"
  using buffer.writePaddingLoop_succeeds [of buf n 0]
  by (auto simp: WritePadding_def ReadData_padding_stream)

section \<open>Budgets\<close>

definition prefix_size :: "nat \<Rightarrow> nat" where
  "prefix_size n = (if n < 2 ^ 6 then 1 else if n < 2 ^ 13 then 2 else 3)"

lemma dataPrefix_size:
  "dataPrefixForLength (int n) = Inr p \<Longrightarrow> length p = prefix_size n"
  by (auto simp: dataPrefix_nat prefix_size_def split: if_splits)

lemma data_chunk_size: "length d < 2 ^ 20 \<Longrightarrow> length (data_chunk d) = prefix_size (length d) + length d"
  by (erule data_chunk_prefix) (simp add: dataPrefix_size)

lemma prefix_size_mono: "m \<le> n \<Longrightarrow> prefix_size m \<le> prefix_size n"
  by (simp add: prefix_size_def)

lemma MaxDataForSize_nat:
  assumes "0 < n"
  shows "MaxDataForSize (int n) =
    Return (if n < 2 ^ 20 then int n - int (prefix_size n) else 2 ^ 20 - 4)"
proof (cases "n < 2 ^ 20")
  case True
  then obtain p where "dataPrefixForLength (int n) = Inr p" using dataPrefix_valid by blast
  with True assms show ?thesis by (simp add: MaxDataForSize_def dataPrefix_size)
next
  case False
  with assms show ?thesis by (simp add: MaxDataForSize_def dataPrefix_nat)
qed

text \<open>
  \<open>MaxDataForSize\<close> is a safe budget: for a positive size it never panics, and every slice no
  longer than it says fits, length prefix included, into that size.
\<close>

theorem MaxDataForSize_fits:
  assumes "0 < n"
  shows "\<exists>m. MaxDataForSize (int n) = Return (int m) \<and>
           (\<forall>d. length d \<le> m \<longrightarrow>
             (\<exists>enc. WriteData buffer_Write [] d = (enc, length enc, None) \<and> length enc \<le> n))"
proof -
  define m where "m = (if n < 2 ^ 20 then n - prefix_size n else 2 ^ 20 - 4)"
  have "prefix_size n \<le> n" using assms by (simp add: prefix_size_def)
  then have "MaxDataForSize (int n) = Return (int m)"
    using assms by (simp add: MaxDataForSize_nat m_def)
  moreover have "\<exists>enc. WriteData buffer_Write [] d = (enc, length enc, None) \<and> length enc \<le> n"
    if "length d \<le> m" for d
  proof -
    have "length d < 2 ^ 20" "prefix_size (length d) + length d \<le> n"
      using that prefix_size_mono [of "length d" n] \<open>prefix_size n \<le> n\<close>
      by (auto simp: m_def prefix_size_def split: if_splits)
    then show ?thesis
      using buffer.WriteData_succeeds [of d "[]"] by (simp add: data_chunk_size)
  qed
  ultimately show ?thesis by blast
qed

theorem MaxDataForSize_fits_witness:
  "(0::nat) < 64 \<and> (\<exists>m. MaxDataForSize (int 64) = Return (int m) \<and>
     (\<forall>d. length d \<le> m \<longrightarrow>
       (\<exists>enc. WriteData buffer_Write [] d = (enc, length enc, None) \<and> length enc \<le> 64)))"
proof
  show "(0::nat) < 64" by simp
  then show "\<exists>m. MaxDataForSize (int 64) = Return (int m) \<and>
     (\<forall>d. length d \<le> m \<longrightarrow>
       (\<exists>enc. WriteData buffer_Write [] d = (enc, length enc, None) \<and> length enc \<le> 64))"
    by (rule MaxDataForSize_fits)
qed

text \<open>
  \<open>MaxDataForSize\<close> is not the longest fitting length its comment promises: for size 64 it
  answers 62, though every slice of 63 bytes encodes into 64 bytes; and it answers 1048572 for
  every negative size.
\<close>

theorem MaxDataForSize_not_longest:
  "MaxDataForSize 64 = Return 62 \<and>
   (\<exists>enc. WriteData buffer_Write [] (replicate 63 x) = (enc, 64, None)) \<and>
   MaxDataForSize (- 1 - int k) = Return 1048572"
proof -
  have "MaxDataForSize (int 64) = Return 62"
    by (subst MaxDataForSize_nat) (simp_all add: prefix_size_def)
  moreover have "MaxDataForSize (- 1 - int k) = Return 1048572"
    by (simp add: MaxDataForSize_def dataPrefix_negative)
  moreover have "\<exists>enc. WriteData buffer_Write [] (replicate 63 x) = (enc, 64, None)"
    using buffer.WriteData_succeeds [of "replicate 63 x" "[]"]
    by (simp add: data_chunk_size prefix_size_def)
  ultimately show ?thesis by simp
qed

section \<open>Reading all the packets of a body\<close>

text \<open>
  Both ends read a body by calling \<open>ReadData\<close> until it fails. The packets, the final error and the
  reader that is left:
\<close>

function ReadData_all :: "reader \<Rightarrow> bytes list \<times> goerror \<times> reader" where
  "ReadData_all r =
     (case ReadData r of
        (Inl e, r') \<Rightarrow> ([], e, r')
      | (Inr p, r') \<Rightarrow> (let (ps, e, r'') = ReadData_all r' in (p # ps, e, r'')))"
  by pat_completeness auto
termination
proof (relation "measure (\<lambda>r. length (rdata r))", goal_cases)
  case (2 r x r' p)
  then obtain q u where "rdata r = q @ u @ p @ rdata r'" "length_prefix True (length p) u"
    using ReadData_cases [of r "Inr p" r'] by (auto simp: read_outcome_def)
  then show ?case by (cases u) (auto elim: length_prefix_Nil)
qed simp

declare ReadData_all.simps [simp del]

text \<open>Bodies as the writers build them: packets, each preceded by any amount of padding.\<close>

inductive packet_stream :: "bytes list \<Rightarrow> bytes \<Rightarrow> bool" where
  packets_Nil: "padding_stream q \<Longrightarrow> packet_stream [] q"
| packets_Cons: "padding_stream q \<Longrightarrow> length d < 2 ^ 20 \<Longrightarrow> packet_stream ds s \<Longrightarrow>
    packet_stream (d # ds) (q @ data_chunk d @ s)"

lemma packet_stream_chunks:
  "(\<And>d. d \<in> set ds \<Longrightarrow> length d < 2 ^ 20) \<Longrightarrow> packet_stream ds (concat (map data_chunk ds))"
proof (induction ds)
  case Nil
  show ?case by (simp add: packets_Nil padding_Nil)
next
  case (Cons d ds)
  then show ?case using packets_Cons [OF padding_Nil, of d ds] by simp
qed

lemma ReadData_all_packets:
  "packet_stream ds s \<Longrightarrow> ReadData_all \<lparr>rdata = s, rerr = e\<rparr> = (ds, e, \<lparr>rdata = [], rerr = e\<rparr>)"
proof (induction rule: packet_stream.induct)
  case (packets_Nil q)
  then show ?case
    using ReadData_padding_stream [of q "[]" e] by (simp add: ReadData_all.simps)
next
  case (packets_Cons q d ds s)
  then show ?case
    by (simp add: ReadData_all.simps [of "\<lparr>rdata = q @ _, rerr = _\<rparr>"] ReadData_padding_stream
        ReadData_data_chunk)
qed

lemma ReadData_all_rest: "ReadData_all r = (ps, e, r') \<Longrightarrow> rerr r' = rerr r"
proof (induction r arbitrary: ps rule: ReadData_all.induct)
  case (1 r)
  obtain res r1 where rd: "ReadData r = (res, r1)" by force
  then have "rerr r1 = rerr r" by (auto dest: ReadData_cases)
  with "1" rd show ?case
    by (cases res) (auto simp: ReadData_all.simps [of r] split: prod.splits)
qed

text \<open>
  C22: A body of packets written by \<open>WriteData\<close>, with any padding between, before and after them,
  is read back by repeated \<open>ReadData\<close> calls as exactly those packets in order, and then as the end
  of the stream.
\<close>

theorem ReadData_all_roundtrip:
  assumes "packet_stream ds s"
  shows "ReadData_all (eof_reader s) = (ds, EOF, eof_reader [])"
  by (rule ReadData_all_packets [OF assms])

theorem ReadData_all_roundtrip_witness:
  "ReadData_all (eof_reader ([1, 0] @ data_chunk [5] @ data_chunk [])) = ([[5], []], EOF, eof_reader [])"
proof (rule ReadData_all_roundtrip)
  have "padding_stream ([1] @ [0] @ [])"
    using length_prefix.one [of 1] by (intro padding_stream.intros) simp_all
  then show "packet_stream [[5], []] ([1, 0] @ data_chunk [5] @ data_chunk [])"
    using packets_Cons [of "[1, 0]" "[5]" "[[]]" "data_chunk []"]
      packet_stream_chunks [of "[[]]"] by simp
qed

end
