(* ===== verification/Http_Handler.thy ===== *)
theory Http_Handler
  imports Packet_Select Armor Encapsulation
begin

text \<open>
  The HTTP handler of the server, from champa-server/main.go: decode the client ID and the packets
  from the request path, queue the packets, and answer with an armored page that bundles the packets
  that wait for that client.

  A request is its method and the path of its URL; a response is its status, its headers and the
  state of the writer for its body. Flushing has no effect on what is written.
\<close>

section \<open>Requests\<close>

type_synonym ClientID = bytes

definition HasPrefix :: "bytes \<Rightarrow> bytes \<Rightarrow> bool" where
  "HasPrefix s p \<longleftrightarrow> take (length p) s = p"

text \<open>\<^verbatim>\<open>path.Split\<close>: everything up to the last slash, and the rest.\<close>

definition path_Split :: "bytes \<Rightarrow> bytes \<times> bytes" where
  "path_Split s =
     (let n = length (takeWhile (\<lambda>b. b \<noteq> 47) (rev s))
      in (take (length s - n) s, drop (length s - n) s))"

definition decodeRequest :: "bytes \<Rightarrow> ClientID \<times> bytes option" where
  "decodeRequest url_path =
     (if HasPrefix url_path (str ''/0'')
      then
        (let (_, encoded) = path_Split (drop 2 url_path);
             (decoded, err) = RawURL_DecodeString encoded
         in if err \<noteq> None then (replicate 8 0, None)
            else
              (let n = min 8 (length decoded);
                   clientID = take n decoded @ replicate (8 - n) 0
               in if n \<noteq> 8 then (replicate 8 0, None)
                  else (clientID, Some (drop n decoded))))
      else (replicate 8 0, None))"

section \<open>Bundling\<close>

text \<open>
  The armor encoder as a writer. (After an error the count is not what the base64 encoder reports;
  nobody looks at it.)
\<close>

definition armor_io :: "'w io_write \<Rightarrow> 'w armorEncoder io_write" where
  "armor_io wr enc p =
     (let (enc', err) = armor_Write wr enc p in (enc', if err = None then length p else 0, err))"

text \<open>
  The nested \<^verbatim>\<open>select\<close> statements: the stash; the stash or the queue; the stash, the queue or the
  timer. The timer may have fired by the time of the last one, so it can win over a packet; if there
  is no packet it will fire. The packet is nil if the timer wins.
\<close>

definition take_packet :: "'a sched \<Rightarrow> 'a queuePacketConn \<Rightarrow> nat \<Rightarrow> nat \<Rightarrow> ('a queuePacketConn \<times> bytes) run" where
  "take_packet sch c unstash out =
     run_bind (interfere sch 2 c) (\<lambda>c.
     case recv_case c unstash of
       Some r \<Rightarrow> Return r
     | None \<Rightarrow>
         run_bind (interfere sch 3 c) (\<lambda>c.
         case recv_either (pick sch 0) c unstash out of
           Some r \<Rightarrow> Return r
         | None \<Rightarrow>
             run_bind (interfere sch 4 c) (\<lambda>c.
             if pick sch 1 then Return (c, [])
             else (case recv_either (pick sch 2) c unstash out of
                     Some r \<Rightarrow> Return r
                   | None \<Rightarrow> Return (c, [])))))"

text \<open>One iteration of the bundling loop: the new limit, and whether the loop goes on.\<close>

definition bundle_round ::
  "'a sched \<Rightarrow> 'w io_write \<Rightarrow> 'a \<Rightarrow> 'a queuePacketConn \<Rightarrow> 'w \<Rightarrow> int \<Rightarrow> bool \<Rightarrow> ('a queuePacketConn \<times> 'w \<times> int \<times> bool) run" where
  "bundle_round sch wr clientID c w limit first =
     run_bind (interfere sch 0 c) (\<lambda>c.
     run_bind (ConnUnstash c clientID (clock sch 0)) (\<lambda>(c, unstash).
     run_bind (interfere sch 1 c) (\<lambda>c.
     run_bind (OutgoingQueue c clientID (clock sch 1)) (\<lambda>(c, out).
     run_bind (take_packet sch c unstash out) (\<lambda>(c, p).
     if length p = 0 then Return (c, w, limit, False)
     else
       (let limit = limit - int (length p)
        in if \<not> first \<and> limit < 0
           then
             run_bind (interfere sch 5 c) (\<lambda>c.
             run_bind (ConnStash c p clientID (clock sch 2)) (\<lambda>(c, _).
             Return (c, w, limit, False)))
           else
             (case WriteData wr w p of
                (w, _, Some e) \<Rightarrow> Return (c, w, limit, False)
              | (w, _, None) \<Rightarrow> Return (c, w, limit, True))))))))"

lemma bundle_round_continues:
  assumes "bundle_round sch wr a c w limit first = Return (c', w', limit', True)"
  shows "limit' < limit \<and> (first \<or> 0 \<le> limit')"
  using assms
  by (auto simp: bundle_round_def run_bind_Return Let_def split: if_splits prod.splits option.splits)

text \<open>The loop ends, because every packet after the first takes from the limit.\<close>

function bundleLoop ::
  "(nat \<Rightarrow> 'a sched) \<Rightarrow> 'w io_write \<Rightarrow> 'a \<Rightarrow> nat \<Rightarrow> 'a queuePacketConn \<Rightarrow> 'w \<Rightarrow> int \<Rightarrow> bool \<Rightarrow> ('a queuePacketConn \<times> 'w) run" where
  "bundleLoop schs wr clientID k c w limit first =
     (case bundle_round (schs k) wr clientID c w limit first of
        Panic s \<Rightarrow> Panic s
      | Return (c', w', limit', continues) \<Rightarrow>
          if continues then bundleLoop schs wr clientID (Suc k) c' w' limit' False else Return (c', w'))"
  by pat_completeness auto
termination
  by (relation "measures [\<lambda>(_, _, _, _, _, _, _, first). if first then 1 else 0, \<lambda>(_, _, _, _, _, _, limit, _). nat (limit + 1)]")
    (auto dest: bundle_round_continues)

declare bundleLoop.simps [simp del]

section \<open>The handler\<close>

definition maxPayloadLength :: int where
  "maxPayloadLength = 5000"

record 'w response =
  status :: nat
  headers :: "(string \<times> string) list"
  body :: 'w

text \<open>Queueing the packets of the request; others may run before each of them.\<close>

fun queue_packets :: "(nat \<Rightarrow> 'a conn_op list) \<Rightarrow> nat \<Rightarrow> 'a queuePacketConn \<Rightarrow> 'a \<Rightarrow> bytes list \<Rightarrow> 'a queuePacketConn run" where
  "queue_packets env i c a [] = Return c"
| "queue_packets env i c a (p # ps) =
     run_bind (conn_run c (env i)) (\<lambda>(c, _). queue_packets env (Suc i) (QueueIncoming c p a) a ps)"

definition ServeHTTP ::
  "(nat \<Rightarrow> ClientID conn_op list) \<Rightarrow> (nat \<Rightarrow> ClientID sched) \<Rightarrow> 'w io_write \<Rightarrow> string \<Rightarrow> bytes \<Rightarrow>
   ClientID queuePacketConn \<Rightarrow> 'w \<Rightarrow> (ClientID queuePacketConn \<times> 'w response) run" where
  "ServeHTTP env schs wr meth url_path c w =
     (if meth \<noteq> ''GET''
      then Return (c, \<lparr>status = 400,
                       headers = [(''Content-Type'', ''text/plain; charset=utf-8''), (''X-Content-Type-Options'', ''nosniff'')],
                       body = fst (wr w (str ''Bad Request'' @ [10]))\<rparr>)
      else
        (let resp = (\<lambda>w. \<lparr>status = 200, headers = [(''Content-Type'', ''text/html''), (''Cache-Control'', ''max-age=15'')], body = w\<rparr>)
         in case NewEncoder wr w of
              (w, Inl e) \<Rightarrow> Return (c, resp w)
            | (_, Inr enc) \<Rightarrow>
                (case decodeRequest url_path of
                   (_, None) \<Rightarrow> Return (c, resp (fst (armor_Close wr enc)))
                 | (clientID, Some payload) \<Rightarrow>
                     run_bind (queue_packets env 0 c clientID (fst (ReadData_all (eof_reader payload)))) (\<lambda>c.
                     run_bind (bundleLoop schs (armor_io wr) clientID 0 c enc maxPayloadLength True) (\<lambda>(c, enc).
                     Return (c, resp (fst (armor_Close wr enc))))))))"

section \<open>Requests of the client\<close>

lemma path_Split_slash: "47 \<notin> set s \<Longrightarrow> path_Split (d @ 47 # s) = (d @ [47], s)"
  by (simp add: path_Split_def Let_def takeWhile_append)

lemma urlsafe_not_slash: "urlsafe c \<Longrightarrow> c \<noteq> 47"
  by (auto simp: urlsafe_def b64val_def)

lemma encoded_no_slash: "47 \<notin> set (RawURL_EncodeToString s)"
  unfolding RawURL_EncodeToString_def using b64encode_urlsafe urlsafe_not_slash by blast

lemma decodeRequest_client:
  assumes "length clientID = 8"
  shows "decodeRequest (str ''/0'' @ breaker @ str ''/'' @ RawURL_EncodeToString (clientID @ payload)) = (clientID, Some payload)"
proof -
  let ?e = "RawURL_EncodeToString (clientID @ payload)"
  have "path_Split (breaker @ 47 # ?e) = (breaker @ [47], ?e)" by (rule path_Split_slash) (rule encoded_no_slash)
  then show ?thesis using assms by (simp add: decodeRequest_def HasPrefix_def str_def)
qed

text \<open>
  The server recovers what the client put in a URL: for a path that starts with \<^verbatim>\<open>/0\<close> and whose
  last component is the encoding of an eight-byte client ID and a payload, whatever the
  components before it are (the client puts random bytes there), the handler sees exactly that client
  ID and that payload.
\<close>

theorem decodeRequest_roundtrip:
  assumes "length clientID = 8"
  shows "decodeRequest (str ''/0'' @ breaker @ str ''/'' @ RawURL_EncodeToString (clientID @ payload)) = (clientID, Some payload)"
  by (rule decodeRequest_client [OF assms])

theorem decodeRequest_roundtrip_witness:
  "decodeRequest (str ''/0'' @ str ''x/y'' @ str ''/'' @ RawURL_EncodeToString ([1, 2, 3, 4, 5, 6, 7, 8] @ [9])) = ([1, 2, 3, 4, 5, 6, 7, 8], Some [9])"
  by (rule decodeRequest_roundtrip) simp

section \<open>The handler does not panic\<close>

lemma take_packet_ok:
  assumes "conn_ok c"
  obtains c' p where "take_packet sch c us out = Return (c', p)" "conn_ok c'"
proof -
  obtain c1 where c1: "interfere sch 2 c = Return c1" "conn_ok c1" by (rule interfere_ok [OF assms])
  obtain c2 where c2: "interfere sch 3 c1 = Return c2" "conn_ok c2" by (rule interfere_ok [OF c1(2)])
  obtain c3 where c3: "interfere sch 4 c2 = Return c3" "conn_ok c3" by (rule interfere_ok [OF c2(2)])
  have "\<exists>c' p. take_packet sch c us out = Return (c', p) \<and> conn_ok c'"
    using c1 c2 c3 recv_case_ok [OF c1(2), of us] recv_either_ok [OF c2(2), of "pick sch 0" us out]
      recv_either_ok [OF c3(2), of "pick sch 2" us out]
    by (auto simp: take_packet_def split: option.splits)
  then show ?thesis using that by blast
qed

lemma bundle_round_ok:
  assumes "conn_ok c"
  obtains c' w' limit' b where "bundle_round sch wr a c w limit first = Return (c', w', limit', b)" "conn_ok c'"
proof -
  obtain c1 where c1: "interfere sch 0 c = Return c1" "conn_ok c1" by (rule interfere_ok [OF assms])
  obtain c2 us where c2: "ConnUnstash c1 a (clock sch 0) = Return (c2, us)" "conn_ok c2" by (rule ConnUnstash_ok [OF c1(2)])
  obtain c3 where c3: "interfere sch 1 c2 = Return c3" "conn_ok c3" by (rule interfere_ok [OF c2(2)])
  obtain c4 out where c4: "OutgoingQueue c3 a (clock sch 1) = Return (c4, out)" "conn_ok c4" by (rule OutgoingQueue_ok [OF c3(2)])
  obtain c5 p where c5: "take_packet sch c4 us out = Return (c5, p)" "conn_ok c5" by (rule take_packet_ok [OF c4(2)])
  obtain c6 where c6: "interfere sch 5 c5 = Return c6" "conn_ok c6" by (rule interfere_ok [OF c5(2)])
  obtain c7 b where c7: "ConnStash c6 p a (clock sch 2) = Return (c7, b)" "conn_ok c7" by (rule ConnStash_ok [OF c6(2)])
  have "\<exists>c' w' limit' b. bundle_round sch wr a c w limit first = Return (c', w', limit', b) \<and> conn_ok c'"
    using c1 c2 c3 c4 c5 c6 c7 by (auto simp: bundle_round_def Let_def split: prod.splits option.splits)
  then show ?thesis using that by blast
qed

lemma bundle_ok: "conn_ok c \<Longrightarrow> \<exists>c' w'. bundleLoop schs wr a k c w limit first = Return (c', w') \<and> conn_ok c'"
proof (induction schs wr a k c w limit first rule: bundleLoop.induct)
  case (1 schs wr a k c w limit first)
  obtain c' w' limit' b where r: "bundle_round (schs k) wr a c w limit first = Return (c', w', limit', b)" "conn_ok c'"
    by (rule bundle_round_ok [OF 1(2)])
  show ?case using 1(1) [of "(c', w', limit', b)"] r by (subst bundleLoop.simps) auto
qed

lemma queue_packets_ok: "conn_ok c \<Longrightarrow> \<exists>c'. queue_packets env i c a ps = Return c' \<and> conn_ok c'"
proof (induction ps arbitrary: i c)
  case (Cons p ps)
  obtain c1 d where c1: "conn_run c (env i) = Return (c1, d)" "conn_ok c1"
    using conn_run_ok [OF Cons.prems, of "env i"] by blast
  then show ?case using Cons.IH [OF QueueIncoming_ok [OF c1(2)]] by simp
qed simp

lemma ServeHTTP_returns:
  assumes "conn_ok c"
  shows "\<exists>c' resp. ServeHTTP env schs wr meth url_path c w = Return (c', resp) \<and> conn_ok c' \<and>
    status resp = (if meth = ''GET'' then 200 else 400) \<and>
    (meth = ''GET'' \<longrightarrow> map_of (headers resp) ''Cache-Control'' = Some ''max-age=15'')"
proof (cases "meth = ''GET''")
  case False
  then show ?thesis using assms by (simp add: ServeHTTP_def)
next
  case True
  obtain w1 e where n: "NewEncoder wr w = (w1, e)" by force
  obtain a p where d: "decodeRequest url_path = (a, p)" by force
  show ?thesis
  proof (cases e)
    case (Inl x)
    then show ?thesis using assms True n by (simp add: ServeHTTP_def)
  next
    case (Inr enc)
    show ?thesis
    proof (cases p)
      case None
      then show ?thesis using assms True n d Inr by (simp add: ServeHTTP_def)
    next
      case (Some payload)
      obtain c1 where c1: "queue_packets env 0 c a (fst (ReadData_all (eof_reader payload))) = Return c1" "conn_ok c1"
        using queue_packets_ok [OF assms] by blast
      obtain c2 enc' where "bundleLoop schs (armor_io wr) a 0 c1 enc maxPayloadLength True = Return (c2, enc')" "conn_ok c2"
        using bundle_ok [OF c1(2), of schs "armor_io wr" a 0 enc maxPayloadLength True] by blast
      then show ?thesis using True n d Inr Some c1 by (simp add: ServeHTTP_def)
    qed
  qed
qed

text \<open>
  C11: The handler always answers: on any request, with any writer and whatever other goroutines do
  to the connection meanwhile, it returns without a panic, with status 200 for a GET request and 400
  for any other, and leaves the connection consistent.
\<close>

theorem ServeHTTP_total:
  assumes "conn_ok c"
  shows "\<exists>c' resp. ServeHTTP env schs wr meth url_path c w = Return (c', resp) \<and> conn_ok c' \<and>
    status resp = (if meth = ''GET'' then 200 else 400) \<and>
    (meth = ''GET'' \<longrightarrow> map_of (headers resp) ''Cache-Control'' = Some ''max-age=15'')"
  using assms by (rule ServeHTTP_returns)

lemma ServeHTTP_total_witness:
  "\<exists>c' resp. ServeHTTP (\<lambda>_. []) (\<lambda>_. \<lparr>others = (\<lambda>_. []), clock = (\<lambda>_. 1), pick = (\<lambda>_. True)\<rparr>) buffer_Write ''GET'' (str ''/0'')
      (NewQueuePacketConn []) [] = Return (c', resp) \<and> status resp = 200"
  using ServeHTTP_total [OF NewQueuePacketConn_ok, of "\<lambda>_. []" "\<lambda>_. \<lparr>others = (\<lambda>_. []), clock = (\<lambda>_. 1), pick = (\<lambda>_. True)\<rparr>"
      buffer_Write "''GET''" "str ''/0''" "[]" "[]"] by auto

text \<open>Undisturbed, the handler leaves an open connection open.\<close>

lemma take_packet_closed: "quiet sch \<Longrightarrow> take_packet sch c us out = Return (c', p) \<Longrightarrow> closed c' = closed c"
  by (auto simp: take_packet_def interfere_quiet split: option.splits if_splits dest: recv_closed)

lemma bundle_round_closed:
  assumes "quiet sch" and "bundle_round sch wr a c w limit first = Return (c', r)"
  shows "closed c' = closed c"
  using assms by (auto simp: bundle_round_def run_bind_Return Let_def split: prod.splits option.splits if_splits
      dest!: remotes_only_closed take_packet_closed [OF assms(1)])

lemma bundleLoop_closed:
  assumes "\<forall>k. quiet (schs k)"
  shows "bundleLoop schs wr a k c w limit first = Return (c', w') \<Longrightarrow> closed c' = closed c"
  using assms
proof (induction schs wr a k c w limit first rule: bundleLoop.induct)
  case (1 schs wr a k c w limit first)
  obtain d v l b where r: "bundle_round (schs k) wr a c w limit first = Return (d, v, l, b)"
    and l: "(if b then bundleLoop schs wr a (Suc k) d v l False else Return (d, v)) = Return (c', w')"
    using 1(2) unfolding bundleLoop.simps [of schs wr a k] by (auto split: run.splits)
  have "closed d = closed c" using 1(3) r by (intro bundle_round_closed [of "schs k"]) auto
  moreover have "closed c' = closed d" using 1(1) [OF r refl refl refl _ _ 1(3)] l by (cases b) auto
  ultimately show ?case by simp
qed

lemma queue_packets_closed: "queue_packets (\<lambda>_. []) i c a ps = Return c' \<Longrightarrow> closed c' = closed c"
  by (induction ps arbitrary: i c) auto

lemma ServeHTTP_closed:
  assumes "\<forall>k. quiet (schs k)" and "ServeHTTP (\<lambda>_. []) schs wr meth url_path c w = Return (c', resp)"
  shows "closed c' = closed c"
  using assms by (auto simp: ServeHTTP_def Let_def run_bind_Return split: if_splits prod.splits sum.splits option.splits
      dest!: bundleLoop_closed queue_packets_closed)

lemma ServeHTTP_conn_ok: "conn_ok c \<Longrightarrow> ServeHTTP env schs wr meth url_path c w = Return (c', resp) \<Longrightarrow> conn_ok c'"
  using ServeHTTP_returns [of c env schs wr meth url_path w] by auto

section \<open>What goes into a response\<close>

text \<open>
  The specification of bundling, on the list of the packets that wait: the packets that are sent, the
  one that is put back to be the first of the next response, and those that stay in the queue.
\<close>

fun bundled :: "bool \<Rightarrow> int \<Rightarrow> bytes list \<Rightarrow> bytes list \<times> bytes list \<times> bytes list" where
  "bundled first limit [] = ([], [], [])"
| "bundled first limit (p # ps) =
     (if p = [] then ([], [], ps)
      else if \<not> first \<and> limit < int (length p) then ([], [p], ps)
      else (let (sent, held, rest) = bundled False (limit - int (length p)) ps in (p # sent, held, rest)))"

text \<open>Writing packets one after the other, up to the first error.\<close>

fun write_packets :: "'w io_write \<Rightarrow> 'w \<Rightarrow> bytes list \<Rightarrow> 'w \<times> goerror option" where
  "write_packets wr w [] = (w, None)"
| "write_packets wr w (p # ps) =
     (case WriteData wr w p of
        (w', _, Some e) \<Rightarrow> (w', Some e)
      | (w', _, None) \<Rightarrow> write_packets wr w' ps)"

lemma take_packet_quiet:
  assumes "quiet sch" and "conn_ok c" and "refs_of c a us out"
  obtains (stash) c' p ps where "stashed c a = p # ps" "take_packet sch c us out = Return (c', p)" "conn_ok c'"
      "stashed c' = (stashed c)(a := ps)" "outgoing c' = outgoing c" "recvQueue c' = recvQueue c"
  | (queue) c' p ps where "stashed c a = []" "outgoing c a = p # ps" "take_packet sch c us out = Return (c', p)" "conn_ok c'"
      "stashed c' = stashed c" "outgoing c' = (outgoing c)(a := ps)" "recvQueue c' = recvQueue c"
  | (timer) "stashed c a = []" "outgoing c a = []" "take_packet sch c us out = Return (c, [])"
proof (cases "stashed c a")
  case (Cons p ps)
  from assms(2,3) Cons obtain c' where "recv_case c us = Some (c', p)" "conn_ok c'" "stashed c' = (stashed c)(a := ps)"
    "outgoing c' = outgoing c" "recvQueue c' = recvQueue c" by (rule take_stashed)
  then show ?thesis using Cons assms(1) by (intro stash [of p ps c']) (simp_all add: take_packet_def)
next
  case Nil
  then have n: "recv_case c us = None" using recv_case_stash [OF assms(2,3)] by simp
  show ?thesis
  proof (cases "outgoing c a")
    case (Cons p ps)
    from assms(2,3) Cons obtain c' where "recv_case c out = Some (c', p)" "conn_ok c'" "outgoing c' = (outgoing c)(a := ps)"
      "stashed c' = stashed c" "recvQueue c' = recvQueue c" by (rule take_queued)
    then show ?thesis
      using Nil Cons n assms(1) by (intro queue [of p ps c']) (auto simp: take_packet_def recv_either_def)
  next
    case outNil: Nil
    then have "recv_case c out = None" using recv_case_queue [OF assms(2,3)] by simp
    then show ?thesis using Nil outNil n assms(1) by (intro timer) (auto simp: take_packet_def recv_either_def)
  qed
qed

lemma bundle_round_quiet:
  assumes "quiet sch" and "conn_ok c"
  obtains c2 us out where "conn_ok c2" "same_packets c c2" "refs_of c2 a us out"
    "bundle_round sch wr a c w limit first =
       run_bind (take_packet sch c2 us out) (\<lambda>(c, p).
         if length p = 0 then Return (c, w, limit, False)
         else if \<not> first \<and> limit < int (length p)
         then run_bind (ConnStash c p a (clock sch 2)) (\<lambda>(c, _). Return (c, w, limit - int (length p), False))
         else (case WriteData wr w p of
                 (w, _, Some e) \<Rightarrow> Return (c, w, limit - int (length p), False)
               | (w, _, None) \<Rightarrow> Return (c, w, limit - int (length p), True)))"
proof -
  obtain c1 c2 us out where q: "ConnUnstash c a (clock sch 0) = Return (c1, us)" "OutgoingQueue c1 a (clock sch 1) = Return (c2, out)"
    "conn_ok c2" "same_packets c c2" "refs_of c2 a us out" by (rule both_queues [OF assms(2)])
  obtain c3 p where "take_packet sch c2 us out = Return (c3, p)" by (rule take_packet_ok [OF q(3)])
  then show ?thesis using q assms(1) by (intro that [OF q(3-5)]) (simp add: bundle_round_def Let_def)
qed

text \<open>After the first packet the stash is empty, and the rest comes from the queue.\<close>

text \<open>A round after the first, when nothing is stashed: what it does with the first packet of the queue, if there is one.\<close>

lemma round_empty:
  assumes "quiet sch" and "conn_ok c" and "stashed c a = []" and "outgoing c a = []"
  obtains c' where "bundle_round sch wr a c w limit False = Return (c', w, limit, False)" "conn_ok c'" "same_packets c c'"
proof (rule bundle_round_quiet [OF assms(1,2), where first = False and a = a and wr = wr and w = w and limit = limit])
  fix c2 us out
  assume r: "conn_ok c2" "same_packets c c2" "refs_of c2 a us out"
    "bundle_round sch wr a c w limit False = run_bind (take_packet sch c2 us out) (\<lambda>(c, p).
         if length p = 0 then Return (c, w, limit, False)
         else if \<not> False \<and> limit < int (length p)
         then run_bind (ConnStash c p a (clock sch 2)) (\<lambda>(c, _). Return (c, w, limit - int (length p), False))
         else (case WriteData wr w p of
                 (w, _, Some e) \<Rightarrow> Return (c, w, limit - int (length p), False)
               | (w, _, None) \<Rightarrow> Return (c, w, limit - int (length p), True)))"
  have "take_packet sch c2 us out = Return (c2, [])"
    by (rule take_packet_quiet [OF assms(1) r(1,3)]) (use assms(3,4) r(2) in \<open>simp_all add: same_packets_def\<close>)
  then show thesis using that [of c2] r by simp
qed

lemma round_packet:
  assumes "quiet sch" and "conn_ok c" and "stashed c a = []" and "outgoing c a = p # ps"
  obtains c' where "bundle_round sch wr a c w limit False =
       (if p = [] then Return (c', w, limit, False)
        else if limit < int (length p)
        then run_bind (ConnStash c' p a (clock sch 2)) (\<lambda>(c, _). Return (c, w, limit - int (length p), False))
        else (case WriteData wr w p of
                (w, _, Some e) \<Rightarrow> Return (c', w, limit - int (length p), False)
              | (w, _, None) \<Rightarrow> Return (c', w, limit - int (length p), True)))"
    "conn_ok c'" "stashed c' = stashed c" "outgoing c' = (outgoing c)(a := ps)" "recvQueue c' = recvQueue c"
proof (rule bundle_round_quiet [OF assms(1,2), where first = False and a = a and wr = wr and w = w and limit = limit])
  fix c2 us out
  assume r: "conn_ok c2" "same_packets c c2" "refs_of c2 a us out"
    "bundle_round sch wr a c w limit False = run_bind (take_packet sch c2 us out) (\<lambda>(c, p).
         if length p = 0 then Return (c, w, limit, False)
         else if \<not> False \<and> limit < int (length p)
         then run_bind (ConnStash c p a (clock sch 2)) (\<lambda>(c, _). Return (c, w, limit - int (length p), False))
         else (case WriteData wr w p of
                 (w, _, Some e) \<Rightarrow> Return (c, w, limit - int (length p), False)
               | (w, _, None) \<Rightarrow> Return (c, w, limit - int (length p), True)))"
  have e: "stashed c2 = stashed c" "outgoing c2 = outgoing c" "recvQueue c2 = recvQueue c" using r(2) by (simp_all add: same_packets_def)
  obtain c3 where "take_packet sch c2 us out = Return (c3, p)" "conn_ok c3" "stashed c3 = stashed c"
    "outgoing c3 = (outgoing c)(a := ps)" "recvQueue c3 = recvQueue c"
    by (rule take_packet_quiet [OF assms(1) r(1,3)]) (use e assms(3,4) in auto)
  then show thesis using that [of c3] r(4) by simp
qed

lemma bundle_rest:
  assumes "\<forall>k. quiet (schs k)"
  shows "conn_ok c \<Longrightarrow> stashed c a = [] \<Longrightarrow> outgoing c a = ps \<Longrightarrow> bundled False limit ps = (sent, held, rest) \<Longrightarrow>
    write_packets wr w sent = (w', None) \<Longrightarrow>
    \<exists>c'. bundleLoop schs wr a k c w limit False = Return (c', w') \<and> conn_ok c' \<and>
      stashed c' = (stashed c)(a := held) \<and> outgoing c' = (outgoing c)(a := rest) \<and> recvQueue c' = recvQueue c"
proof (induction ps arbitrary: c k w limit sent)
  case Nil
  obtain c2 where r: "bundle_round (schs k) wr a c w limit False = Return (c2, w, limit, False)" "conn_ok c2" "same_packets c c2"
    by (rule round_empty [OF assms [rule_format] Nil.prems(1-3)])
  have "bundleLoop schs wr a k c w limit False = Return (c2, w)" by (subst bundleLoop.simps) (simp add: r(1))
  then show ?case using r(2,3) Nil.prems by (auto simp: same_packets_def fun_upd_idem)
next
  case (Cons p ps)
  obtain c3 where r: "bundle_round (schs k) wr a c w limit False =
       (if p = [] then Return (c3, w, limit, False)
        else if limit < int (length p)
        then run_bind (ConnStash c3 p a (clock (schs k) 2)) (\<lambda>(c, _). Return (c, w, limit - int (length p), False))
        else (case WriteData wr w p of
                (w, _, Some e) \<Rightarrow> Return (c3, w, limit - int (length p), False)
              | (w, _, None) \<Rightarrow> Return (c3, w, limit - int (length p), True)))"
    and t: "conn_ok c3" "stashed c3 = stashed c" "outgoing c3 = (outgoing c)(a := ps)" "recvQueue c3 = recvQueue c"
    by (rule round_packet [OF assms [rule_format] Cons.prems(1-3)])
  have e: "stashed c3 a = []" "outgoing c3 a = ps" "stashed c = (stashed c)(a := [])" using t Cons.prems(2) by (simp_all add: fun_upd_idem)
  consider "p = []" | "p \<noteq> []" "limit < int (length p)" | "p \<noteq> []" "\<not> limit < int (length p)" by blast
  then show ?case
  proof cases
    case 1
    then have "bundleLoop schs wr a k c w limit False = Return (c3, w)" by (subst bundleLoop.simps) (simp add: r)
    with 1 Cons.prems t e(3) show ?thesis by auto
  next
    case 2
    from t(1) e(1) obtain c4 where c4: "ConnStash c3 p a (clock (schs k) 2) = Return (c4, True)" "conn_ok c4"
      "stashed c4 = (stashed c3)(a := [p])" "outgoing c4 = outgoing c3" "recvQueue c4 = recvQueue c3" by (rule ConnStash_empty)
    have "bundleLoop schs wr a k c w limit False = Return (c4, w)" using 2 by (subst bundleLoop.simps) (simp add: r c4)
    with 2 Cons.prems t c4 show ?thesis by auto
  next
    case 3
    obtain sent1 where s: "bundled False (limit - int (length p)) ps = (sent1, held, rest)" "sent = p # sent1"
      using 3 Cons.prems(4) by (auto simp: Let_def split: prod.splits)
    obtain w1 n where w1: "WriteData wr w p = (w1, n, None)" "write_packets wr w1 sent1 = (w', None)"
      using Cons.prems(5) s(2) by (auto split: prod.splits option.splits)
    from Cons.IH [OF t(1) e(1,2) s(1) w1(2), of "Suc k"] obtain c' where
      c': "bundleLoop schs wr a (Suc k) c3 w1 (limit - int (length p)) False = Return (c', w')" "conn_ok c'"
      "stashed c' = (stashed c3)(a := held)" "outgoing c' = (outgoing c3)(a := rest)" "recvQueue c' = recvQueue c3" by blast
    have "bundleLoop schs wr a k c w limit False = Return (c', w')" using 3 by (subst bundleLoop.simps) (simp add: r w1 c')
    with c' t show ?thesis by auto
  qed
qed

text \<open>The whole loop: the stashed packet, if there is one, is the first of the list.\<close>

lemma take_first:
  assumes "quiet sch" and "conn_ok c" and "refs_of c a us out" and "stashed c a @ outgoing c a = p # ps"
  obtains c' where "take_packet sch c us out = Return (c', p)" "conn_ok c'" "stashed c' = (stashed c)(a := [])"
    "outgoing c' = (outgoing c)(a := ps)" "recvQueue c' = recvQueue c"
proof (rule take_packet_quiet [OF assms(1-3)], goal_cases)
  case (1 c' q qs)
  then have "stashed c a = q # qs" by blast
  then have "qs = []" using stashed_one [OF assms(2), of a] by simp
  with 1 assms(4) show ?thesis by (intro that [of c']) auto
next
  case (2 c' q qs)
  with assms(4) show ?thesis by (intro that [of c']) (auto simp: fun_upd_idem)
qed (use assms(4) in simp)

lemma bundle_all:
  assumes "\<forall>k. quiet (schs k)" and "conn_ok c"
    and "bundled True limit (stashed c a @ outgoing c a) = (sent, held, rest)"
    and "write_packets wr w sent = (w', None)"
  shows "\<exists>c'. bundleLoop schs wr a k c w limit True = Return (c', w') \<and> conn_ok c' \<and>
      stashed c' = (stashed c)(a := held) \<and> outgoing c' = (outgoing c)(a := rest) \<and> recvQueue c' = recvQueue c"
proof -
  obtain c2 us out where r: "conn_ok c2" "same_packets c c2" "refs_of c2 a us out"
    "bundle_round (schs k) wr a c w limit True = run_bind (take_packet (schs k) c2 us out) (\<lambda>(c, p).
         if length p = 0 then Return (c, w, limit, False)
         else if \<not> True \<and> limit < int (length p)
         then run_bind (ConnStash c p a (clock (schs k) 2)) (\<lambda>(c, _). Return (c, w, limit - int (length p), False))
         else (case WriteData wr w p of
                 (w, _, Some e) \<Rightarrow> Return (c, w, limit - int (length p), False)
               | (w, _, None) \<Rightarrow> Return (c, w, limit - int (length p), True)))"
    by (rule bundle_round_quiet [OF assms(1) [rule_format] assms(2), where first = True])
  have e: "stashed c2 = stashed c" "outgoing c2 = outgoing c" "recvQueue c2 = recvQueue c" using r(2) by (simp_all add: same_packets_def)
  note q = assms(1) [rule_format, of k]
  show ?thesis
  proof (cases "stashed c a @ outgoing c a")
    case Nil
    then have n: "stashed c2 a = []" "outgoing c2 a = []" using e by simp_all
    have t: "take_packet (schs k) c2 us out = Return (c2, [])"
      by (rule take_packet_quiet [OF q r(1,3)]) (use n in simp_all)
    have "bundleLoop schs wr a k c w limit True = Return (c2, w)" by (subst bundleLoop.simps) (simp add: r(4) t)
    then show ?thesis using r(1) assms(3,4) Nil n e by (auto simp: fun_upd_idem)
  next
    case (Cons p ps)
    obtain c3 where t: "take_packet (schs k) c2 us out = Return (c3, p)" "conn_ok c3" "stashed c3 = (stashed c)(a := [])"
      "outgoing c3 = (outgoing c)(a := ps)" "recvQueue c3 = recvQueue c"
      by (rule take_first [OF q r(1,3)]) (use e Cons in auto)
    show ?thesis
    proof (cases "p = []")
      case True
      then have "bundleLoop schs wr a k c w limit True = Return (c3, w)" by (subst bundleLoop.simps) (simp add: r(4) t)
      with True Cons assms(3,4) t show ?thesis by auto
    next
      case False
      obtain sent1 where s: "bundled False (limit - int (length p)) ps = (sent1, held, rest)" "sent = p # sent1"
        using False assms(3) by (auto simp: Cons Let_def split: prod.splits)
      obtain w1 n where w1: "WriteData wr w p = (w1, n, None)" "write_packets wr w1 sent1 = (w', None)"
        using assms(4) s(2) by (auto split: prod.splits option.splits)
      have "stashed c3 a = []" "outgoing c3 a = ps" using t by simp_all
      from bundle_rest [OF assms(1) t(2) this s(1) w1(2), of "Suc k"] obtain c' where
        c': "bundleLoop schs wr a (Suc k) c3 w1 (limit - int (length p)) False = Return (c', w')" "conn_ok c'"
        "stashed c' = (stashed c3)(a := held)" "outgoing c' = (outgoing c3)(a := rest)" "recvQueue c' = recvQueue c3" by blast
      have "bundleLoop schs wr a k c w limit True = Return (c', w')" using False by (subst bundleLoop.simps) (simp add: r(4) t w1 c')
      with c' t show ?thesis by auto
    qed
  qed
qed

section \<open>Pages\<close>

text \<open>Writing packets to the armor encoder is writing their prefixes and their data.\<close>

definition packet_pieces :: "bytes \<Rightarrow> bytes list" where
  "packet_pieces p = (case dataPrefixForLength (int (length p)) of Inl _ \<Rightarrow> [] | Inr pre \<Rightarrow> [pre, p])"

lemma packet_pieces_chunk: "concat (packet_pieces p) = data_chunk p"
  by (simp add: packet_pieces_def data_chunk_def split: sum.splits)

lemma armor_writes_append:
  "armor_writes wr enc (ps @ qs) = (case armor_writes wr enc ps of (enc', None) \<Rightarrow> armor_writes wr enc' qs | r \<Rightarrow> r)"
  by (induction ps arbitrary: enc) (auto split: prod.splits option.splits)

lemma WriteData_armor:
  assumes "length p < 2 ^ 20"
  shows "\<exists>n. WriteData (armor_io wr) enc p = (fst (armor_writes wr enc (packet_pieces p)), n, snd (armor_writes wr enc (packet_pieces p)))"
proof -
  obtain pre where "dataPrefixForLength (int (length p)) = Inr pre" using data_chunk_prefix [OF assms] by metis
  then show ?thesis by (auto simp: WriteData_def packet_pieces_def armor_io_def split: prod.splits option.splits)
qed

lemma write_packets_armor:
  assumes "\<forall>p \<in> set ps. length p < 2 ^ 20"
  shows "write_packets (armor_io wr) enc ps = armor_writes wr enc (concat (map packet_pieces ps))"
  using assms
proof (induction ps arbitrary: enc)
  case (Cons p ps)
  obtain n where "WriteData (armor_io wr) enc p = (fst (armor_writes wr enc (packet_pieces p)), n, snd (armor_writes wr enc (packet_pieces p)))"
    using WriteData_armor [of p wr enc] Cons.prems by auto
  with Cons show ?case by (auto simp: armor_writes_append split: prod.splits option.splits)
qed simp

lemma bundled_lengths: "bundled first limit ps = (sent, held, rest) \<Longrightarrow> set sent \<subseteq> set ps"
  by (induction first limit ps arbitrary: sent rule: bundled.induct) (auto simp: Let_def split: if_splits prod.splits)

lemma ServeHTTP_page:
  assumes "conn_ok c" and "\<forall>k. quiet (schs k)" and "decodeRequest url_path = (a, Some payload)"
    and "\<forall>p \<in> set (stashed c a @ outgoing c a). length p < 2 ^ 20"
    and "bundled True 5000 (stashed c a @ outgoing c a) = (sent, held, rest)"
  shows "\<exists>c' resp. ServeHTTP (\<lambda>_. []) schs buffer_Write ''GET'' url_path c [] = Return (c', resp) \<and>
     status resp = 200 \<and>
     armor_page buffer_Write [] (concat (map packet_pieces sent)) = (body resp, None) \<and>
     stashed c' = (stashed c)(a := held) \<and> outgoing c' = (outgoing c)(a := rest) \<and>
     recvQueue c' = recvQueue (foldl (\<lambda>c p. QueueIncoming c p a) c (fst (ReadData_all (eof_reader payload))))"
proof -
  let ?ps = "fst (ReadData_all (eof_reader payload))"
  define c1 where "c1 = foldl (\<lambda>c p. QueueIncoming c p a) c ?ps"
  have fold: "conn_ok d \<Longrightarrow> conn_ok (foldl (\<lambda>c p. QueueIncoming c p a) d ps) \<and>
      stashed (foldl (\<lambda>c p. QueueIncoming c p a) d ps) = stashed d \<and> outgoing (foldl (\<lambda>c p. QueueIncoming c p a) d ps) = outgoing d" for d ps
    by (induction ps arbitrary: d) (simp_all add: QueueIncoming_ok)
  have qp: "queue_packets (\<lambda>_. []) i d a ps = Return (foldl (\<lambda>c p. QueueIncoming c p a) d ps)" for i d ps
    by (induction ps arbitrary: i d) simp_all
  obtain out where out: "armor_page buffer_Write [] (concat (map packet_pieces sent)) = (out, None)"
    using armor_page_buffer by blast
  then obtain w1 enc enc' where n: "NewEncoder buffer_Write [] = (w1, Inr enc)"
    "armor_writes buffer_Write enc (concat (map packet_pieces sent)) = (enc', None)" "armor_Close buffer_Write enc' = (out, None)"
    by (auto simp: armor_page_def split: prod.splits sum.splits option.splits)
  have c1: "conn_ok c1" "stashed c1 = stashed c" "outgoing c1 = outgoing c" using fold [OF assms(1), of ?ps] by (simp_all add: c1_def)
  have "write_packets (armor_io buffer_Write) enc sent = (enc', None)"
    using n(2) assms(4) bundled_lengths [OF assms(5)] by (subst write_packets_armor) auto
  with bundle_all [OF assms(2) c1(1), of maxPayloadLength a sent held rest "armor_io buffer_Write" enc enc' 0] assms(5) c1
  obtain c' where "bundleLoop schs (armor_io buffer_Write) a 0 c1 enc maxPayloadLength True = Return (c', enc')"
    "stashed c' = (stashed c)(a := held)" "outgoing c' = (outgoing c)(a := rest)" "recvQueue c' = recvQueue c1"
    by (auto simp: maxPayloadLength_def)
  then show ?thesis using n out assms(3) by (simp add: ServeHTTP_def qp flip: c1_def)
qed

text \<open>
  C10: The answer to a GET request carries exactly what it should. Undisturbed, on a request for
  client \<open>a\<close> the handler first queues the packets of the request; the page it writes is the armor
  of the encapsulation of the longest prefix of the packets that wait for \<open>a\<close> (the stashed one first) that fits
  5000 bytes (and always of the first packet); the packet that did not fit is stashed, the rest stays
  queued, and nothing that waits for another client is touched.
\<close>

theorem ServeHTTP_bundles:
  assumes "conn_ok c" and "\<forall>k. quiet (schs k)" and "decodeRequest url_path = (a, Some payload)"
    and "\<forall>p \<in> set (stashed c a @ outgoing c a). length p < 2 ^ 20"
    and "bundled True 5000 (stashed c a @ outgoing c a) = (sent, held, rest)"
  shows "\<exists>c' resp. ServeHTTP (\<lambda>_. []) schs buffer_Write ''GET'' url_path c [] = Return (c', resp) \<and>
     status resp = 200 \<and>
     armor_page buffer_Write [] (concat (map packet_pieces sent)) = (body resp, None) \<and>
     stashed c' = (stashed c)(a := held) \<and> outgoing c' = (outgoing c)(a := rest) \<and>
     recvQueue c' = recvQueue (foldl (\<lambda>c p. QueueIncoming c p a) c (fst (ReadData_all (eof_reader payload))))"
  using assms by (rule ServeHTTP_page)

theorem ServeHTTP_bundles_witness:
  "\<exists>c' resp. ServeHTTP (\<lambda>_. []) (\<lambda>_. \<lparr>others = (\<lambda>_. []), clock = (\<lambda>_. 1), pick = (\<lambda>_. True)\<rparr>) buffer_Write ''GET''
      (str ''/0'' @ [] @ str ''/'' @ RawURL_EncodeToString (replicate 8 7 @ [])) (NewQueuePacketConn []) [] = Return (c', resp) \<and>
     status resp = 200 \<and> armor_page buffer_Write [] [] = (body resp, None)"
proof -
  have e: "stashed (NewQueuePacketConn x) y = []" "outgoing (NewQueuePacketConn x) y = []" for x y :: ClientID
    by (simp_all add: stashed_def outgoing_def NewQueuePacketConn_def peers_def NewRemoteMap_def)
  have d: "decodeRequest (str ''/0'' @ [] @ str ''/'' @ RawURL_EncodeToString (replicate 8 7 @ [])) = (replicate 8 7, Some [])"
    by (rule decodeRequest_client) simp
  show ?thesis
    using ServeHTTP_bundles [OF NewQueuePacketConn_ok _ d, of "\<lambda>_. \<lparr>others = (\<lambda>_. []), clock = (\<lambda>_. 1), pick = (\<lambda>_. True)\<rparr>" "[]" "[]" "[]" "[]"]
    by (auto simp: e quiet_def)
qed

text \<open>
  Bundling loses nothing: unless one of the waiting packets is empty (which ends a response), the packets sent, the one put
  back and the ones left over are the waiting packets in their order; several packets are only sent
  together if they fit the limit, and one is put back only because it does not.
\<close>

theorem bundled_complete:
  assumes "[] \<notin> set ps" and "bundled True limit ps = (sent, held, rest)"
  shows "ps = sent @ held @ rest \<and> (ps \<noteq> [] \<longrightarrow> sent \<noteq> []) \<and>
    (length sent > 1 \<longrightarrow> int (length (concat sent)) \<le> limit) \<and>
    (held \<noteq> [] \<longrightarrow> (\<exists>p. held = [p] \<and> int (length (concat sent) + length p) > limit)) \<and> (held = [] \<longrightarrow> rest = [])"
proof -
  have tail: "ps = sent @ held @ rest \<and> (sent \<noteq> [] \<longrightarrow> int (length (concat sent)) \<le> limit) \<and>
      (held \<noteq> [] \<longrightarrow> (\<exists>p. held = [p] \<and> int (length (concat sent) + length p) > limit)) \<and> (held = [] \<longrightarrow> rest = [])"
    if "[] \<notin> set ps" "bundled False limit ps = (sent, held, rest)" for limit ps sent
    using that
  proof (induction ps arbitrary: limit sent)
    case (Cons p ps)
    show ?case
    proof (cases "limit < int (length p)")
      case True
      with Cons.prems show ?thesis by auto
    next
      case False
      then obtain sent1 where s: "bundled False (limit - int (length p)) ps = (sent1, held, rest)" "sent = p # sent1"
        using Cons.prems by (auto simp: Let_def split: prod.splits)
      from Cons.IH [OF _ s(1)] Cons.prems(1) s(2) False show ?thesis by auto
    qed
  qed simp
  show ?thesis
  proof (cases ps)
    case Nil
    with assms show ?thesis by auto
  next
    case (Cons p qs)
    then obtain sent1 where s: "bundled False (limit - int (length p)) qs = (sent1, held, rest)" "sent = p # sent1"
      using assms by (auto simp: Let_def split: prod.splits)
    have "[] \<notin> set qs" using assms(1) Cons by simp
    from tail [OF this s(1)] s(2) Cons show ?thesis by auto
  qed
qed

theorem bundled_complete_witness:
  "bundled True 3 [[1, 2], [3], [4, 5], [6]] = ([[1, 2], [3]], [[4, 5]], [[6]]) \<and>
   [[1, 2], [3], [4, 5], [6 :: byte]] = [[1, 2], [3]] @ [[4, 5]] @ [[6]]"
proof
  show b: "bundled True 3 [[1, 2], [3], [4, 5], [6]] = ([[1, 2], [3]], [[4, 5]], [[6]])" by simp
  show "[[1, 2], [3], [4, 5], [6 :: byte]] = [[1, 2], [3]] @ [[4, 5]] @ [[6]]"
    using bundled_complete [OF _ b] by simp
qed

end
