(* ===== verification/Net_Url.thy ===== *)
theory Net_Url
  imports Base64
begin

text \<open>
  What champa-client/amp.go and amp/cache.go use of Go's standard library on the way from a payload to a
  request URL: parts of \<^verbatim>\<open>net/url\<close>, \<^verbatim>\<open>path\<close>, \<^verbatim>\<open>net\<close> and \<^verbatim>\<open>strings\<close>, base32 without padding, and
  SHA-256. A \<^verbatim>\<open>url.URL\<close> is a record with the fields the program reads or sets.
\<close>

section \<open>Strings\<close>

definition ReplaceAll :: "bytes \<Rightarrow> byte \<Rightarrow> bytes \<Rightarrow> bytes" where
  "ReplaceAll s old new = concat (map (\<lambda>c. if c = old then new else [c]) s)"

fun joinWith :: "bytes \<Rightarrow> bytes list \<Rightarrow> bytes" where
  "joinWith sep [] = []"
| "joinWith sep [x] = x"
| "joinWith sep (x # y # xs) = x @ sep @ joinWith sep (y # xs)"

text \<open>The parts of a string between the occurrences of a separator.\<close>

fun splitOn :: "byte \<Rightarrow> bytes \<Rightarrow> bytes list" where
  "splitOn sep [] = [[]]"
| "splitOn sep (c # s) =
     (if c = sep then [] # splitOn sep s
      else (case splitOn sep s of p # ps \<Rightarrow> (c # p) # ps | [] \<Rightarrow> [[c]]))"

text \<open>The last index of a byte, or -1.\<close>

definition LastIndexByte :: "bytes \<Rightarrow> byte \<Rightarrow> int" where
  "LastIndexByte s c = int (length s) - 1 - int (length (takeWhile (\<lambda>b. b \<noteq> c) (rev s)))"

section \<open>Percent-encoding\<close>

datatype encoding = encodePath | encodePathSegment

definition isUnreserved :: "byte \<Rightarrow> bool" where
  "isUnreserved c \<longleftrightarrow>
     (let n = unat c in 97 \<le> n \<and> n \<le> 122 \<or> 65 \<le> n \<and> n \<le> 90 \<or> 48 \<le> n \<and> n \<le> 57) \<or> c \<in> set (str ''-_.~'')"

definition shouldEscape :: "byte \<Rightarrow> encoding \<Rightarrow> bool" where
  "shouldEscape c mode =
     (if isUnreserved c then False
      else if c \<in> set (str ''$&+,/:;=?@'')
      then (case mode of encodePath \<Rightarrow> c = 63 | encodePathSegment \<Rightarrow> c \<in> set (str ''/;,?''))
      else True)"

definition upperhex :: "nat \<Rightarrow> byte" where
  "upperhex n = (if n < 10 then of_nat (n + 48) else of_nat (n + 55))"

definition unhex :: "byte \<Rightarrow> nat option" where
  "unhex c =
     (let n = unat c in
      if 48 \<le> n \<and> n \<le> 57 then Some (n - 48)
      else if 97 \<le> n \<and> n \<le> 102 then Some (n - 87)
      else if 65 \<le> n \<and> n \<le> 70 then Some (n - 55)
      else None)"

definition escape :: "bytes \<Rightarrow> encoding \<Rightarrow> bytes" where
  "escape s mode =
     concat (map (\<lambda>c. if shouldEscape c mode then [37, upperhex (unat c div 16), upperhex (unat c mod 16)] else [c]) s)"

text \<open>In the two path modes a plus sign and bytes outside ASCII stand for themselves.\<close>

fun unescape :: "bytes \<Rightarrow> goerror + bytes" where
  "unescape [] = Inr []"
| "unescape (c # s) =
     (if c = 37
      then (case s of
              x # y # s' \<Rightarrow>
                (case (unhex x, unhex y) of
                   (Some h, Some l) \<Rightarrow> (case unescape s' of Inl e \<Rightarrow> Inl e | Inr t \<Rightarrow> Inr (of_nat (16 * h + l) # t))
                 | _ \<Rightarrow> Inl (ErrorText ''invalid URL escape''))
            | _ \<Rightarrow> Inl (ErrorText ''invalid URL escape''))
      else (case unescape s of Inl e \<Rightarrow> Inl e | Inr t \<Rightarrow> Inr (c # t)))"

definition validEncoded :: "bytes \<Rightarrow> encoding \<Rightarrow> bool" where
  "validEncoded s mode \<longleftrightarrow> (\<forall>c \<in> set s. c \<in> set (str ''!$&()*+,;=:@[]%'') \<or> c = 39 \<or> \<not> shouldEscape c mode)"

section \<open>URLs\<close>

record url =
  Scheme :: bytes
  User :: "bytes option"
  Host :: bytes
  Path :: bytes
  RawPath :: bytes
  RawQuery :: bytes
  Fragment :: bytes
  RawFragment :: bytes

definition EscapedPath :: "url \<Rightarrow> bytes" where
  "EscapedPath u =
     (if RawPath u \<noteq> [] \<and> validEncoded (RawPath u) encodePath \<and> unescape (RawPath u) = Inr (Path u) then RawPath u
      else if Path u = str ''*'' then str ''*''
      else escape (Path u) encodePath)"

text \<open>Nothing, or a colon and digits.\<close>

definition validOptionalPort :: "bytes \<Rightarrow> bool" where
  "validOptionalPort p \<longleftrightarrow>
     (case p of [] \<Rightarrow> True | c # ds \<Rightarrow> c = 58 \<and> (\<forall>d \<in> set ds. 48 \<le> unat d \<and> unat d \<le> 57))"

definition splitHostPort :: "bytes \<Rightarrow> bytes \<times> bytes" where
  "splitHostPort hostPort =
     (let colon = LastIndexByte hostPort 58;
          (host, port) =
            (if colon \<noteq> -1 \<and> validOptionalPort (drop (nat colon) hostPort)
             then (take (nat colon) hostPort, drop (nat colon + 1) hostPort) else (hostPort, []));
          host = (if host \<noteq> [] \<and> hd host = 91 \<and> last host = 93 then butlast (tl host) else host)
      in (host, port))"

definition Hostname :: "url \<Rightarrow> bytes" where
  "Hostname u = fst (splitHostPort (Host u))"

definition Port :: "url \<Rightarrow> bytes" where
  "Port u = snd (splitHostPort (Host u))"

text \<open>\<^verbatim>\<open>net.JoinHostPort\<close>.\<close>

definition JoinHostPort :: "bytes \<Rightarrow> bytes \<Rightarrow> bytes" where
  "JoinHostPort host port =
     (if 58 \<in> set host then str ''['' @ host @ str '']:'' @ port else host @ str '':'' @ port)"

text \<open>\<^verbatim>\<open>setPath\<close>: the escaped path is only kept if it is not the default one.\<close>

definition setPath :: "url \<Rightarrow> bytes \<Rightarrow> url" where
  "setPath u p =
     (case unescape p of
        Inl e \<Rightarrow> u
      | Inr t \<Rightarrow> u\<lparr>Path := t, RawPath := (if p = escape t encodePath then [] else p)\<rparr>)"

text \<open>
  Removal of the dot segments of a path, which becomes absolute; \<open>dst\<close> is what was written after the
  first slash.
\<close>

fun resolveDots :: "bytes \<Rightarrow> bool \<Rightarrow> bytes list \<Rightarrow> bytes" where
  "resolveDots dst first [] = dst"
| "resolveDots dst first (e # es) =
     (if e = str ''.''
      then (if es = [] then dst @ [47] else resolveDots dst False es)
      else if e = str ''..''
      then (let i = LastIndexByte dst 47;
                (dst', first') = (if i = -1 then ([], True) else (take (nat i) dst, first))
            in if es = [] then dst' @ [47] else resolveDots dst' first' es)
      else resolveDots (if first then dst @ e else dst @ [47] @ e) False es)"

definition resolvePath :: "bytes \<Rightarrow> bytes \<Rightarrow> bytes" where
  "resolvePath base ref =
     (let full = (if ref = [] then base
                  else if hd ref \<noteq> 47 then take (nat (LastIndexByte base 47 + 1)) base @ ref
                  else ref)
      in if full = [] then []
         else (let r = resolveDots [] True (splitOn 47 full)
               in if r \<noteq> [] \<and> hd r = 47 then r else 47 # r))"

text \<open>\<^verbatim>\<open>u.ResolveReference(&url.URL{Path: p})\<close> for a non-empty \<open>p\<close>.\<close>

definition ResolveReference :: "url \<Rightarrow> bytes \<Rightarrow> url" where
  "ResolveReference u p =
     (let ref = \<lparr>Scheme = Scheme u, User = User u, Host = Host u, Path = p, RawPath = [], RawQuery = [], Fragment = [], RawFragment = []\<rparr>
      in setPath ref (resolvePath (EscapedPath u) (EscapedPath ref)))"

section \<open>Lexical cleaning of paths\<close>

fun cleanSegments :: "bool \<Rightarrow> bytes list \<Rightarrow> bytes list \<Rightarrow> bytes list" where
  "cleanSegments rooted out [] = out"
| "cleanSegments rooted out (e # es) =
     (if e = [] \<or> e = str ''.'' then cleanSegments rooted out es
      else if e = str ''..''
      then cleanSegments rooted
             (if out \<noteq> [] \<and> last out \<noteq> str ''..'' then butlast out else if rooted then out else out @ [e]) es
      else cleanSegments rooted (out @ [e]) es)"

definition path_Clean :: "bytes \<Rightarrow> bytes" where
  "path_Clean s =
     (let rooted = (s \<noteq> [] \<and> hd s = 47);
          r = (if rooted then [47] else []) @ joinWith [47] (cleanSegments rooted [] (splitOn 47 s))
      in if r = [] then str ''.'' else r)"

definition path_Join :: "bytes list \<Rightarrow> bytes" where
  "path_Join elems =
     (if concat elems = [] then []
      else path_Clean (joinWith [47] (dropWhile (\<lambda>e. e = []) elems)))"

section \<open>Base32\<close>

definition b32char :: "nat \<Rightarrow> byte" where
  "b32char n = (if n < 26 then of_nat (n + 97) else of_nat (n + 24))"

text \<open>The groups of five bits, most significant first; the last one is filled up with zeros.\<close>

definition byte_bits :: "byte \<Rightarrow> bool list" where
  "byte_bits b = map (\<lambda>i. bit b i) [7, 6, 5, 4, 3, 2, 1, 0]"

definition bits_val :: "bool list \<Rightarrow> nat" where
  "bits_val bs = foldl (\<lambda>n b. 2 * n + (if b then 1 else 0)) 0 bs"

fun b32groups :: "bool list \<Rightarrow> bytes" where
  "b32groups [] = []"
| "b32groups (a # bs) =
     b32char (bits_val (take 5 (a # bs @ replicate 4 False))) # b32groups (drop 4 bs)"

definition b32encode :: "bytes \<Rightarrow> bytes" where
  "b32encode s = b32groups (concat (map byte_bits s))"

section \<open>SHA-256\<close>

type_synonym w32 = "32 word"

text \<open>
  The constants are the first 32 bits of the fractional parts of the cube roots of the first 64 primes, and of the
  square roots of the first eight: \<open>root_bits k n b 0\<close> is the largest number of \<open>b\<close> bits whose \<open>k\<close>-th
  power is at most \<open>n\<close>.
\<close>

fun root_bits :: "nat \<Rightarrow> nat \<Rightarrow> nat \<Rightarrow> nat \<Rightarrow> nat" where
  "root_bits k n 0 r = r"
| "root_bits k n (Suc b) r = root_bits k n b (if (r + 2 ^ b) ^ k \<le> n then r + 2 ^ b else r)"

definition sha_primes :: "nat list" where
  "sha_primes = filter (\<lambda>p. list_all (\<lambda>d. p mod d \<noteq> 0) [2..<p]) [2..<312]"

definition sha_k :: "w32 list" where
  "sha_k = map (\<lambda>p. of_nat (root_bits 3 (p * 2 ^ 96) 36 0)) sha_primes"

definition sha_init :: "w32 list" where
  "sha_init = map (\<lambda>p. of_nat (root_bits 2 (p * 2 ^ 64) 36 0)) (take 8 sha_primes)"

definition rotr :: "nat \<Rightarrow> w32 \<Rightarrow> w32" where
  "rotr n x = (drop_bit n x OR push_bit (32 - n) x)"

definition sha_pad :: "bytes \<Rightarrow> bytes" where
  "sha_pad m =
     (let n = 8 * length m
      in m @ [0x80] @ replicate ((119 - length m mod 64) mod 64) 0 @
         map (\<lambda>i. of_nat (n div 256 ^ i)) [7, 6, 5, 4, 3, 2, 1, 0])"

fun sha_words :: "bytes \<Rightarrow> w32 list" where
  "sha_words (a # b # c # d # s) =
     of_nat (((unat a * 256 + unat b) * 256 + unat c) * 256 + unat d) # sha_words s"
| "sha_words _ = []"

text \<open>The message schedule; the list is in reverse order, the latest word first.\<close>

fun sha_schedule :: "nat \<Rightarrow> w32 list \<Rightarrow> w32 list" where
  "sha_schedule 0 ws = rev ws"
| "sha_schedule (Suc k) ws =
     (let w2 = ws ! 1; w7 = ws ! 6; w15 = ws ! 14; w16 = ws ! 15;
          s0 = rotr 7 w15 XOR rotr 18 w15 XOR drop_bit 3 w15;
          s1 = rotr 17 w2 XOR rotr 19 w2 XOR drop_bit 10 w2
      in sha_schedule k ((w16 + s0 + w7 + s1) # ws))"

fun sha_round :: "w32 list \<Rightarrow> w32 \<times> w32 \<Rightarrow> w32 list" where
  "sha_round [a, b, c, d, e, f, g, h] (k, w) =
     (let t1 = h + (rotr 6 e XOR rotr 11 e XOR rotr 25 e) + ((e AND f) XOR (NOT e AND g)) + k + w;
          t2 = (rotr 2 a XOR rotr 13 a XOR rotr 22 a) + ((a AND b) XOR (a AND c) XOR (b AND c))
      in [t1 + t2, a, b, c, d + t1, e, f, g])"
| "sha_round hs _ = hs"

definition sha_block :: "w32 list \<Rightarrow> w32 list \<Rightarrow> w32 list" where
  "sha_block hs ws = map2 (+) hs (foldl sha_round hs (zip sha_k (sha_schedule 48 (rev ws))))"

fun sha_blocks :: "nat \<Rightarrow> w32 list \<Rightarrow> w32 list \<Rightarrow> w32 list" where
  "sha_blocks 0 hs ws = hs"
| "sha_blocks (Suc n) hs ws = sha_blocks n (sha_block hs (take 16 ws)) (drop 16 ws)"

definition word_bytes :: "w32 \<Rightarrow> bytes" where
  "word_bytes w = map (\<lambda>i. ucast (drop_bit (8 * i) w)) [3, 2, 1, 0]"

definition Sum256 :: "bytes \<Rightarrow> bytes" where
  "Sum256 m =
     (let p = sha_pad m in concat (map word_bytes (sha_blocks (length p div 64) sha_init (sha_words p))))"

section \<open>Lengths of digests\<close>

lemma sha_round_length: "length hs = 8 \<Longrightarrow> length (sha_round hs kw) = 8"
  by (induction hs kw rule: sha_round.induct) (auto simp: Let_def)

lemma sha_block_length: "length hs = 8 \<Longrightarrow> length (sha_block hs ws) = 8"
proof -
  assume "length hs = 8"
  moreover have "length (foldl sha_round g xs) = 8" if "length g = 8" for g xs
    using that by (induction xs arbitrary: g) (simp_all add: sha_round_length)
  ultimately show ?thesis by (simp add: sha_block_def)
qed

lemma sha_init_length: "length sha_init = 8"
proof -
  let ?P = "\<lambda>p :: nat. list_all (\<lambda>d. p mod d \<noteq> 0) [2..<p]"
  have "[2..<20 + 292] = [2..<20] @ [20..<20 + 292 :: nat]" by (rule upt_add_eq_append) simp
  then have u: "[2..<312 :: nat] = [2..<20] @ [20..<312]" by (simp only: arith_simps)
  have "filter ?P [2..<20] = [2, 3, 5, 7, 11, 13, 17, 19]" by (simp add: upt_rec)
  then have "length (filter ?P [2..<20]) = 8" by (simp only: list.size)
  then have "length (filter ?P [2..<312]) \<ge> 8" unfolding u filter_append length_append by (simp only: le_add1)
  then show ?thesis unfolding sha_init_def sha_primes_def length_map length_take by (rule min.absorb2)
qed

lemma Sum256_length: "length (Sum256 m) = 32"
proof -
  have "length hs = 8 \<Longrightarrow> length (sha_blocks n hs ws) = 8" for n hs ws
    by (induction n arbitrary: hs ws) (simp_all add: sha_block_length)
  then have "length (sha_blocks n sha_init ws) = 8" for n ws by (simp add: sha_init_length)
  moreover have "length (concat (map word_bytes ws)) = 4 * length ws" for ws
    by (induction ws) (simp_all add: word_bytes_def)
  ultimately show ?thesis by (simp add: Sum256_def Let_def)
qed

lemma b32encode_length: "length (b32encode s) = (8 * length s + 4) div 5"
proof -
  have "length (b32groups bs) = (length bs + 4) div 5" for bs
  proof (induction bs rule: b32groups.induct)
    case (2 a bs)
    then show ?case by (cases "4 \<le> length bs") auto
  qed simp
  moreover have "length (concat (map byte_bits s)) = 8 * length s" by (induction s) (simp_all add: byte_bits_def)
  ultimately show ?thesis by (simp add: b32encode_def)
qed

section \<open>Escaping and unescaping\<close>

lemma unhex_upperhex [simp]: "n < 16 \<Longrightarrow> unhex (upperhex n) = Some n"
proof -
  assume "n < 16"
  have u: "unat (of_nat k :: byte) = k" if "k < 256" for k
    using that by (simp add: unsigned_of_nat take_bit_eq_mod)
  from \<open>n < 16\<close> show ?thesis
    by (auto simp: unhex_def upperhex_def Let_def u simp del: of_nat_add)
qed

lemma shouldEscape_percent [simp]: "shouldEscape 37 mode"
  by (simp add: shouldEscape_def isUnreserved_def str_def)

lemma unescape_escape: "unescape (escape s mode) = Inr s"
proof (induction s)
  case (Cons c s)
  have "of_nat (16 * (unat c div 16) + unat c mod 16) = c" by simp
  moreover have "c \<noteq> 37" if "\<not> shouldEscape c mode" using that shouldEscape_percent by auto
  ultimately show ?case using Cons by (auto simp: escape_def div_less_iff_less_mult)
qed (simp add: escape_def)

text \<open>Strings in which nothing is escaped.\<close>

definition pathsafe :: "bytes \<Rightarrow> bool" where
  "pathsafe s \<longleftrightarrow> (\<forall>c \<in> set s. isUnreserved c \<or> c = 47)"

lemma pathsafe_append [simp]: "pathsafe (s @ t) \<longleftrightarrow> pathsafe s \<and> pathsafe t" "pathsafe (c # s) \<longleftrightarrow> (isUnreserved c \<or> c = 47) \<and> pathsafe s" "pathsafe []"
  by (auto simp: pathsafe_def)

lemma escape_pathsafe: "pathsafe s \<Longrightarrow> escape s encodePath = s"
  by (induction s) (auto simp: escape_def shouldEscape_def str_def)

lemma unescape_pathsafe: "pathsafe s \<Longrightarrow> unescape s = Inr s"
  using unescape_escape [of s encodePath] escape_pathsafe [of s] by simp

lemma urlsafe_unreserved: "urlsafe c \<Longrightarrow> isUnreserved c"
  by (auto simp: urlsafe_def b64val_def isUnreserved_def Let_def str_def word_unat_eq_iff split: if_splits)

lemma urlsafe_pathsafe: "(\<And>c. c \<in> set s \<Longrightarrow> urlsafe c) \<Longrightarrow> pathsafe s"
  by (auto simp: pathsafe_def intro: urlsafe_unreserved)

section \<open>Segments\<close>

lemma splitOn_no_sep: "sep \<notin> set s \<Longrightarrow> splitOn sep s = [s]"
  by (induction s) auto

lemma splitOn_ne [simp]: "splitOn sep s \<noteq> []"
  by (cases s) (auto split: list.splits)

lemma splitOn_append: "splitOn sep (a @ sep # b) = splitOn sep a @ splitOn sep b"
proof (induction a)
  case (Cons c a)
  then show ?case by (cases "splitOn sep a") (auto split: list.splits)
qed simp

lemma splitOn_join: "xs \<noteq> [] \<Longrightarrow> splitOn sep (joinWith [sep] xs) = concat (map (splitOn sep) xs)"
  by (induction "[sep]" xs rule: joinWith.induct) (simp_all add: splitOn_append)

lemma splitOn_parts: "p \<in> set (splitOn sep s) \<Longrightarrow> sep \<notin> set p"
  by (induction s arbitrary: p) (auto split: if_splits list.splits)

lemma joinWith_splitOn: "joinWith [sep] (splitOn sep s) = s"
proof (induction s)
  case (Cons c s)
  then show ?case by (cases "splitOn sep s"; cases "tl (splitOn sep s)") (auto split: list.splits)
qed simp

text \<open>The non-empty segments of a path, and the segments cleaning interprets.\<close>

definition segments :: "bytes \<Rightarrow> bytes list" where
  "segments s = filter (\<lambda>e. e \<noteq> []) (splitOn 47 s)"

definition is_dots :: "bytes \<Rightarrow> bool" where
  "is_dots e \<longleftrightarrow> e = str ''.'' \<or> e = str ''..''"

lemma cleanSegments_plain:
  "\<forall>e \<in> set es. \<not> is_dots e \<Longrightarrow> cleanSegments rooted out es = out @ filter (\<lambda>e. e \<noteq> []) es"
  by (induction es arbitrary: out) (auto simp: is_dots_def)

lemma cleanSegments_from: "x \<in> set (cleanSegments rooted out es) \<Longrightarrow> x \<in> set out \<or> x \<in> set es \<and> x \<noteq> []"
proof (induction es arbitrary: out)
  case (Cons e es)
  consider "e = [] \<or> e = str ''.''" | "e \<noteq> []" "e \<noteq> str ''.''" "e = str ''..''" | "e \<noteq> []" "e \<noteq> str ''.''" "e \<noteq> str ''..''" by blast
  then show ?case
  proof cases
    case 2
    let ?out = "if out \<noteq> [] \<and> last out \<noteq> str ''..'' then butlast out else if rooted then out else out @ [e]"
    have "x \<in> set (cleanSegments rooted ?out es)" using Cons.prems 2 by (simp only: cleanSegments.simps) simp
    then have "x \<in> set ?out \<or> x \<in> set es \<and> x \<noteq> []" by (rule Cons.IH)
    then show ?thesis using 2(1) by (auto dest: in_set_butlastD split: if_splits)
  qed (use Cons in force)+
qed simp

lemma segments_join: "\<forall>e \<in> set es. e \<noteq> [] \<and> 47 \<notin> set e \<Longrightarrow> segments (joinWith [47] es) = es"
proof (cases "es = []")
  case False
  assume a: "\<forall>e \<in> set es. e \<noteq> [] \<and> 47 \<notin> set e"
  then have "concat (map (splitOn 47) es) = es" by (induction es) (auto simp: splitOn_no_sep)
  then show ?thesis using False a by (simp add: segments_def splitOn_join filter_id_conv)
qed (simp add: segments_def)

lemma segments_slash [simp]: "segments (47 # s) = segments s"
  by (simp add: segments_def)

lemma segments_Clean:
  assumes "\<forall>e \<in> set (splitOn 47 s). \<not> is_dots e" and "segments s \<noteq> []"
  shows "segments (path_Clean s) = segments s"
proof -
  have "\<forall>e \<in> set (segments s). e \<noteq> [] \<and> 47 \<notin> set e" by (auto simp: segments_def dest: splitOn_parts)
  then have j: "segments (joinWith [47] (segments s)) = segments s" by (rule segments_join)
  then have "joinWith [47] (segments s) \<noteq> []" using assms(2) by (auto simp: segments_def)
  then show ?thesis using j assms(1) by (simp add: path_Clean_def cleanSegments_plain Let_def flip: segments_def)
qed

end
