(* ===== verification/Amp_Cache.thy ===== *)
theory Amp_Cache
  imports Net_Url
begin

text \<open>
  URLs of AMP caches, from amp/cache.go: the subdomain that stands for a publisher's domain, and the
  URL under which a cache serves a publisher's URL. The functions of golang.org/x/net/idna are
  parameters.
\<close>

section \<open>The model\<close>

definition domainPrefixBasic :: "(bytes \<Rightarrow> goerror + bytes) \<Rightarrow> (bytes \<Rightarrow> goerror + bytes) \<Rightarrow> bytes \<Rightarrow> goerror + bytes" where
  "domainPrefixBasic ToUnicode ToASCII domain =
     (case ToUnicode domain of
        Inl e \<Rightarrow> Inl e
      | Inr prefix \<Rightarrow>
          (let prefix = ReplaceAll prefix 45 (str ''--'');
               prefix = ReplaceAll prefix 46 (str ''-'');
               prefix = (if length prefix \<ge> 4 \<and> prefix ! 2 = 45 \<and> prefix ! 3 = 45
                         then str ''0-'' @ prefix @ str ''-0'' else prefix)
           in ToASCII prefix))"

definition domainPrefixFallback :: "bytes \<Rightarrow> bytes" where
  "domainPrefixFallback domain = b32encode (Sum256 domain)"

definition domainPrefix :: "(bytes \<Rightarrow> goerror + bytes) \<Rightarrow> (bytes \<Rightarrow> goerror + bytes) \<Rightarrow> bytes \<Rightarrow> bytes" where
  "domainPrefix ToUnicode ToASCII domain =
     (case domainPrefixBasic ToUnicode ToASCII domain of
        Inr prefix \<Rightarrow> if length prefix \<le> 63 then prefix else domainPrefixFallback domain
      | Inl e \<Rightarrow> domainPrefixFallback domain)"

definition CacheURL ::
  "(bytes \<Rightarrow> goerror + bytes) \<Rightarrow> (bytes \<Rightarrow> goerror + bytes) \<Rightarrow> url \<Rightarrow> url \<Rightarrow> bytes \<Rightarrow> goerror + url" where
  "CacheURL ToUnicode ToASCII pubURL cacheURL contentType =
     (let resultHost = domainPrefix ToUnicode ToASCII (Hostname pubURL) @ str ''.'' @ Hostname cacheURL;
          resultHost = (if Port cacheURL \<noteq> [] then JoinHostPort resultHost (Port cacheURL) else resultHost);
          pathComponents = [EscapedPath cacheURL]
      in if contentType = [] then Inl (ErrorText ''invalid content type'')
         else
           (let pathComponents = pathComponents @ [escape contentType encodePathSegment]
            in if Scheme pubURL \<noteq> str ''http'' \<and> Scheme pubURL \<noteq> str ''https''
               then Inl (ErrorText ''invalid scheme in publisher URL'')
               else
                 (let pathComponents = (if Scheme pubURL = str ''https'' then pathComponents @ [str ''s''] else pathComponents);
                      port = Port pubURL
                  in if User pubURL \<noteq> None then Inl (ErrorText ''publisher URL may not contain userinfo'')
                     else if port \<noteq> [] \<and> \<not> (Scheme pubURL = str ''http'' \<and> port = str ''80'' \<or> Scheme pubURL = str ''https'' \<and> port = str ''443'')
                     then Inl (ErrorText ''publisher URL port is not the default for scheme'')
                     else if Hostname pubURL = [] then Inl (ErrorText ''invalid host in publisher URL'')
                     else
                       (let pathComponents = pathComponents @ [escape (Hostname pubURL) encodePathSegment];
                            pathComponents = pathComponents @ [EscapedPath pubURL];
                            resultRawPath = path_Join pathComponents
                        in case unescape resultRawPath of
                             Inl e \<Rightarrow> Inl e
                           | Inr resultPath \<Rightarrow>
                               if RawQuery cacheURL \<noteq> [] then Inl (ErrorText ''cache URL may not contain a query'')
                               else if Fragment cacheURL \<noteq> [] then Inl (ErrorText ''cache URL may not contain a fragment'')
                               else Inr \<lparr>Scheme = Scheme cacheURL, User = User cacheURL, Host = resultHost,
                                         Path = resultPath, RawPath = resultRawPath,
                                         RawQuery = RawQuery pubURL, Fragment = Fragment pubURL, RawFragment = []\<rparr>))))"

section \<open>The subdomain\<close>

lemma b32_alphabet: "map b32char [0..<32] = str ''abcdefghijklmnopqrstuvwxyz234567''"
  by (simp add: b32char_def str_def upt_rec)

lemma bits_val_less: "bits_val bs < 2 ^ length bs"
proof -
  have "foldl (\<lambda>n b. 2 * n + (if b then 1 else 0)) n bs < (n + 1) * 2 ^ length bs" for n :: nat
  proof (induction bs arbitrary: n)
    case (Cons b bs)
    have "foldl (\<lambda>n b. 2 * n + (if b then 1 else 0)) n (b # bs) < (2 * n + (if b then 1 else 0) + 1) * 2 ^ length bs"
      using Cons [of "2 * n + (if b then 1 else 0)"] by simp
    also have "\<dots> \<le> (n + 1) * 2 ^ length (b # bs)" by (cases b) (simp_all add: algebra_simps)
    finally show ?case .
  qed simp
  from this [of 0] show ?thesis by (simp add: bits_val_def)
qed

lemma b32encode_alphabet: "set (b32encode s) \<subseteq> set (str ''abcdefghijklmnopqrstuvwxyz234567'')"
proof -
  have "set (b32groups bs) \<subseteq> set (map b32char [0..<32])" for bs
  proof (induction bs rule: b32groups.induct)
    case (2 a bs)
    have "length (take 5 (a # bs @ replicate 4 False)) = 5" by simp
    then have "bits_val (take 5 (a # bs @ replicate 4 False)) < 32"
      using bits_val_less [of "take 5 (a # bs @ replicate 4 False)"] by (simp del: take_Suc_Cons)
    with 2 show ?case by auto
  qed simp
  then show ?thesis unfolding b32_alphabet b32encode_def .
qed

text \<open>
  C32: The domain prefix always fits a DNS label: whatever the publisher's domain is, and whatever the
  IDNA conversions answer, it has at most 63 bytes; the fallback has 52, all of them lower-case letters and digits.
\<close>

theorem domainPrefix_label:
  "length (domainPrefix ToUnicode ToASCII domain) \<le> 63 \<and> length (domainPrefixFallback domain) = 52 \<and>
   set (domainPrefixFallback domain) \<subseteq> set (str ''abcdefghijklmnopqrstuvwxyz234567'')"
  using b32encode_alphabet
  by (simp add: domainPrefix_def domainPrefixFallback_def b32encode_length Sum256_length split: sum.splits)

text \<open>
  Steps 2 and 3 of the basic algorithm, and how to undo them. A dot must not be followed by a dot or
  by a hyphen, which it never is in the name of a host.
\<close>

definition hyphenate :: "bytes \<Rightarrow> bytes" where
  "hyphenate d = ReplaceAll (ReplaceAll d 45 (str ''--'')) 46 (str ''-'')"

fun unhyphenate :: "bytes \<Rightarrow> bytes" where
  "unhyphenate [] = []"
| "unhyphenate [c] = (if c = 45 then [46] else [c])"
| "unhyphenate (c # d # s) =
     (if c = 45 \<and> d = 45 then 45 # unhyphenate s
      else (if c = 45 then 46 else c) # unhyphenate (d # s))"

fun host_dots :: "bytes \<Rightarrow> bool" where
  "host_dots (c # d # s) \<longleftrightarrow> (c = 46 \<longrightarrow> d \<noteq> 46 \<and> d \<noteq> 45) \<and> host_dots (d # s)"
| "host_dots _ \<longleftrightarrow> True"

lemma hyphenate_simps [simp]:
  "hyphenate [] = []"
  "hyphenate (c # s) = (if c = 45 then [45, 45] else if c = 46 then [45] else [c]) @ hyphenate s"
  by (simp_all add: hyphenate_def ReplaceAll_def str_def)

lemma unhyphenate_hyphenate: "host_dots d \<Longrightarrow> unhyphenate (hyphenate d) = d"
proof (induction d rule: host_dots.induct)
  case (1 c d s)
  then show ?case by (cases "c = 46") (auto split: if_splits)
qed auto

text \<open>Step 4 of the basic algorithm: which names are marked, and how.\<close>

definition marked :: "bytes \<Rightarrow> bool" where
  "marked label \<longleftrightarrow> length label \<ge> 4 \<and> label ! 2 = 45 \<and> label ! 3 = 45"

definition mark :: "bytes \<Rightarrow> bytes" where
  "mark label = (if marked label then str ''0-'' @ label @ str ''-0'' else label)"

text \<open>The name of a host: it has no empty label and none that begins with a hyphen.\<close>

definition host_name :: "bytes \<Rightarrow> bool" where
  "host_name d \<longleftrightarrow> d \<noteq> [] \<and> hd d \<noteq> 45 \<and> hd d \<noteq> 46 \<and> last d \<noteq> 46 \<and> host_dots d"

lemma hyphenate_append [simp]: "hyphenate (d @ e) = hyphenate d @ hyphenate e"
  by (induction d) simp_all

lemma host_dots_Cons: "host_dots (c # d) \<longleftrightarrow> (c = 46 \<longrightarrow> d = [] \<or> hd d \<noteq> 46 \<and> hd d \<noteq> 45) \<and> host_dots d"
  by (cases d) auto

lemma host_dots_append: "host_dots d \<Longrightarrow> host_dots e \<Longrightarrow> d \<noteq> [] \<longrightarrow> last d \<noteq> 46 \<Longrightarrow> host_dots (d @ e)"
  by (induction d) (auto simp: host_dots_Cons hd_append split: if_splits)

lemma host_name_between: "host_name d \<Longrightarrow> host_name (str ''0.'' @ d @ str ''.0'')"
  by (auto simp: host_name_def str_def host_dots_Cons intro!: host_dots_append)

lemma hyphenate_inject: "host_name d \<Longrightarrow> host_name e \<Longrightarrow> hyphenate d = hyphenate e \<longleftrightarrow> d = e"
  unfolding host_name_def by (metis unhyphenate_hyphenate)

lemma between_not_marked: "host_name d \<Longrightarrow> \<not> marked (hyphenate (str ''0.'' @ d @ str ''.0''))"
  by (cases d) (auto simp: host_name_def marked_def str_def)

lemma mark_collision:
  assumes "host_name d" and "host_name e" and "marked (hyphenate d)"
  shows "mark (hyphenate d) = mark (hyphenate e) \<longleftrightarrow> d = e \<or> e = str ''0.'' @ d @ str ''.0''"
proof (cases "marked (hyphenate e)")
  case True
  moreover have "e \<noteq> str ''0.'' @ d @ str ''.0''" using between_not_marked [OF assms(1)] True by blast
  ultimately show ?thesis using assms by (simp add: mark_def hyphenate_inject)
next
  case False
  have "mark (hyphenate d) = hyphenate (str ''0.'' @ d @ str ''.0'')" using assms(3) by (simp add: mark_def) (simp add: str_def)
  moreover have "d \<noteq> e" using False assms(3) by blast
  ultimately show ?thesis
    using False hyphenate_inject [OF host_name_between [OF assms(1)] assms(2)] by (auto simp: mark_def [of "hyphenate e"])
qed

lemma domainPrefixBasic_mark:
  "ToUnicode domain = Inr d \<Longrightarrow> domainPrefixBasic ToUnicode ToASCII domain = ToASCII (mark (hyphenate d))"
  by (simp add: domainPrefixBasic_def Let_def mark_def marked_def flip: hyphenate_def)

text \<open>
  C31: When two publishers share a subdomain. If decoding the Punycode of two domains gives the host names \<open>d\<close> and \<open>e\<close>, and encoding can be
  undone on the two labels that are made of them, then the basic algorithm gives both domains the same prefix exactly when \<open>d\<close> and
  \<open>e\<close> are the same name, or one of them has hyphens in the third and fourth place of its label, and the other is that name between \<^verbatim>\<open>0.\<close> and \<^verbatim>\<open>.0\<close>.
  So apart from these pairs, such as \<^verbatim>\<open>en-us\<close> and \<^verbatim>\<open>0.en-us.0\<close>, which do share their prefix, different names have different prefixes.
\<close>

theorem domainPrefixBasic_collides:
  assumes "ToUnicode domain = Inr d" and "ToUnicode domain' = Inr e" and "host_name d" and "host_name e"
    and "ToASCII (mark (hyphenate d)) = Inr p" and "ToUnicode p = Inr (mark (hyphenate d))"
    and "ToASCII (mark (hyphenate e)) = Inr q" and "ToUnicode q = Inr (mark (hyphenate e))"
  shows "domainPrefixBasic ToUnicode ToASCII domain = domainPrefixBasic ToUnicode ToASCII domain' \<longleftrightarrow>
    d = e \<or> marked (hyphenate d) \<and> e = str ''0.'' @ d @ str ''.0'' \<or> marked (hyphenate e) \<and> d = str ''0.'' @ e @ str ''.0''"
proof -
  have "domainPrefixBasic ToUnicode ToASCII domain = domainPrefixBasic ToUnicode ToASCII domain' \<longleftrightarrow> p = q"
    using assms by (simp add: domainPrefixBasic_mark)
  also have "\<dots> \<longleftrightarrow> mark (hyphenate d) = mark (hyphenate e)" using assms(5-8) by auto
  also have "\<dots> \<longleftrightarrow> d = e \<or> marked (hyphenate d) \<and> e = str ''0.'' @ d @ str ''.0'' \<or> marked (hyphenate e) \<and> d = str ''0.'' @ e @ str ''.0''"
  proof (cases "marked (hyphenate d)")
    case True
    then show ?thesis using mark_collision [OF assms(3,4) True] between_not_marked [OF assms(4)] by blast
  next
    case False
    show ?thesis
    proof (cases "marked (hyphenate e)")
      case True
      then show ?thesis using mark_collision [OF assms(4,3) True] False by auto
    next
      case nope: False
      then show ?thesis using False assms(3,4) by (simp add: mark_def hyphenate_inject)
    qed
  qed
  finally show ?thesis .
qed

text \<open>
  Two concrete conversions: the identity, and one that encodes the German word for books (in UTF-8), of the package's own test, in Punycode.
\<close>

definition buecher :: bytes where
  "buecher = [98, 0xc3, 0xbc] @ str ''cher''"

definition sample_ToASCII :: "bytes \<Rightarrow> goerror + bytes" where
  "sample_ToASCII s = Inr (if s = buecher @ str ''-de'' then str ''xn--bcher-de-65a'' else s)"

definition sample_ToUnicode :: "bytes \<Rightarrow> goerror + bytes" where
  "sample_ToUnicode s = Inr (if s = str ''xn--bcher-de-65a'' then buecher @ str ''-de'' else s)"

theorem domainPrefixBasic_collides_witness:
  "domainPrefixBasic Inr Inr (str ''en-us'') = domainPrefixBasic Inr Inr (str ''0.en-us.0'') \<and>
   domainPrefixBasic sample_ToUnicode sample_ToASCII (buecher @ str ''.de'') \<noteq>
     domainPrefixBasic sample_ToUnicode sample_ToASCII (str ''en-us'')"
proof
  have n: "host_name (str ''en-us'')" "host_name (str ''0.en-us.0'')" "host_name (buecher @ str ''.de'')" by code_simp+
  have m: "marked (hyphenate (str ''en-us''))" "str ''0.en-us.0'' = str ''0.'' @ str ''en-us'' @ str ''.0''" by code_simp+
  show "domainPrefixBasic Inr Inr (str ''en-us'') = domainPrefixBasic Inr Inr (str ''0.en-us.0'')"
    using domainPrefixBasic_collides [where ToUnicode = Inr and ToASCII = Inr, OF refl refl n(1,2) refl refl refl refl] m by blast
  have e: "sample_ToUnicode (buecher @ str ''.de'') = Inr (buecher @ str ''.de'')" "sample_ToUnicode (str ''en-us'') = Inr (str ''en-us'')"
    "sample_ToASCII (mark (hyphenate (buecher @ str ''.de''))) = Inr (str ''xn--bcher-de-65a'')"
    "sample_ToUnicode (str ''xn--bcher-de-65a'') = Inr (mark (hyphenate (buecher @ str ''.de'')))"
    "sample_ToASCII (mark (hyphenate (str ''en-us''))) = Inr (str ''0-en--us-0'')"
    "sample_ToUnicode (str ''0-en--us-0'') = Inr (mark (hyphenate (str ''en-us'')))" by code_simp+
  have "buecher @ str ''.de'' \<noteq> str ''en-us''" "str ''en-us'' \<noteq> str ''0.'' @ (buecher @ str ''.de'') @ str ''.0''"
    "buecher @ str ''.de'' \<noteq> str ''0.'' @ str ''en-us'' @ str ''.0''" by code_simp+
  then show "domainPrefixBasic sample_ToUnicode sample_ToASCII (buecher @ str ''.de'') \<noteq>
     domainPrefixBasic sample_ToUnicode sample_ToASCII (str ''en-us'')"
    using domainPrefixBasic_collides [OF e(1,2) n(3,1) e(3-6)] by blast
qed

section \<open>The path\<close>

definition unescapes :: "bytes \<Rightarrow> bool" where
  "unescapes s \<longleftrightarrow> (\<exists>t. unescape s = Inr t)"

lemma unhex_slash [simp]: "unhex 47 = None"
  by (simp add: unhex_def)

lemma unescapes_append: "unescapes (a @ 47 # b) \<longleftrightarrow> unescapes a \<and> unescapes b"
proof (induction a rule: unescape.induct)
  case (2 c s)
  show ?case
  proof (cases "c = 37")
    case False
    with 2(2) show ?thesis by (auto simp: unescapes_def split: sum.splits)
  next
    case True
    consider "s = []" | x where "s = [x]" | x y s' where "s = x # y # s'" by (cases s; cases "tl s") auto
    then show ?thesis
    proof cases
      case 3
      with True 2(1) [OF True 3 refl] show ?thesis by (auto simp: unescapes_def split: sum.splits option.splits)
    qed (use True in \<open>auto simp: unescapes_def split: list.splits option.splits\<close>)
  qed
qed (auto simp: unescapes_def split: sum.splits)

lemma unescapes_Nil [simp]: "unescapes []"
  by (simp add: unescapes_def)

lemma unescapes_join: "(\<forall>e \<in> set es. unescapes e) \<longleftrightarrow> unescapes (joinWith [47] es)"
  by (induction "[47 :: byte]" es rule: joinWith.induct) (simp_all add: unescapes_append)

lemma unescapes_parts: "unescapes s \<Longrightarrow> e \<in> set (splitOn 47 s) \<Longrightarrow> unescapes e"
  using unescapes_join [of "splitOn 47 s"] by (simp add: joinWith_splitOn)

lemma unescapes_Join:
  assumes "\<forall>e \<in> set es. unescapes e"
  shows "unescapes (path_Join es)"
proof -
  have "unescapes (path_Clean s)" if s: "unescapes s" for s
  proof -
    have "\<forall>e \<in> set (cleanSegments r [] (splitOn 47 s)). unescapes e" for r
      using unescapes_parts [OF s] by (auto dest: cleanSegments_from)
    then have j: "unescapes (joinWith [47] (cleanSegments r [] (splitOn 47 s)))" for r by (simp only: unescapes_join)
    moreover have "unescapes (str ''.'')" by (simp add: unescapes_def str_def)
    ultimately show ?thesis using unescapes_append [of "[]"] by (auto simp: path_Clean_def Let_def)
  qed
  moreover have "unescapes (joinWith [47] (dropWhile (\<lambda>e. e = []) es))"
    using assms by (subst unescapes_join [symmetric]) (auto dest: set_dropWhileD)
  ultimately show ?thesis by (simp add: path_Join_def)
qed

lemma EscapedPath_unescapes: "unescapes (EscapedPath u)"
proof -
  have "unescapes (str ''*'')" by (simp add: unescapes_def str_def)
  moreover have "unescapes (escape (Path u) encodePath)" using unescape_escape by (auto simp: unescapes_def)
  moreover have "unescape (RawPath u) = Inr (Path u) \<Longrightarrow> unescapes (RawPath u)" by (auto simp: unescapes_def)
  ultimately show ?thesis by (simp add: EscapedPath_def)
qed

text \<open>The components of the path, and the conditions on the URLs.\<close>

definition cache_components :: "url \<Rightarrow> url \<Rightarrow> bytes \<Rightarrow> bytes list" where
  "cache_components pubURL cacheURL contentType =
     [EscapedPath cacheURL, escape contentType encodePathSegment] @
     (if Scheme pubURL = str ''https'' then [str ''s''] else []) @
     [escape (Hostname pubURL) encodePathSegment, EscapedPath pubURL]"

definition cacheable :: "url \<Rightarrow> url \<Rightarrow> bytes \<Rightarrow> bool" where
  "cacheable pubURL cacheURL contentType \<longleftrightarrow>
     contentType \<noteq> [] \<and> (Scheme pubURL = str ''http'' \<or> Scheme pubURL = str ''https'') \<and> User pubURL = None \<and>
     (Port pubURL = [] \<or> Port pubURL = (if Scheme pubURL = str ''http'' then str ''80'' else str ''443'')) \<and>
     Hostname pubURL \<noteq> [] \<and> RawQuery cacheURL = [] \<and> Fragment cacheURL = []"

lemma components_unescape: "unescapes (path_Join (cache_components pubURL cacheURL contentType))"
proof (rule unescapes_Join, rule ballI)
  fix e assume "e \<in> set (cache_components pubURL cacheURL contentType)"
  moreover have "unescapes (escape x m)" for x m using unescape_escape by (auto simp: unescapes_def)
  moreover have "unescapes (str ''s'')" by (simp add: unescapes_def str_def)
  ultimately show "unescapes e" using EscapedPath_unescapes by (auto simp: cache_components_def split: if_splits)
qed

lemma str_http: "str ''http'' \<noteq> str ''https''"
  by (simp add: str_def)

lemma CacheURL_cases:
  "CacheURL tu ta pubURL cacheURL contentType =
     (if contentType = [] then Inl (ErrorText ''invalid content type'')
      else if Scheme pubURL \<noteq> str ''http'' \<and> Scheme pubURL \<noteq> str ''https'' then Inl (ErrorText ''invalid scheme in publisher URL'')
      else if User pubURL \<noteq> None then Inl (ErrorText ''publisher URL may not contain userinfo'')
      else if Port pubURL \<noteq> [] \<and> Port pubURL \<noteq> (if Scheme pubURL = str ''http'' then str ''80'' else str ''443'')
      then Inl (ErrorText ''publisher URL port is not the default for scheme'')
      else if Hostname pubURL = [] then Inl (ErrorText ''invalid host in publisher URL'')
      else if RawQuery cacheURL \<noteq> [] then Inl (ErrorText ''cache URL may not contain a query'')
      else if Fragment cacheURL \<noteq> [] then Inl (ErrorText ''cache URL may not contain a fragment'')
      else Inr \<lparr>Scheme = Scheme cacheURL, User = User cacheURL,
                Host = (let h = domainPrefix tu ta (Hostname pubURL) @ str ''.'' @ Hostname cacheURL
                        in if Port cacheURL \<noteq> [] then JoinHostPort h (Port cacheURL) else h),
                Path = projr (unescape (path_Join (cache_components pubURL cacheURL contentType))),
                RawPath = path_Join (cache_components pubURL cacheURL contentType),
                RawQuery = RawQuery pubURL, Fragment = Fragment pubURL, RawFragment = []\<rparr>)"
proof -
  obtain t where t: "unescape (path_Join (cache_components pubURL cacheURL contentType)) = Inr t"
    using components_unescape [of pubURL cacheURL contentType] by (auto simp: unescapes_def)
  consider "Scheme pubURL = str ''http''" | "Scheme pubURL = str ''https''" | "Scheme pubURL \<noteq> str ''http''" "Scheme pubURL \<noteq> str ''https''" by blast
  then show ?thesis
    using t str_http by cases (simp_all add: CacheURL_def cache_components_def Let_def)
qed

text \<open>
  C30: \<open>CacheURL\<close> succeeds exactly on these inputs: a content type, a publisher URL with scheme
  http or https, without userinfo, with no port or the default one, and with a host, and a cache URL
  with neither query nor fragment. On all others it is an error; the error for a path that cannot be unescaped never happens.
  The documentation also rules out a cache URL with \<^verbatim>\<open>RawFragment\<close> set, but the code does not look at that field:
  it changes nothing, neither what is accepted nor the result.
\<close>

theorem CacheURL_accepts:
  "((\<exists>u. CacheURL ToUnicode ToASCII pubURL cacheURL contentType = Inr u) \<longleftrightarrow> cacheable pubURL cacheURL contentType) \<and>
   CacheURL ToUnicode ToASCII pubURL (cacheURL\<lparr>RawFragment := f\<rparr>) contentType = CacheURL ToUnicode ToASCII pubURL cacheURL contentType"
proof
  show "(\<exists>u. CacheURL ToUnicode ToASCII pubURL cacheURL contentType = Inr u) \<longleftrightarrow> cacheable pubURL cacheURL contentType"
    using str_http by (auto simp: CacheURL_cases cacheable_def)
  have "EscapedPath (cacheURL\<lparr>RawFragment := f\<rparr>) = EscapedPath cacheURL" "Hostname (cacheURL\<lparr>RawFragment := f\<rparr>) = Hostname cacheURL"
    "Port (cacheURL\<lparr>RawFragment := f\<rparr>) = Port cacheURL" by (simp_all add: EscapedPath_def Hostname_def Port_def)
  then show "CacheURL ToUnicode ToASCII pubURL (cacheURL\<lparr>RawFragment := f\<rparr>) contentType = CacheURL ToUnicode ToASCII pubURL cacheURL contentType"
    by (simp add: CacheURL_cases cache_components_def Let_def)
qed

lemma segments_joined:
  assumes "dropWhile (\<lambda>e. e = []) es \<noteq> []"
  shows "segments (joinWith [47] (dropWhile (\<lambda>e. e = []) es)) = concat (map segments es)"
proof -
  have "concat (map segments (dropWhile (\<lambda>e. e = []) es)) = concat (map segments es)"
    by (induction es) (simp_all add: segments_def)
  then show ?thesis using assms by (simp add: segments_def [of "joinWith _ _"] splitOn_join filter_concat map_concat comp_def flip: segments_def)
qed

lemma segments_Join:
  assumes "\<forall>c \<in> set es. \<forall>e \<in> set (splitOn 47 c). \<not> is_dots e" and "concat (map segments es) \<noteq> []"
  shows "segments (path_Join es) = concat (map segments es)"
proof -
  let ?es = "dropWhile (\<lambda>e. e = []) es"
  have "segments [] = []" by (simp add: segments_def)
  then have ne: "concat es \<noteq> []" using assms(2) by fastforce
  then have d: "?es \<noteq> []" by (auto simp: dropWhile_eq_Nil_conv)
  have "\<forall>e \<in> set (splitOn 47 (joinWith [47] ?es)). \<not> is_dots e"
    using assms(1) d by (auto simp: splitOn_join dest: set_dropWhileD)
  with segments_Clean [of "joinWith [47] ?es"] segments_joined [OF d] assms(2)
  have "segments (path_Clean (joinWith [47] ?es)) = concat (map segments es)" by metis
  moreover have "path_Join es = path_Clean (joinWith [47] ?es)" unfolding path_Join_def using ne by (rule if_not_P)
  ultimately show ?thesis by simp
qed

lemma escape_no_slash: "47 \<notin> set (escape x encodePathSegment)"
proof -
  have "upperhex n \<noteq> 47" if "n < 16" for n using unhex_upperhex [OF that] by auto
  from this [THEN not_sym] show ?thesis
    by (auto simp: escape_def shouldEscape_def isUnreserved_def str_def div_less_iff_less_mult split: if_splits)
qed

lemma segments_escape: "x \<noteq> [] \<Longrightarrow> segments (escape x encodePathSegment) = [escape x encodePathSegment]"
proof -
  assume "x \<noteq> []"
  then have "escape x encodePathSegment \<noteq> []" by (cases x) (simp_all add: escape_def)
  then show ?thesis by (simp add: segments_def splitOn_no_sep escape_no_slash)
qed

text \<open>The path of the result is printed as it was joined.\<close>

lemma validEncoded_append [simp]:
  "validEncoded (s @ t) mode \<longleftrightarrow> validEncoded s mode \<and> validEncoded t mode" "validEncoded [] mode"
  by (auto simp: validEncoded_def)

lemma validEncoded_slash [simp]: "validEncoded (47 # s) encodePath \<longleftrightarrow> validEncoded s encodePath" "validEncoded [46] encodePath"
  by (simp_all add: validEncoded_def shouldEscape_def isUnreserved_def str_def)

lemma validEncoded_escape: "validEncoded (escape s mode) encodePath"
proof -
  have "isUnreserved (upperhex n)" if "n < 16" for n
    using that by (auto simp: isUnreserved_def upperhex_def unsigned_of_nat take_bit_eq_mod simp del: of_nat_add)
  then have "validEncoded [37, upperhex (unat c div 16), upperhex (unat c mod 16)] encodePath" for c :: byte
    by (auto simp: validEncoded_def shouldEscape_def str_def div_less_iff_less_mult)
  moreover have "validEncoded [c] encodePath" if "\<not> shouldEscape c mode" for c
    using that by (cases mode) (auto simp: validEncoded_def shouldEscape_def str_def split: if_splits)
  ultimately show ?thesis
    by (induction s) (auto simp: escape_def)
qed

lemma validEncoded_join: "validEncoded (joinWith [47] es) encodePath \<longleftrightarrow> (\<forall>e \<in> set es. validEncoded e encodePath)"
  by (induction "[47 :: byte]" es rule: joinWith.induct) auto

lemma validEncoded_Clean:
  assumes "validEncoded s encodePath"
  shows "validEncoded (path_Clean s) encodePath"
proof -
  have "\<forall>e \<in> set (splitOn 47 s). validEncoded e encodePath" using assms by (simp add: joinWith_splitOn flip: validEncoded_join)
  then have "\<forall>e \<in> set (cleanSegments r [] (splitOn 47 s)). validEncoded e encodePath" for r by (auto dest: cleanSegments_from)
  then show ?thesis by (simp add: path_Clean_def Let_def validEncoded_join str_def)
qed

lemma validEncoded_Join: "\<forall>e \<in> set es. validEncoded e encodePath \<Longrightarrow> validEncoded (path_Join es) encodePath"
  by (auto simp: path_Join_def validEncoded_join intro!: validEncoded_Clean dest!: set_dropWhileD)

lemma validEncoded_EscapedPath: "validEncoded (EscapedPath u) encodePath"
proof -
  have "validEncoded (str ''*'') encodePath" by (simp add: validEncoded_def str_def)
  then show ?thesis by (simp add: EscapedPath_def validEncoded_escape)
qed

lemma CacheURL_escaped:
  assumes "CacheURL ToUnicode ToASCII pubURL cacheURL contentType = Inr u" and "RawPath u \<noteq> []"
  shows "EscapedPath u = RawPath u"
proof -
  have u: "RawPath u = path_Join (cache_components pubURL cacheURL contentType)"
    "Path u = projr (unescape (path_Join (cache_components pubURL cacheURL contentType)))"
    using assms(1) by (auto simp: CacheURL_cases split: if_splits)
  have "validEncoded (str ''s'') encodePath" by (simp add: validEncoded_def shouldEscape_def isUnreserved_def str_def)
  then have "\<forall>e \<in> set (cache_components pubURL cacheURL contentType). validEncoded e encodePath"
    by (auto simp: cache_components_def validEncoded_EscapedPath validEncoded_escape)
  then have "validEncoded (RawPath u) encodePath" unfolding u by (rule validEncoded_Join)
  moreover have "unescape (RawPath u) = Inr (Path u)"
    using components_unescape [of pubURL cacheURL contentType] u by (auto simp: unescapes_def)
  ultimately show ?thesis using assms(2) by (simp add: EscapedPath_def)
qed

lemma CacheURL_result:
  assumes "CacheURL ToUnicode ToASCII pubURL cacheURL contentType = Inr u"
    and "\<forall>c \<in> set (cache_components pubURL cacheURL contentType). \<forall>e \<in> set (splitOn 47 c). \<not> is_dots e"
  shows "segments (RawPath u) = segments (EscapedPath cacheURL) @ [escape contentType encodePathSegment] @
      (if Scheme pubURL = str ''https'' then [str ''s''] else []) @
      [escape (Hostname pubURL) encodePathSegment] @ segments (EscapedPath pubURL) \<and>
    unescape (RawPath u) = Inr (Path u) \<and>
    Scheme u = Scheme cacheURL \<and> User u = User cacheURL \<and> RawQuery u = RawQuery pubURL \<and> Fragment u = Fragment pubURL \<and>
    (Port cacheURL = [] \<longrightarrow> Host u = domainPrefix ToUnicode ToASCII (Hostname pubURL) @ str ''.'' @ Hostname cacheURL)"
proof -
  have ok: "cacheable pubURL cacheURL contentType" using assms(1) str_http by (auto simp: CacheURL_cases cacheable_def split: if_splits)
  have u: "u = \<lparr>Scheme = Scheme cacheURL, User = User cacheURL,
      Host = (let h = domainPrefix ToUnicode ToASCII (Hostname pubURL) @ str ''.'' @ Hostname cacheURL
              in if Port cacheURL \<noteq> [] then JoinHostPort h (Port cacheURL) else h),
      Path = projr (unescape (path_Join (cache_components pubURL cacheURL contentType))),
      RawPath = path_Join (cache_components pubURL cacheURL contentType),
      RawQuery = RawQuery pubURL, Fragment = Fragment pubURL, RawFragment = []\<rparr>"
    using assms(1) by (simp add: CacheURL_cases split: if_splits)
  obtain t where t: "unescape (path_Join (cache_components pubURL cacheURL contentType)) = Inr t"
    using components_unescape [of pubURL cacheURL contentType] by (auto simp: unescapes_def)
  have c: "concat (map segments (cache_components pubURL cacheURL contentType)) =
      segments (EscapedPath cacheURL) @ [escape contentType encodePathSegment] @
      (if Scheme pubURL = str ''https'' then [str ''s''] else []) @
      [escape (Hostname pubURL) encodePathSegment] @ segments (EscapedPath pubURL)"
    using ok by (simp add: cache_components_def cacheable_def segments_escape) (simp add: segments_def str_def)
  then have "segments (RawPath u) = concat (map segments (cache_components pubURL cacheURL contentType))"
    using segments_Join [OF assms(2)] u by simp
  then show ?thesis using c u t by (simp add: Let_def)
qed

text \<open>
  The URL \<open>CacheURL\<close> computes: its path consists of the segments of the cache's path, the content type, an \<open>s\<close> if the
  publisher's scheme is https, the publisher's host, and the segments of the publisher's path, each in its escaped form (provided that none
  of them is \<open>.\<close> or \<open>..\<close>, which cleaning interprets); the plain path is the
  unescaped one; scheme and userinfo are the cache's, query and fragment the publisher's, and the host is the
  cache's with the domain prefix as its first label.
\<close>

theorem CacheURL_path:
  assumes "CacheURL ToUnicode ToASCII pubURL cacheURL contentType = Inr u"
    and "\<forall>c \<in> set (cache_components pubURL cacheURL contentType). \<forall>e \<in> set (splitOn 47 c). \<not> is_dots e"
  shows "segments (RawPath u) = segments (EscapedPath cacheURL) @ [escape contentType encodePathSegment] @
      (if Scheme pubURL = str ''https'' then [str ''s''] else []) @
      [escape (Hostname pubURL) encodePathSegment] @ segments (EscapedPath pubURL) \<and>
    unescape (RawPath u) = Inr (Path u) \<and>
    Scheme u = Scheme cacheURL \<and> User u = User cacheURL \<and> RawQuery u = RawQuery pubURL \<and> Fragment u = Fragment pubURL \<and>
    (Port cacheURL = [] \<longrightarrow> Host u = domainPrefix ToUnicode ToASCII (Hostname pubURL) @ str ''.'' @ Hostname cacheURL)"
  using assms by (rule CacheURL_result)

theorem CacheURL_path_witness:
  "segments (RawPath (projr (CacheURL Inr Inr
      \<lparr>Scheme = str ''https'', User = None, Host = str ''example.com:443'', Path = str ''/0a/b'', RawPath = [], RawQuery = [], Fragment = [], RawFragment = []\<rparr>
      \<lparr>Scheme = str ''https'', User = None, Host = str ''cdn.ampproject.org'', Path = [], RawPath = [], RawQuery = [], Fragment = [], RawFragment = []\<rparr> (str ''c'')))) =
    [str ''c'', str ''s'', str ''example.com'', str ''0a'', str ''b'']"
proof -
  let ?p = "\<lparr>Scheme = str ''https'', User = None, Host = str ''example.com:443'', Path = str ''/0a/b'', RawPath = [], RawQuery = [], Fragment = [], RawFragment = []\<rparr>"
  let ?c = "\<lparr>Scheme = str ''https'', User = None, Host = str ''cdn.ampproject.org'', Path = [], RawPath = [], RawQuery = [], Fragment = [], RawFragment = []\<rparr>"
  have h: "splitHostPort (str ''example.com:443'') = (str ''example.com'', str ''443'')" by code_simp
  have e: "escape (str ''/0a/b'') encodePath = str ''/0a/b''" "escape (str ''c'') encodePathSegment = str ''c''"
    "escape (str ''example.com'') encodePathSegment = str ''example.com''" "escape [] encodePath = []" by code_simp+
  have ok: "cacheable ?p ?c (str ''c'')" by (simp add: cacheable_def Port_def Hostname_def h) (simp add: str_def)
  then obtain u where u: "CacheURL Inr Inr ?p ?c (str ''c'') = Inr u" using str_http by (auto simp: CacheURL_cases cacheable_def)
  have comps: "cache_components ?p ?c (str ''c'') = [[], str ''c'', str ''s'', str ''example.com'', str ''/0a/b'']"
    by (simp add: cache_components_def EscapedPath_def Hostname_def h e)
  have "\<forall>c \<in> set (cache_components ?p ?c (str ''c'')). \<forall>e \<in> set (splitOn 47 c). \<not> is_dots e"
    unfolding comps by (simp add: str_def is_dots_def)
  moreover have "segments (str ''/0a/b'') = [str ''0a'', str ''b'']" "segments [] = []" "[] \<noteq> str ''*''" "str ''/0a/b'' \<noteq> str ''*''" by code_simp+
  ultimately show ?thesis using CacheURL_path [OF u] by (simp add: u EscapedPath_def Hostname_def h e)
qed

end
