(* ===== verification/Amp_Exchange.thy ===== *)
theory Amp_Exchange
  imports Amp_Cache Armor
begin

text \<open>
  One exchange with the server, from champa-client/amp.go: the payload becomes the path of a URL,
  which is requested directly or through an AMP cache, and the armored page in the answer is decoded.

  What is outside the repository is a parameter: \<open>roundTrip\<close> is the HTTP transport with everything
  behind it, \<open>reparse\<close> is printing a URL and parsing it again (\<^verbatim>\<open>http.NewRequestWithContext\<close>
  takes a string), \<open>parse\<close> parses a Location header, \<open>tok\<close> is the HTML tokenizer, and
  \<open>ToUnicode\<close> and \<open>ToASCII\<close> are the IDNA conversions.
\<close>

section \<open>Host and port\<close>

text \<open>\<^verbatim>\<open>net.SplitHostPort\<close>.\<close>

definition IndexByte :: "bytes \<Rightarrow> byte \<Rightarrow> int" where
  "IndexByte s c = (if c \<in> set s then int (length (takeWhile (\<lambda>b. b \<noteq> c) s)) else -1)"

definition net_SplitHostPort :: "bytes \<Rightarrow> goerror + bytes \<times> bytes" where
  "net_SplitHostPort hostport =
     (let i = LastIndexByte hostport 58;
          port = drop (nat (i + 1)) hostport
      in if i < 0 then Inl (ErrorText ''missing port in address'')
         else if hd hostport = 91
         then (let k = IndexByte hostport 93
               in if k < 0 then Inl (ErrorText ''missing ] in address'')
                  else if k + 1 = int (length hostport) then Inl (ErrorText ''missing port in address'')
                  else if k + 1 \<noteq> i
                  then Inl (ErrorText (if hostport ! nat (k + 1) = 58 then ''too many colons in address'' else ''missing port in address''))
                  else if 91 \<in> set (drop 1 hostport) then Inl (ErrorText ''unexpected [ in address'')
                  else if 93 \<in> set (drop (nat (k + 1)) hostport) then Inl (ErrorText ''unexpected ] in address'')
                  else Inr (drop 1 (take (nat k) hostport), port))
         else if 58 \<in> set (take (nat i) hostport) then Inl (ErrorText ''too many colons in address'')
         else if 91 \<in> set hostport then Inl (ErrorText ''unexpected [ in address'')
         else if 93 \<in> set hostport then Inl (ErrorText ''unexpected ] in address'')
         else Inr (take (nat i) hostport, port))"

section \<open>The exchange\<close>

text \<open>
  A request: its method, the URL the transport connects to, the Host header (which \<^verbatim>\<open>NewRequest\<close>
  takes from the URL) and the User-Agent. A response: its status code, its Location header and its body.
\<close>

record http_request =
  Method :: string
  URL :: url
  HostHeader :: bytes
  UserAgent :: bytes

record http_response =
  StatusCode :: nat
  LocationHeader :: bytes
  Body :: reader

text \<open>Twelve random bytes; the random source may fail, and then the function panics.\<close>

definition cacheBreaker :: "goerror + bytes \<Rightarrow> bytes run" where
  "cacheBreaker random = (case random of Inl e \<Rightarrow> Panic ''rand.Read'' | Inr b \<Rightarrow> Return (take 12 b))"

definition requestURL ::
  "(bytes \<Rightarrow> goerror + bytes) \<Rightarrow> (bytes \<Rightarrow> goerror + bytes) \<Rightarrow> url \<Rightarrow> url option \<Rightarrow> bytes \<Rightarrow> bytes \<Rightarrow> goerror + url" where
  "requestURL ToUnicode ToASCII serverURL cacheURL breaker p =
     (let u = ResolveReference serverURL
                (joinWith (str ''/'') [str ''0'' @ RawURL_EncodeToString breaker, RawURL_EncodeToString p])
      in case cacheURL of
           None \<Rightarrow> Inr u
         | Some cache \<Rightarrow> CacheURL ToUnicode ToASCII u cache (str ''c''))"

definition frontHost :: "bytes \<Rightarrow> bytes \<Rightarrow> bytes" where
  "frontHost front host =
     (if front \<noteq> []
      then (case net_SplitHostPort host of Inr (_, port) \<Rightarrow> JoinHostPort front port | Inl e \<Rightarrow> front)
      else host)"

text \<open>What \<^verbatim>\<open>resp.Location\<close> reports.\<close>

definition hasLocation :: "(bytes \<Rightarrow> goerror + url) \<Rightarrow> http_response \<Rightarrow> bool" where
  "hasLocation parse resp \<longleftrightarrow> LocationHeader resp \<noteq> [] \<and> (case parse (LocationHeader resp) of Inr u \<Rightarrow> True | Inl e \<Rightarrow> False)"

definition readResponse :: "tokenizer \<Rightarrow> (bytes \<Rightarrow> goerror + url) \<Rightarrow> http_response \<Rightarrow> goerror + reader" where
  "readResponse tok parse resp =
     (if StatusCode resp = 302 \<or> StatusCode resp = 301 then Inl (ErrCacheQuota ''status'')
      else if StatusCode resp \<noteq> 200 then Inl (ErrorText ''server returned status'')
      else if hasLocation parse resp then Inl (ErrCacheQuota ''silent redirect'')
      else NewDecoder tok (Body resp))"

definition exchangeAMP ::
  "(bytes \<Rightarrow> goerror + bytes) \<Rightarrow> (bytes \<Rightarrow> goerror + bytes) \<Rightarrow> (url \<Rightarrow> goerror + url) \<Rightarrow> (bytes \<Rightarrow> goerror + url) \<Rightarrow> tokenizer \<Rightarrow>
   (http_request \<Rightarrow> goerror + http_response) \<Rightarrow> goerror + bytes \<Rightarrow> url \<Rightarrow> url option \<Rightarrow> bytes \<Rightarrow> bytes \<Rightarrow> (goerror + reader) run" where
  "exchangeAMP ToUnicode ToASCII reparse parse tok roundTrip random serverURL cacheURL front p =
     run_bind (cacheBreaker random) (\<lambda>breaker. Return
       (case requestURL ToUnicode ToASCII serverURL cacheURL breaker p of
          Inl e \<Rightarrow> Inl e
        | Inr u \<Rightarrow>
            (case reparse u of
               Inl e \<Rightarrow> Inl e
             | Inr v \<Rightarrow>
                 (let req = \<lparr>Method = ''GET'', URL = v\<lparr>Host := frontHost front (Host v)\<rparr>, HostHeader = Host v, UserAgent = []\<rparr>
                  in case roundTrip req of
                       Inl e \<Rightarrow> Inl e
                     | Inr resp \<Rightarrow> readResponse tok parse resp))))"

section \<open>The request\<close>

text \<open>The URL path of a payload, for a server URL at the root of its host.\<close>

definition request_path :: "bytes \<Rightarrow> bytes \<Rightarrow> bytes" where
  "request_path breaker p = str ''/0'' @ RawURL_EncodeToString breaker @ str ''/'' @ RawURL_EncodeToString p"

lemma urlsafe_encoded: "c \<in> set (RawURL_EncodeToString s) \<Longrightarrow> urlsafe c"
  unfolding RawURL_EncodeToString_def by (rule b64encode_urlsafe)

lemma urlsafe_no_punct: "urlsafe c \<Longrightarrow> c \<noteq> 46 \<and> c \<noteq> 47"
  by (auto simp: urlsafe_def b64val_def)

lemma encoded_segment:
  "47 \<notin> set (RawURL_EncodeToString s)" "\<not> is_dots (RawURL_EncodeToString s)" "pathsafe (RawURL_EncodeToString s)"
proof -
  have n: "46 \<notin> set (RawURL_EncodeToString s)" "47 \<notin> set (RawURL_EncodeToString s)"
    using urlsafe_no_punct urlsafe_encoded by blast+
  then show "47 \<notin> set (RawURL_EncodeToString s)" by simp
  show "\<not> is_dots (RawURL_EncodeToString s)"
  proof
    assume "is_dots (RawURL_EncodeToString s)"
    then have "46 \<in> set (RawURL_EncodeToString s)" by (elim disjE [OF iffD1 [OF is_dots_def]]) (simp_all add: str_def)
    with n show False by simp
  qed
  show "pathsafe (RawURL_EncodeToString s)" using urlsafe_encoded by (rule urlsafe_pathsafe)
qed

lemma ResolveReference_payload:
  assumes "EscapedPath serverURL = [] \<or> EscapedPath serverURL = str ''/''"
  shows "ResolveReference serverURL (joinWith (str ''/'') [str ''0'' @ RawURL_EncodeToString breaker, RawURL_EncodeToString p]) =
    \<lparr>Scheme = Scheme serverURL, User = User serverURL, Host = Host serverURL,
     Path = request_path breaker p, RawPath = [], RawQuery = [], Fragment = [], RawFragment = []\<rparr>"
proof -
  let ?b = "RawURL_EncodeToString breaker" and ?p = "RawURL_EncodeToString p"
  let ?r = "48 # ?b @ 47 # ?p"
  have z: "isUnreserved 48" by (simp add: isUnreserved_def)
  have s: "pathsafe ?r" "pathsafe (47 # ?r)" using z encoded_segment(3) by simp_all
  have d: "\<not> is_dots (48 # ?b)" by (simp add: is_dots_def str_def)
  have split: "splitOn 47 ?r = [48 # ?b, ?p]"
    using splitOn_append [of 47 "48 # ?b" ?p] encoded_segment(1) by (simp add: splitOn_no_sep del: splitOn.simps)
  have dots: "resolveDots x first [48 # ?b, ?p] = (if first then x @ ?r else x @ 47 # ?r)" for x first
    using d encoded_segment(2) [of p] by (simp add: is_dots_def)
  have "resolvePath (EscapedPath serverURL) ?r = 47 # ?r"
    using assms
  proof
    assume "EscapedPath serverURL = []"
    then show ?thesis using split dots [of "[]" True] by (simp add: resolvePath_def Let_def del: splitOn.simps resolveDots.simps)
  next
    assume "EscapedPath serverURL = str ''/''"
    then show ?thesis using split dots [of "[]" False]
      by (simp add: resolvePath_def Let_def LastIndexByte_def str_def)
  qed
  moreover have "?r \<noteq> str ''*''" by (simp add: str_def)
  ultimately show ?thesis
    using s by (simp add: ResolveReference_def setPath_def EscapedPath_def [of "\<lparr>Scheme = _, User = _, Host = _, Path = _, RawPath = _, RawQuery = _, Fragment = _, RawFragment = _\<rparr>"]
        escape_pathsafe unescape_pathsafe request_path_def str_def Let_def)
qed

text \<open>The URL of a request to the server itself.\<close>

definition payload_url :: "url \<Rightarrow> bytes \<Rightarrow> bytes \<Rightarrow> url" where
  "payload_url serverURL breaker p =
     \<lparr>Scheme = Scheme serverURL, User = User serverURL, Host = Host serverURL,
      Path = request_path breaker p, RawPath = [], RawQuery = [], Fragment = [], RawFragment = []\<rparr>"

lemma requestURL_eq:
  assumes "EscapedPath serverURL = [] \<or> EscapedPath serverURL = str ''/''"
  shows "requestURL ToUnicode ToASCII serverURL cacheURL breaker p =
    (case cacheURL of
       None \<Rightarrow> Inr (payload_url serverURL breaker p)
     | Some cache \<Rightarrow> CacheURL ToUnicode ToASCII (payload_url serverURL breaker p) cache (str ''c''))"
  unfolding requestURL_def Let_def ResolveReference_payload [OF assms] payload_url_def by (rule refl)

lemma exchange_direct:
  assumes "EscapedPath serverURL = [] \<or> EscapedPath serverURL = str ''/''" and "length b = 12"
    and "reparse (payload_url serverURL b p) = Inr (payload_url serverURL b p)"
  shows "exchangeAMP ToUnicode ToASCII reparse parse tok roundTrip (Inr b) serverURL None front p =
    Return (case roundTrip \<lparr>Method = ''GET'', URL = (payload_url serverURL b p)\<lparr>Host := frontHost front (Host serverURL)\<rparr>,
                            HostHeader = Host serverURL, UserAgent = []\<rparr> of
              Inl e \<Rightarrow> Inl e
            | Inr resp \<Rightarrow> readResponse tok parse resp)"
  using assms by (simp add: exchangeAMP_def cacheBreaker_def requestURL_eq) (simp add: payload_url_def Let_def)

text \<open>
  Without an AMP cache and with a server URL at the root of its host, the exchange requests the
  URL of the server whose path is \<open>/0\<close>, the base64 of the cache breaker, a slash and the base64 of the payload; domain fronting only
  changes the host the transport connects to, and leaves the Host header and the path alone.
\<close>

theorem exchangeAMP_request:
  assumes "EscapedPath serverURL = [] \<or> EscapedPath serverURL = str ''/''" and "length b = 12"
    and "reparse (payload_url serverURL b p) = Inr (payload_url serverURL b p)"
  shows "exchangeAMP ToUnicode ToASCII reparse parse tok roundTrip (Inr b) serverURL None front p =
    Return (case roundTrip \<lparr>Method = ''GET'', URL = (payload_url serverURL b p)\<lparr>Host := frontHost front (Host serverURL)\<rparr>,
                            HostHeader = Host serverURL, UserAgent = []\<rparr> of
              Inl e \<Rightarrow> Inl e
            | Inr resp \<Rightarrow> readResponse tok parse resp)"
  using assms by (rule exchange_direct)

definition sample_server :: url where
  "sample_server = \<lparr>Scheme = str ''https'', User = None, Host = str ''server.example'', Path = str ''/'',
     RawPath = [], RawQuery = [], Fragment = [], RawFragment = []\<rparr>"

lemma sample_server_path: "EscapedPath sample_server = str ''/''"
  by code_simp

theorem exchangeAMP_request_witness:
  "exchangeAMP Inr Inr Inr (\<lambda>_. Inl EOF) simple_tokenizer (\<lambda>req. Inl (if HostHeader req = str ''server.example'' then ErrTooLong else EOF))
     (Inr (replicate 12 5)) sample_server None (str ''front.example'') [1, 2, 3] = Return (Inl ErrTooLong)"
  using exchangeAMP_request [where b = "replicate 12 5" and p = "[1, 2, 3]" and reparse = Inr and serverURL = sample_server]
  by (simp add: sample_server_path) (simp add: sample_server_def)

text \<open>
  Through an AMP cache at the root of its host, the path of the requested URL has the segments
  \<open>c\<close>, \<open>s\<close>, the server's host, \<open>0\<close> with the cache breaker, and the payload, in this order.
\<close>

theorem requestURL_cached:
  assumes "EscapedPath serverURL = [] \<or> EscapedPath serverURL = str ''/''"
    and "EscapedPath cacheURL = [] \<or> EscapedPath cacheURL = str ''/''"
    and "Scheme serverURL = str ''https''" and "\<not> is_dots (escape (Hostname serverURL) encodePathSegment)"
    and "requestURL ToUnicode ToASCII serverURL (Some cacheURL) breaker p = Inr u" and "p \<noteq> []"
  shows "segments (RawPath u) =
    [str ''c'', str ''s'', escape (Hostname serverURL) encodePathSegment, str ''0'' @ RawURL_EncodeToString breaker, RawURL_EncodeToString p]"
proof -
  let ?u = "payload_url serverURL breaker p" and ?b = "RawURL_EncodeToString breaker" and ?p = "RawURL_EncodeToString p"
  have c: "CacheURL ToUnicode ToASCII ?u cacheURL (str ''c'') = Inr u"
    using assms(5) by (simp add: requestURL_eq [OF assms(1)])
  have s: "pathsafe (request_path breaker p)"
    using encoded_segment(3) by (simp add: request_path_def str_def isUnreserved_def)
  have "request_path breaker p \<noteq> str ''*''" by (simp add: request_path_def str_def)
  then have e: "EscapedPath ?u = request_path breaker p" using s by (simp add: EscapedPath_def payload_url_def escape_pathsafe)
  have split: "splitOn 47 (request_path breaker p) = [[], 48 # ?b, ?p]"
    using splitOn_append [of 47 "48 # ?b" ?p] encoded_segment(1)
    by (simp add: request_path_def str_def splitOn_no_sep)
  have h: "Hostname ?u = Hostname serverURL" "Scheme ?u = Scheme serverURL" by (simp_all add: Hostname_def payload_url_def)
  have ec: "escape (str ''c'') encodePathSegment = str ''c''" by code_simp
  have nodots: "\<forall>c \<in> set (cache_components ?u cacheURL (str ''c'')). \<forall>e \<in> set (splitOn 47 c). \<not> is_dots e"
  proof -
    have "\<not> is_dots []" "\<not> is_dots (str ''c'')" "\<not> is_dots (str ''s'')" "\<not> is_dots (48 # ?b)" by (simp_all add: is_dots_def str_def)
    moreover have "splitOn 47 (str ''c'') = [str ''c'']" "splitOn 47 (str ''s'') = [str ''s'']" "splitOn 47 (str ''/'') = [[], []]"
      by (simp_all add: str_def)
    moreover have "splitOn 47 (escape (Hostname serverURL) encodePathSegment) = [escape (Hostname serverURL) encodePathSegment]"
      using escape_no_slash by (rule splitOn_no_sep)
    ultimately show ?thesis
      using assms(2,4) encoded_segment(2) [of p] by (auto simp: cache_components_def e h ec split split: if_splits)
  qed
  have "?p \<noteq> []"
  proof
    assume "?p = []"
    then have "RawURL_DecodeString [] = (p, None)" using RawURL_roundtrip [of p] by simp
    with assms(6) show False by (simp add: RawURL_DecodeString_def)
  qed
  then have "segments (request_path breaker p) = [str ''0'' @ ?b, ?p]" using split by (simp add: segments_def str_def)
  moreover have "segments (EscapedPath cacheURL) = []" using assms(2) by (auto simp: segments_def str_def)
  ultimately show ?thesis using CacheURL_result [OF c nodots] assms(3) by (simp add: e h ec)
qed

definition sample_cache :: url where
  "sample_cache = \<lparr>Scheme = str ''https'', User = None, Host = str ''cdn.ampproject.org'', Path = [],
     RawPath = [], RawQuery = [], Fragment = [], RawFragment = []\<rparr>"

theorem requestURL_cached_witness:
  "segments (RawPath (projr (requestURL Inr Inr sample_server (Some sample_cache) (replicate 12 5) [1, 2, 3]))) =
    [str ''c'', str ''s'', str ''server.example'', str ''0'' @ RawURL_EncodeToString (replicate 12 5), RawURL_EncodeToString [1, 2, 3]]"
proof -
  have h: "splitHostPort (str ''server.example'') = (str ''server.example'', [])" by code_simp
  have e: "escape (str ''server.example'') encodePathSegment = str ''server.example''" by code_simp
  have p: "EscapedPath sample_cache = []" by code_simp
  have "cacheable (payload_url sample_server (replicate 12 5) [1, 2, 3]) sample_cache (str ''c'')"
    by (simp add: cacheable_def Port_def Hostname_def h payload_url_def sample_server_def sample_cache_def) (simp add: str_def)
  then obtain u where u: "requestURL Inr Inr sample_server (Some sample_cache) (replicate 12 5) [1, 2, 3] = Inr u"
    using str_http by (auto simp: requestURL_eq sample_server_path CacheURL_cases cacheable_def)
  have "Hostname sample_server = str ''server.example''" "Scheme sample_server = str ''https''" by (simp_all add: Hostname_def sample_server_def h)
  moreover have "\<not> is_dots (str ''server.example'')" by code_simp
  ultimately show ?thesis using requestURL_cached [OF _ _ _ _ u] by (simp add: sample_server_path p e u)
qed

section \<open>Through a cache\<close>

text \<open>
  What is relied on of printing a URL and parsing it again: the host stays, and so does the escaped path, except that it gets a slash in
  front if it has none.
\<close>

definition reparse_ok :: "(url \<Rightarrow> goerror + url) \<Rightarrow> url \<Rightarrow> bool" where
  "reparse_ok reparse u \<longleftrightarrow>
     (\<exists>v. reparse u = Inr v \<and> Host v = Host u \<and>
          EscapedPath v = (if EscapedPath u \<noteq> [] \<and> hd (EscapedPath u) \<noteq> 47 then 47 # EscapedPath u else EscapedPath u))"

text \<open>The subdomain of a cache, with the cache's port, that stands for a publisher.\<close>

definition cache_site :: "(bytes \<Rightarrow> goerror + bytes) \<Rightarrow> (bytes \<Rightarrow> goerror + bytes) \<Rightarrow> url \<Rightarrow> url \<Rightarrow> bytes" where
  "cache_site ToUnicode ToASCII pubURL cacheURL =
     (let h = domainPrefix ToUnicode ToASCII (Hostname pubURL) @ str ''.'' @ Hostname cacheURL
      in if Port cacheURL \<noteq> [] then JoinHostPort h (Port cacheURL) else h)"

text \<open>
  What is relied on of an AMP cache behind the transport, for the publisher whose subdomain is \<open>site\<close>. A GET request with that Host header whose path has the segments \<open>c\<close>, \<open>s\<close>, a host and
  more segments is for the document of that path on that host, over https; the cache answers with the status of that document, and with a page that
  may be changed in any way but keeps the text of the pre elements. (\<open>origin\<close> is what the publishers serve.)
\<close>

definition amp_cache_ok ::
  "tokenizer \<Rightarrow> bytes \<Rightarrow> (http_request \<Rightarrow> goerror + http_response) \<Rightarrow> (bytes \<Rightarrow> bytes \<Rightarrow> goerror + http_response) \<Rightarrow> bool" where
  "amp_cache_ok tok site cache origin \<longleftrightarrow>
     (\<forall>req host es resp. Method req = ''GET'' \<longrightarrow> HostHeader req = site \<longrightarrow> segments (EscapedPath (URL req)) = [str ''c'', str ''s'', host] @ es \<longrightarrow>
        origin host (concat (map (\<lambda>e. 47 # e) es)) = Inr resp \<longrightarrow>
        (\<exists>resp'. cache req = Inr resp' \<and> StatusCode resp' = StatusCode resp \<and> LocationHeader resp' = LocationHeader resp \<and>
           keeps_pre tok (Body resp) (Body resp')))"

lemma EscapedPath_host [simp]: "EscapedPath (u\<lparr>Host := h\<rparr>) = EscapedPath u"
  by (simp add: EscapedPath_def)

text \<open>The exchange ends with the answer of the cache to the page of the payload.\<close>

lemma exchange_cached:
  assumes "amp_cache_ok tok (cache_site ToUnicode ToASCII serverURL cacheURL) cache origin" and "origin (escape (Hostname serverURL) encodePathSegment) (request_path b p) = Inr resp"
    and "EscapedPath serverURL = [] \<or> EscapedPath serverURL = str ''/''" and "EscapedPath cacheURL = [] \<or> EscapedPath cacheURL = str ''/''"
    and "Scheme serverURL = str ''https''" and "\<not> is_dots (escape (Hostname serverURL) encodePathSegment)"
    and "CacheURL ToUnicode ToASCII (payload_url serverURL b p) cacheURL (str ''c'') = Inr u" and "reparse_ok reparse u"
    and "p \<noteq> []" and "length b = 12"
  obtains resp' where
    "exchangeAMP ToUnicode ToASCII reparse parse tok cache (Inr b) serverURL (Some cacheURL) front p = Return (readResponse tok parse resp')"
    "StatusCode resp' = StatusCode resp" "LocationHeader resp' = LocationHeader resp" "keeps_pre tok (Body resp) (Body resp')"
proof -
  let ?es = "[str ''0'' @ RawURL_EncodeToString b, RawURL_EncodeToString p]"
  have q: "requestURL ToUnicode ToASCII serverURL (Some cacheURL) b p = Inr u" using assms(7) by (simp add: requestURL_eq [OF assms(3)])
  have s: "segments (RawPath u) = [str ''c'', str ''s'', escape (Hostname serverURL) encodePathSegment] @ ?es"
    using requestURL_cached [OF assms(3-6) q assms(9)] by simp
  then have "RawPath u \<noteq> []" by (auto simp: segments_def)
  then have "segments (EscapedPath u) = [str ''c'', str ''s'', escape (Hostname serverURL) encodePathSegment] @ ?es"
    using s by (simp add: CacheURL_escaped [OF assms(7)])
  moreover obtain v where v: "reparse u = Inr v"
    "EscapedPath v = (if EscapedPath u \<noteq> [] \<and> hd (EscapedPath u) \<noteq> 47 then 47 # EscapedPath u else EscapedPath u)" "Host v = Host u"
    using assms(8) by (auto simp: reparse_ok_def)
  ultimately have sv: "segments (EscapedPath v) = [str ''c'', str ''s'', escape (Hostname serverURL) encodePathSegment] @ ?es" by simp
  let ?req = "\<lparr>Method = ''GET'', URL = v\<lparr>Host := frontHost front (Host v)\<rparr>, HostHeader = Host v, UserAgent = []\<rparr>"
  have "Hostname (payload_url serverURL b p) = Hostname serverURL" by (simp add: Hostname_def payload_url_def)
  then have "HostHeader ?req = cache_site ToUnicode ToASCII serverURL cacheURL"
    using assms(7) v(3) by (auto simp: cache_site_def CacheURL_cases split: if_splits)
  moreover have "concat (map (\<lambda>e. 47 # e) ?es) = request_path b p" by (simp add: request_path_def str_def)
  moreover have "segments (EscapedPath (URL ?req)) = [str ''c'', str ''s'', escape (Hostname serverURL) encodePathSegment] @ ?es"
    using sv by simp
  ultimately have "\<exists>resp'. cache ?req = Inr resp' \<and> StatusCode resp' = StatusCode resp \<and> LocationHeader resp' = LocationHeader resp \<and>
      keeps_pre tok (Body resp) (Body resp')"
    using assms(1,2) unfolding amp_cache_ok_def by (metis http_request.select_convs(1))
  then obtain resp' where r: "cache ?req = Inr resp'" "StatusCode resp' = StatusCode resp" "LocationHeader resp' = LocationHeader resp"
    "keeps_pre tok (Body resp) (Body resp')" by blast
  then have "exchangeAMP ToUnicode ToASCII reparse parse tok cache (Inr b) serverURL (Some cacheURL) front p = Return (readResponse tok parse resp')"
    using v(1) q assms(10) by (simp add: exchangeAMP_def cacheBreaker_def Let_def)
  from this r(2-) show ?thesis by (rule that)
qed

text \<open>A cache that adds an element to every page, and a printer and parser of URLs, for concrete polls.\<close>

definition sample_rewrite :: "reader \<Rightarrow> reader" where
  "sample_rewrite r =
     (let n = length boilerplateStart
      in r\<lparr>rdata := boilerplateStart @ str ''<p>'' @ (if take n (rdata r) = boilerplateStart then drop n (rdata r) else rdata r)\<rparr>)"

definition sample_amp_cache :: "bytes \<Rightarrow> (bytes \<Rightarrow> bytes \<Rightarrow> goerror + http_response) \<Rightarrow> http_request \<Rightarrow> goerror + http_response" where
  "sample_amp_cache site origin req =
     (if HostHeader req \<noteq> site then Inl EOF
      else (case segments (EscapedPath (URL req)) of
              _ # _ # host # es \<Rightarrow>
                (case origin host (concat (map (\<lambda>e. 47 # e) es)) of
                   Inl e \<Rightarrow> Inl e
                 | Inr resp \<Rightarrow> Inr (resp\<lparr>Body := sample_rewrite (Body resp)\<rparr>))
            | _ \<Rightarrow> Inl EOF))"

lemma sample_amp_cache_ok: "amp_cache_ok simple_tokenizer site (sample_amp_cache site origin) origin"
proof -
  have "simple_tok (str ''<p>'' @ s) = StartTagToken (str ''p'') # simple_tok s" for s by (simp add: str_def tag_token_def)
  then have "simple_tokenizer limit (sample_rewrite r) = (StartTagToken (str ''p'') # fst (simple_tokenizer limit r), snd (simple_tokenizer limit r))" for limit r
    by (simp add: simple_tokenizer_def sample_rewrite_def Let_def)
  then have "keeps_pre simple_tokenizer r (sample_rewrite r)" for r by (simp add: keeps_pre_def str_def)
  then show ?thesis by (simp add: amp_cache_ok_def sample_amp_cache_def)
qed

definition sample_reparse :: "url \<Rightarrow> goerror + url" where
  "sample_reparse u =
     (let p = (if EscapedPath u \<noteq> [] \<and> hd (EscapedPath u) \<noteq> 47 then 47 # EscapedPath u else EscapedPath u)
      in case unescape p of Inl e \<Rightarrow> Inl e | Inr t \<Rightarrow> Inr (u\<lparr>Path := t, RawPath := p\<rparr>))"

lemma sample_reparse_ok: "reparse_ok sample_reparse u"
proof -
  let ?p = "if EscapedPath u \<noteq> [] \<and> hd (EscapedPath u) \<noteq> 47 then 47 # EscapedPath u else EscapedPath u"
  obtain s where "unescape (EscapedPath u) = Inr s" using EscapedPath_unescapes [of u] by (auto simp: unescapes_def)
  then have "\<exists>t. unescape ?p = Inr t" by simp
  then obtain t where t: "unescape ?p = Inr t" ..
  have "EscapedPath (u\<lparr>Path := t, RawPath := ?p\<rparr>) = ?p"
  proof (cases "?p = []")
    case True
    then show ?thesis using t by (simp add: EscapedPath_def [of "u\<lparr>Path := _, RawPath := _\<rparr>"] str_def escape_def)
  next
    case False
    then show ?thesis using t validEncoded_EscapedPath [of u] by (simp add: EscapedPath_def [of "u\<lparr>Path := _, RawPath := _\<rparr>"])
  qed
  then show ?thesis using t unfolding reparse_ok_def sample_reparse_def Let_def by simp
qed

lemma sample_cacheable: "cacheable sample_server sample_cache (str ''c'')" "\<not> is_dots (escape (Hostname sample_server) encodePathSegment)"
  "EscapedPath sample_cache = []" "Scheme sample_server = str ''https''"
  by code_simp+

lemma sample_site: "cache_site Inr Inr sample_server sample_cache = str ''server-example.cdn.ampproject.org''"
proof -
  have "Hostname sample_server = str ''server.example''" "Hostname sample_cache = str ''cdn.ampproject.org''" "Port sample_cache = []"
    "domainPrefixBasic Inr Inr (str ''server.example'') = Inr (str ''server-example'')" "length (str ''server-example'') \<le> 63" by code_simp+
  then show ?thesis by (simp add: cache_site_def domainPrefix_def) (simp add: str_def)
qed

end
