(* ===== verification/Replay_Window.thy ===== *)
theory Replay_Window
  imports Champa_Prelude
begin

text \<open>
  The sliding window of used nonces of \<^verbatim>\<open>noise/replay.go\<close>. Nonces, the bitmap and the
  highest nonce are 64-bit words and every operation is the word operation of the code:
  \<^verbatim>\<open>bitmap <<= diff\<close> is \<open>push_bit\<close>, which gives 0 once all bits are shifted out.

  The abstract specification is a set of used nonces with no bound on its size: a nonce is
  acceptable if it has not been used and is not 64 or more below a used one. The locale
  \<open>replay_filter\<close> states that contract; \<open>CheckAndUpdate\<close> is proved to implement it, and
  the consequences for whole sequences of messages are proved once, from the contract.
\<close>

section \<open>The code\<close>

record replayWindow =
  bitmap :: "64 word"
  highest :: "64 word"

definition emptyWindow :: replayWindow where
  "emptyWindow = \<lparr>bitmap = 0, highest = 0\<rparr>"

definition CheckAndUpdate :: "replayWindow \<Rightarrow> 64 word \<Rightarrow> bool \<times> replayWindow" where
  "CheckAndUpdate rw nonce =
     (if nonce \<le> highest rw then
        (let diff = highest rw - nonce in
         if diff \<ge> 64 then (False, rw)
         else
           (let m = push_bit (unat diff) 1 in
            if bitmap rw AND m \<noteq> 0 then (False, rw)
            else (True, rw\<lparr>bitmap := bitmap rw OR m\<rparr>)))
      else
        (let diff = nonce - highest rw in
         (True, rw\<lparr>bitmap := push_bit (unat diff) (bitmap rw) OR 1, highest := nonce\<rparr>)))"

text \<open>The nonces of a sequence that are accepted when they are checked one after the other.\<close>

fun accepted :: "('s \<Rightarrow> 'n \<Rightarrow> bool \<times> 's) \<Rightarrow> 's \<Rightarrow> 'n list \<Rightarrow> 'n list" where
  "accepted check s [] = []"
| "accepted check s (n # ns) =
     (let (ok, s') = check s n in (if ok then [n] else []) @ accepted check s' ns)"

lemma length_accepted: "length (accepted check s ns) \<le> length ns"
proof (induction ns arbitrary: s)
  case (Cons n ns)
  then show ?case by (cases "check s n") (simp add: le_SucI)
qed simp

lemma accepted_Cons_all:
  "accepted check s (n # ns) = n # ns \<longleftrightarrow> (\<exists>s'. check s n = (True, s') \<and> accepted check s' ns = ns)"
proof (cases "check s n")
  case (Pair ok s')
  have "accepted check s' ns \<noteq> n # ns"
    using length_accepted [of check s' ns] by (metis Suc_n_not_le_n length_Cons)
  with Pair show ?thesis by (cases ok) auto
qed

section \<open>The contract\<close>

definition acceptable :: "nat set \<Rightarrow> nat \<Rightarrow> bool" where
  "acceptable U n \<longleftrightarrow> n \<notin> U \<and> (\<forall>m\<in>U. m < n + 64)"

locale replay_filter =
  fixes check :: "'s \<Rightarrow> 'a::len word \<Rightarrow> bool \<times> 's"
    and used :: "'s \<Rightarrow> nat set \<Rightarrow> bool"
  assumes check_iff: "used s U \<Longrightarrow> fst (check s n) \<longleftrightarrow> acceptable U (unat n)"
    and check_True: "used s U \<Longrightarrow> check s n = (True, s') \<Longrightarrow> used s' (insert (unat n) U)"
    and check_False: "used s U \<Longrightarrow> check s n = (False, s') \<Longrightarrow> used s' U"
begin

lemma check_cases [consumes 1, case_names accept reject]:
  assumes "used s U"
  obtains s' where "acceptable U (unat n)" "check s n = (True, s')" "used s' (insert (unat n) U)"
    | s' where "\<not> acceptable U (unat n)" "check s n = (False, s')" "used s' U"
  using check_iff [OF assms, of n] check_True [OF assms, of n] check_False [OF assms, of n]
  by (cases "check s n") (metis (full_types) fst_conv)

lemma accepted_fresh:
  "used s U \<Longrightarrow> distinct (accepted check s ns) \<and> (\<forall>n\<in>set (accepted check s ns). unat n \<notin> U)"
proof (induction ns arbitrary: s U)
  case (Cons n ns)
  from Cons.prems show ?case
    by (cases rule: check_cases [where n = n]) (auto dest: Cons.IH simp: acceptable_def)
qed simp

text \<open>A sequence without repetition, in which no nonce comes 64 or more below an earlier one.\<close>

lemma accepted_all:
  "used s U \<Longrightarrow> distinct ns \<Longrightarrow> (\<forall>n\<in>set ns. acceptable U (unat n)) \<Longrightarrow>
   (\<And>i j. i < j \<Longrightarrow> j < length ns \<Longrightarrow> unat (ns ! i) < unat (ns ! j) + 64) \<Longrightarrow>
   accepted check s ns = ns"
proof (induction ns arbitrary: s U)
  case (Cons n ns)
  have near: "unat n < unat m + 64" if "m \<in> set ns" for m
    using that Cons.prems(4) [of 0] by (fastforce simp: in_set_conv_nth)
  have rest: "\<And>i j. i < j \<Longrightarrow> j < length ns \<Longrightarrow> unat (ns ! i) < unat (ns ! j) + 64"
    using Cons.prems(4) [of "Suc _" "Suc _"] by simp
  from Cons.prems(1) show ?case
  proof (cases rule: check_cases [where n = n])
    case (accept s')
    with Cons.prems have "\<forall>m\<in>set ns. acceptable (insert (unat n) U) (unat m)"
      using near by (auto simp: acceptable_def dest: unsigned_word_eqI)
    with accept Cons.IH [of s' "insert (unat n) U"] Cons.prems(2) rest show ?thesis by simp
  qed (use Cons.prems(3) in simp)
qed simp

end

section \<open>The window implements the contract\<close>

text \<open>
  \<open>window_of rw U\<close>: \<open>highest\<close> bounds the used nonces and is one of them (or none is used
  yet), and bit \<open>d\<close> of the map says whether \<open>highest - d\<close> is used.
\<close>

definition window_of :: "replayWindow \<Rightarrow> nat set \<Rightarrow> bool" where
  "window_of rw U \<longleftrightarrow>
     (\<forall>n\<in>U. n \<le> unat (highest rw)) \<and>
     (unat (highest rw) \<in> U \<or> U = {} \<and> highest rw = 0) \<and>
     (\<forall>d<64. bit (bitmap rw) d \<longleftrightarrow> d \<le> unat (highest rw) \<and> unat (highest rw) - d \<in> U)"

lemma window_of_empty: "window_of emptyWindow {}"
  by (simp add: window_of_def emptyWindow_def)

lemma bit_set_iff: "bit (w OR 2 ^ k) d \<longleftrightarrow> bit w d \<or> d = k" if "k < 64" for w :: "64 word"
  using that by (auto simp: bit_simps)

lemma window_past:
  assumes "window_of rw U" and "nonce \<le> highest rw"
  defines "d \<equiv> unat (highest rw) - unat nonce"
  shows "d \<ge> 64 \<Longrightarrow> CheckAndUpdate rw nonce = (False, rw)"
    and "d < 64 \<Longrightarrow> unat nonce \<in> U \<Longrightarrow> CheckAndUpdate rw nonce = (False, rw)"
    and "d < 64 \<Longrightarrow> unat nonce \<notin> U \<Longrightarrow>
           CheckAndUpdate rw nonce = (True, rw\<lparr>bitmap := bitmap rw OR push_bit d 1\<rparr>)"
proof -
  have le: "unat nonce \<le> unat (highest rw)" using assms(2) by (simp add: word_le_nat_alt)
  have d: "unat (highest rw - nonce) = d" using assms(2) by (simp add: unat_sub d_def)
  have ge: "highest rw - nonce \<ge> 64 \<longleftrightarrow> d \<ge> 64" by (simp add: word_le_nat_alt d)
  have "bitmap rw AND push_bit d 1 = 0 \<longleftrightarrow> \<not> bit (bitmap rw) d"
    using and_exp_eq_0_iff_not_bit [of "bitmap rw" d] by simp
  moreover have "bit (bitmap rw) d \<longleftrightarrow> unat nonce \<in> U" if "d < 64"
    using assms(1) that le by (auto simp: window_of_def d_def)
  ultimately show "d \<ge> 64 \<Longrightarrow> CheckAndUpdate rw nonce = (False, rw)"
    "d < 64 \<Longrightarrow> unat nonce \<in> U \<Longrightarrow> CheckAndUpdate rw nonce = (False, rw)"
    "d < 64 \<Longrightarrow> unat nonce \<notin> U \<Longrightarrow>
       CheckAndUpdate rw nonce = (True, rw\<lparr>bitmap := bitmap rw OR push_bit d 1\<rparr>)"
    using assms(2) by (simp_all add: CheckAndUpdate_def ge d Let_def)
qed

lemma window_mark:
  assumes "window_of rw U" and "d < 64" and "d \<le> unat (highest rw)"
  shows "window_of (rw\<lparr>bitmap := bitmap rw OR push_bit d 1\<rparr>) (insert (unat (highest rw) - d) U)"
  using assms unfolding window_of_def by (auto simp: bit_set_iff)

lemma window_shift:
  assumes "window_of rw U" and "highest rw < nonce"
  shows "window_of (rw\<lparr>bitmap := push_bit (unat (nonce - highest rw)) (bitmap rw) OR 1, highest := nonce\<rparr>)
           (insert (unat nonce) U)"
proof -
  let ?h = "unat (highest rw)" and ?n = "unat nonce"
  have lt: "?h < ?n" using assms(2) by (simp add: word_less_nat_alt)
  have k: "unat (nonce - highest rw) = ?n - ?h" using assms(2) by (simp add: unat_sub)
  have "bit (push_bit (?n - ?h) (bitmap rw) OR 1) d \<longleftrightarrow> d \<le> ?n \<and> ?n - d \<in> insert ?n U" if "d < 64" for d
  proof (cases "d = 0")
    case False
    have old: "?n - d \<in> U \<Longrightarrow> ?n - ?h \<le> d" using assms(1) by (force simp: window_of_def)
    have "bit (bitmap rw) (d - (?n - ?h)) \<longleftrightarrow> d \<le> ?n \<and> ?n - d \<in> U" if "?n - ?h \<le> d"
    proof -
      have "?h - (d - (?n - ?h)) = ?n - d" "d - (?n - ?h) \<le> ?h \<longleftrightarrow> d \<le> ?n" using that lt by auto
      moreover have "d - (?n - ?h) < 64" using \<open>d < 64\<close> by simp
      ultimately show ?thesis using assms(1) by (simp add: window_of_def)
    qed
    with False old that show ?thesis by (auto simp: bit_simps)
  qed (simp add: bit_simps)
  with assms lt show ?thesis by (auto simp: window_of_def k)
qed

interpretation window: replay_filter CheckAndUpdate window_of
proof
  fix rw :: replayWindow and U :: "nat set" and n :: "64 word" and rw'
  assume w: "window_of rw U"
  let ?h = "unat (highest rw)"
  have "fst (CheckAndUpdate rw n) = acceptable U (unat n) \<and>
    window_of (snd (CheckAndUpdate rw n)) (if acceptable U (unat n) then insert (unat n) U else U)"
  proof (cases "n \<le> highest rw")
    case True
    then have le: "unat n \<le> ?h" by (simp add: word_le_nat_alt)
    note past = window_past [OF w True]
    consider "?h - unat n \<ge> 64" | "?h - unat n < 64" "unat n \<in> U" | "?h - unat n < 64" "unat n \<notin> U"
      by linarith
    then show ?thesis
    proof cases
      case 1
      then have "\<not> acceptable U (unat n)" using w by (force simp: acceptable_def window_of_def)
      with 1 past(1) w show ?thesis by simp
    next
      case 2
      with past(2) w show ?thesis by (simp add: acceptable_def)
    next
      case 3
      then have "acceptable U (unat n)" using w by (force simp: acceptable_def window_of_def)
      with 3 past(3) window_mark [OF w, of "?h - unat n"] le show ?thesis by simp
    qed
  next
    case False
    then have "highest rw < n" "?h < unat n" by (simp_all add: word_less_nat_alt not_le)
    moreover have "acceptable U (unat n)" using w \<open>?h < unat n\<close> by (force simp: acceptable_def window_of_def)
    ultimately show ?thesis using window_shift [OF w, of n] False
      by (simp add: CheckAndUpdate_def Let_def)
  qed
  then show "fst (CheckAndUpdate rw n) \<longleftrightarrow> acceptable U (unat n)"
    "CheckAndUpdate rw n = (True, rw') \<Longrightarrow> window_of rw' (insert (unat n) U)"
    "CheckAndUpdate rw n = (False, rw') \<Longrightarrow> window_of rw' U"
    by auto
qed

section \<open>Properties\<close>

text \<open>
  C16: \<open>CheckAndUpdate\<close> implements the set specification: from a window that represents the set
  \<open>U\<close> of used nonces it accepts a nonce exactly when the nonce is not in \<open>U\<close> and is less than 64
  below every member, and the new window represents \<open>U\<close> with the accepted nonce added.
\<close>

theorem CheckAndUpdate_refines:
  assumes "window_of rw U"
  shows "(fst (CheckAndUpdate rw n) \<longleftrightarrow> acceptable U (unat n)) \<and>
    window_of (snd (CheckAndUpdate rw n)) (if acceptable U (unat n) then insert (unat n) U else U)"
  using assms by (cases rule: window.check_cases [where n = n]) simp_all

theorem CheckAndUpdate_refines_witness:
  "window_of emptyWindow {} \<and> (fst (CheckAndUpdate emptyWindow 0) \<longleftrightarrow> acceptable {} (unat (0 :: 64 word))) \<and>
   window_of (snd (CheckAndUpdate emptyWindow 0))
     (if acceptable {} (unat (0 :: 64 word)) then insert (unat (0 :: 64 word)) {} else {})"
  using window_of_empty CheckAndUpdate_refines [OF window_of_empty, of 0] by blast

text \<open>
  No nonce is accepted twice: whatever sequence of nonces is checked, from the empty window,
  the accepted ones are pairwise different.
\<close>

theorem window_no_replay: "distinct (accepted CheckAndUpdate emptyWindow ns)"
  using window.accepted_fresh [OF window_of_empty] by blast

text \<open>
  Reordering within the window loses nothing: when no nonce is repeated and none arrives 64 or
  more below an earlier one, every nonce of the sequence is accepted.
\<close>

theorem window_accepts_reordered:
  assumes "distinct ns"
    and "\<And>i j. i < j \<Longrightarrow> j < length ns \<Longrightarrow> unat (ns ! i) < unat (ns ! j) + 64"
  shows "accepted CheckAndUpdate emptyWindow ns = ns"
  by (rule window.accepted_all [OF window_of_empty]) (use assms in \<open>auto simp: acceptable_def\<close>)

theorem window_accepts_reordered_witness:
  "accepted CheckAndUpdate emptyWindow [63, 0, 5, 70] = [63, 0, 5, 70]"
proof (rule window_accepts_reordered)
  fix i j :: nat
  assume "i < j" and "j < length [63, 0, 5, 70 :: 64 word]"
  then have "i \<in> {0, 1, 2}" "j \<in> {1, 2, 3}" by auto
  then show "unat ([63, 0, 5, 70 :: 64 word] ! i) < unat ([63, 0, 5, 70 :: 64 word] ! j) + 64"
    using \<open>i < j\<close> by auto
qed simp

end
