(* ===== verification/Noise_Session.thy ===== *)
theory Noise_Session
  imports Replay_Window
begin

text \<open>
  Sessions of \<^verbatim>\<open>noise/session.go\<close>: the handshake functions, \<open>Encrypt\<close> and \<open>Decrypt\<close>,
  with \<open>newConfig\<close> and \<open>PubkeyFromPrivkey\<close> of \<^verbatim>\<open>noise/noise.go\<close>.

  The Noise implementation (\<^verbatim>\<open>github.com/flynn/noise\<close>) and X25519 are not part of the
  repository. They are the parameter \<open>L\<close>, a record of the library's operations on abstract
  cipher states \<open>'cs\<close> (the pointer, nil included) and handshake states \<open>'hs\<close>. What the code
  relies on is stated as the predicates \<open>cipher_ok\<close> and \<open>handshake_ok\<close>, used as hypotheses.
  The mutexes of a session make each call atomic, so a session is the sequence of its calls.
\<close>

section \<open>The library's operations\<close>

record noise_config =
  cf_Pattern :: string
  cf_Prologue :: bytes
  cf_Initiator :: bool
  cf_PeerStatic :: bytes
  cf_StaticKeypair :: "(bytes \<times> bytes) option"

record ('cs, 'hs) noise_lib =
  cs_Nonce :: "'cs \<Rightarrow> 64 word"
  cs_SetNonce :: "'cs \<Rightarrow> 64 word \<Rightarrow> 'cs"
  cs_Encrypt :: "'cs \<Rightarrow> bytes \<Rightarrow> bytes \<Rightarrow> bytes \<Rightarrow> 'cs \<times> (goerror + bytes)"
  cs_Decrypt :: "'cs \<Rightarrow> bytes \<Rightarrow> bytes \<Rightarrow> bytes \<Rightarrow> 'cs \<times> (goerror + bytes)"
  hs_New :: "noise_config \<Rightarrow> goerror + 'hs"
  hs_WriteMessage :: "'hs \<Rightarrow> bytes \<Rightarrow> bytes \<Rightarrow> 'hs \<times> (goerror + bytes \<times> 'cs \<times> 'cs)"
  hs_ReadMessage :: "'hs \<Rightarrow> bytes \<Rightarrow> bytes \<Rightarrow> 'hs \<times> (goerror + bytes \<times> 'cs \<times> 'cs)"
  X25519_base :: "bytes \<Rightarrow> goerror + bytes"

section \<open>Big-endian nonces\<close>

definition PutUint64 :: "64 word \<Rightarrow> bytes" where
  "PutUint64 v = map (\<lambda>i. ucast (drop_bit (8 * i) v)) [7, 6, 5, 4, 3, 2, 1, 0]"

definition Uint64 :: "bytes \<Rightarrow> 64 word" where
  "Uint64 b = foldl (\<lambda>v x. push_bit 8 v OR ucast x) 0 (take 8 b)"

section \<open>The code\<close>

record 'cs session =
  recv :: 'cs
  send :: 'cs
  replay :: replayWindow

record 'hs preSession =
  handshakeState :: 'hs

definition newConfig :: noise_config where
  "newConfig = \<lparr>cf_Pattern = ''NK'', cf_Prologue = str ''Champa 2021-06-17'',
     cf_Initiator = False, cf_PeerStatic = [], cf_StaticKeypair = None\<rparr>"

definition PubkeyFromPrivkey :: "('cs, 'hs) noise_lib \<Rightarrow> bytes \<Rightarrow> bytes run" where
  "PubkeyFromPrivkey L privkey =
     (case X25519_base L privkey of Inl e \<Rightarrow> Panic ''X25519'' | Inr pubkey \<Rightarrow> Return pubkey)"

definition InitiateHandshake ::
  "('cs, 'hs) noise_lib \<Rightarrow> bytes \<Rightarrow> bytes \<Rightarrow> goerror + 'hs preSession \<times> bytes" where
  "InitiateHandshake L out pubkey =
     (case hs_New L (newConfig\<lparr>cf_Initiator := True, cf_PeerStatic := pubkey\<rparr>) of
        Inl e \<Rightarrow> Inl e
      | Inr hs \<Rightarrow>
          (case hs_WriteMessage L hs out [] of
             (_, Inl e) \<Rightarrow> Inl e
           | (hs', Inr (out', _, _)) \<Rightarrow> Inr (\<lparr>handshakeState = hs'\<rparr>, out')))"

definition FinishHandshake ::
  "('cs, 'hs) noise_lib \<Rightarrow> 'hs preSession \<Rightarrow> bytes \<Rightarrow> goerror + 'cs session" where
  "FinishHandshake L pre msg =
     (case hs_ReadMessage L (handshakeState pre) [] msg of
        (_, Inl e) \<Rightarrow> Inl e
      | (_, Inr (payload, snd_cs, rcv_cs)) \<Rightarrow>
          if length payload \<noteq> 0 then Inl errPayload
          else Inr \<lparr>recv = rcv_cs, send = snd_cs, replay = emptyWindow\<rparr>)"

definition AcceptHandshake ::
  "('cs, 'hs) noise_lib \<Rightarrow> bytes \<Rightarrow> bytes \<Rightarrow> bytes \<Rightarrow> (goerror + 'cs session \<times> bytes) run" where
  "AcceptHandshake L out msg privkey =
     (case PubkeyFromPrivkey L privkey of
        Panic s \<Rightarrow> Panic s
      | Return pubkey \<Rightarrow> Return
          (case hs_New L (newConfig\<lparr>cf_Initiator := False, cf_StaticKeypair := Some (privkey, pubkey)\<rparr>) of
             Inl e \<Rightarrow> Inl e
           | Inr hs \<Rightarrow>
               (case hs_ReadMessage L hs [] msg of
                  (_, Inl e) \<Rightarrow> Inl e
                | (hs1, Inr (payload, _, _)) \<Rightarrow>
                    if length payload \<noteq> 0 then Inl errPayload
                    else (case hs_WriteMessage L hs1 out [] of
                        (_, Inl e) \<Rightarrow> Inl e
                      | (_, Inr (out', rcv_cs, snd_cs)) \<Rightarrow>
                          Inr (\<lparr>recv = rcv_cs, send = snd_cs, replay = emptyWindow\<rparr>, out')))))"

definition Encrypt ::
  "('cs, 'hs) noise_lib \<Rightarrow> 'cs session \<Rightarrow> bytes \<Rightarrow> bytes \<Rightarrow> 'cs session \<times> (goerror + bytes)" where
  "Encrypt L s out p =
     (let buf = PutUint64 (cs_Nonce L (send s));
          (cs', res) = cs_Encrypt L (send s) (out @ buf) [] p
      in (s\<lparr>send := cs'\<rparr>, res))"

definition Decrypt ::
  "('cs, 'hs) noise_lib \<Rightarrow> 'cs session \<Rightarrow> bytes \<Rightarrow> bytes \<Rightarrow> 'cs session \<times> (goerror + bytes)" where
  "Decrypt L s out msg =
     (if length msg < 8 then (s, Inl errMissingNonce)
      else
        (let nonce = Uint64 (take 8 msg);
             (cs', res) = cs_Decrypt L (cs_SetNonce L (recv s) nonce) out [] (drop 8 msg);
             s1 = s\<lparr>recv := cs'\<rparr>
         in case res of
              Inl e \<Rightarrow> (s1, Inl e)
            | Inr p \<Rightarrow>
                (let (fresh, rw) = CheckAndUpdate (replay s1) nonce in
                 if \<not> fresh then (s1\<lparr>replay := rw\<rparr>, Inl ErrInvalidNonce)
                 else (s1\<lparr>replay := rw\<rparr>, Inr p))))"

text \<open>A session that decrypts one message after the other: what is accepted, with its nonce.\<close>

fun decrypt_run ::
  "('cs, 'hs) noise_lib \<Rightarrow> 'cs session \<Rightarrow> bytes list \<Rightarrow> (64 word \<times> bytes) list" where
  "decrypt_run L s [] = []"
| "decrypt_run L s (m # ms) =
     (case Decrypt L s [] m of
        (s', Inl e) \<Rightarrow> decrypt_run L s' ms
      | (s', Inr p) \<Rightarrow> (Uint64 (take 8 m), p) # decrypt_run L s' ms)"

text \<open>A session that encrypts one packet after the other, as long as the library accepts.\<close>

fun encrypt_run ::
  "('cs, 'hs) noise_lib \<Rightarrow> 'cs session \<Rightarrow> bytes list \<Rightarrow> bytes list option" where
  "encrypt_run L s [] = Some []"
| "encrypt_run L s (p # ps) =
     (case Encrypt L s [] p of
        (s', Inl e) \<Rightarrow> None
      | (s', Inr m) \<Rightarrow> map_option (Cons m) (encrypt_run L s' ps))"

section \<open>Nonces as bytes\<close>

lemma length_PutUint64 [simp]: "length (PutUint64 v) = 8"
  by (simp add: PutUint64_def)

lemma append_low_byte:
  "push_bit 8 (drop_bit (8 + k) v) OR ucast (ucast (drop_bit k v) :: byte) = drop_bit k v"
  for v :: "64 word"
proof (rule bit_word_eqI)
  fix n
  assume "n < LENGTH(64)"
  then show "bit (push_bit 8 (drop_bit (8 + k) v) OR ucast (ucast (drop_bit k v) :: byte)) n \<longleftrightarrow>
      bit (drop_bit k v) n"
    by (cases "n < 8") (auto simp: bit_simps add.commute)
qed

lemma Uint64_PutUint64 [simp]: "Uint64 (PutUint64 v) = v"
proof -
  have "drop_bit (8 + 56) v = 0" by (rule bit_word_eqI) (simp add: bit_simps)
  then show ?thesis
    using append_low_byte [of 56 v] append_low_byte [of 48 v] append_low_byte [of 40 v]
      append_low_byte [of 32 v] append_low_byte [of 24 v] append_low_byte [of 16 v]
      append_low_byte [of 8 v] append_low_byte [of 0 v]
    by (simp add: Uint64_def PutUint64_def)
qed

lemma Uint64_append [simp]: "Uint64 (PutUint64 v @ s) = v"
  using Uint64_PutUint64 [of v] by (simp add: Uint64_def)

section \<open>Decrypt and the replay window\<close>

lemma Decrypt_cases:
  obtains (short) "length msg < 8" "Decrypt L s out msg = (s, Inl errMissingNonce)"
  | (bad) cs' e where "8 \<le> length msg" "Decrypt L s out msg = (s\<lparr>recv := cs'\<rparr>, Inl e)"
  | (old) cs' rw where "8 \<le> length msg" "CheckAndUpdate (replay s) (Uint64 (take 8 msg)) = (False, rw)"
      "Decrypt L s out msg = (s\<lparr>recv := cs', replay := rw\<rparr>, Inl ErrInvalidNonce)"
  | (fresh) cs' rw p where "8 \<le> length msg" "CheckAndUpdate (replay s) (Uint64 (take 8 msg)) = (True, rw)"
      "cs_Decrypt L (cs_SetNonce L (recv s) (Uint64 (take 8 msg))) out [] (drop 8 msg) = (cs', Inr p)"
      "Decrypt L s out msg = (s\<lparr>recv := cs', replay := rw\<rparr>, Inr p)"
proof (cases "length msg < 8")
  case True
  then show ?thesis by (intro that(1)) (simp_all add: Decrypt_def)
next
  case False
  obtain cs' res where d: "cs_Decrypt L (cs_SetNonce L (recv s) (Uint64 (take 8 msg))) out [] (drop 8 msg)
      = (cs', res)" by force
  obtain ok rw where c: "CheckAndUpdate (replay s) (Uint64 (take 8 msg)) = (ok, rw)" by force
  show ?thesis
  proof (cases res)
    case (Inl e)
    with d False show ?thesis by (intro that(2)) (simp_all add: Decrypt_def)
  next
    case (Inr p)
    with d c False show ?thesis
      by (cases ok) (rule that(3,4); simp add: Decrypt_def Let_def)+
  qed
qed

text \<open>The window only ever changes by accepting a nonce; rejected nonces leave it as it is.\<close>

lemma CheckAndUpdate_reject: "CheckAndUpdate rw n = (False, rw') \<Longrightarrow> rw' = rw"
  by (auto simp: CheckAndUpdate_def Let_def split: if_splits)

lemma Decrypt_error_keeps_window: "Decrypt L s out msg = (s', Inl e) \<Longrightarrow> replay s' = replay s"
  by (cases rule: Decrypt_cases [where L = L and s = s and out = out and msg = msg])
    (auto dest: CheckAndUpdate_reject)

text \<open>The nonces of the accepted messages are nonces the window accepts, in the same order.\<close>

lemma decrypt_run_accepted:
  "window_of (replay s) U \<Longrightarrow>
     distinct (map fst (decrypt_run L s ms)) \<and> (\<forall>n\<in>set (map fst (decrypt_run L s ms)). unat n \<notin> U)"
proof (induction ms arbitrary: s U)
  case (Cons m ms)
  show ?case
  proof (cases rule: Decrypt_cases [where L = L and s = s and out = "[]" and msg = m])
    case short
    with Cons show ?thesis by simp
  next
    case (bad cs' e)
    with Cons.IH [of "s\<lparr>recv := cs'\<rparr>" U] Cons.prems show ?thesis by simp
  next
    case (old cs' rw)
    with Cons.IH [of "s\<lparr>recv := cs', replay := rw\<rparr>" U] Cons.prems show ?thesis
      by (auto dest: CheckAndUpdate_reject)
  next
    case (fresh cs' rw p)
    let ?n = "Uint64 (take 8 m)"
    from fresh(2) Cons.prems have "acceptable U (unat ?n)" "window_of rw (insert (unat ?n) U)"
      using window.check_iff [OF Cons.prems, of ?n] window.check_True [OF Cons.prems, of ?n] by simp_all
    with fresh Cons.IH [of "s\<lparr>recv := cs', replay := rw\<rparr>" "insert (unat ?n) U"] show ?thesis
      by (auto simp: acceptable_def)
  qed
qed simp

section \<open>What is assumed of the cipher\<close>

text \<open>
  \<open>matched tx rx\<close>: the states hold the same key. Encryption under a nonce appends to its output
  something that decrypts, under that nonce and the same key, to the plaintext; it advances the
  nonce by one; and no decryption attempt, good or bad, changes the key.
\<close>

definition cipher_ok :: "('cs, 'hs) noise_lib \<Rightarrow> ('cs \<Rightarrow> 'cs \<Rightarrow> bool) \<Rightarrow> bool" where
  "cipher_ok L matched \<longleftrightarrow>
     (\<forall>tx rx out p tx' c. matched tx rx \<longrightarrow> cs_Encrypt L tx out [] p = (tx', Inr c) \<longrightarrow>
        cs_Nonce L tx' = cs_Nonce L tx + 1 \<and> matched tx' rx \<and> take (length out) c = out \<and>
        (\<forall>out'. snd (cs_Decrypt L (cs_SetNonce L rx (cs_Nonce L tx)) out' [] (drop (length out) c))
                 = Inr (out' @ p))) \<and>
     (\<forall>tx rx n out c. matched tx rx \<longrightarrow> matched tx (fst (cs_Decrypt L (cs_SetNonce L rx n) out [] c)))"

text \<open>
  A message that any receiver with the key of \<open>tx\<close> decrypts to \<open>p\<close>, under the nonce it carries.
\<close>

definition good_message ::
  "('cs, 'hs) noise_lib \<Rightarrow> ('cs \<Rightarrow> 'cs \<Rightarrow> bool) \<Rightarrow> 'cs \<Rightarrow> bytes \<Rightarrow> bytes \<Rightarrow> bool" where
  "good_message L matched tx m p \<longleftrightarrow> 8 \<le> length m \<and>
     (\<forall>rx. matched tx rx \<longrightarrow>
        snd (cs_Decrypt L (cs_SetNonce L rx (Uint64 (take 8 m))) [] [] (drop 8 m)) = Inr p)"

lemma Encrypt_framed:
  assumes "cipher_ok L matched" and "matched (send s) rx" and "Encrypt L s out p = (s', Inr m)"
  obtains m0 where "m = out @ m0" "good_message L matched (send s) m0 p" "Uint64 (take 8 m0) = cs_Nonce L (send s)"
    "cs_Nonce L (send s') = cs_Nonce L (send s) + 1" "\<And>rx'. matched (send s) rx' \<Longrightarrow> matched (send s') rx'"
    "recv s' = recv s" "replay s' = replay s"
proof -
  let ?buf = "PutUint64 (cs_Nonce L (send s))"
  from assms(3) have e: "cs_Encrypt L (send s) (out @ ?buf) [] p = (send s', Inr m)" "recv s' = recv s" "replay s' = replay s"
    by (auto simp: Encrypt_def split: prod.splits)
  have len: "length (out @ ?buf) = length out + 8" by simp
  have law: "cs_Nonce L (send s') = cs_Nonce L (send s) + 1 \<and> matched (send s') r \<and> take (length out + 8) m = out @ ?buf \<and>
      snd (cs_Decrypt L (cs_SetNonce L r (cs_Nonce L (send s))) [] [] (drop (length out + 8) m)) = Inr p"
    if "matched (send s) r" for r
    using assms(1) [unfolded cipher_ok_def] that e(1) len by (metis append_Nil)
  define m0 where "m0 = drop (length out) m"
  have t: "take (length out + 8) m = out @ ?buf" using law [OF assms(2)] by blast
  then have l: "length out + 8 \<le> length m" using len by (metis length_take min.cobounded1)
  have "take (length out) m = take (length out) (take (length out + 8) m)" by simp
  then have m: "m = out @ m0" using t by (simp add: m0_def) (metis append_take_drop_id)
  have "take 8 m0 = drop (length out) (take (length out + 8) m)" by (simp add: m0_def drop_take)
  then have n: "take 8 m0 = ?buf" using t by simp
  have d: "drop (length out + 8) m = drop 8 m0" by (simp add: m0_def add.commute)
  have "good_message L matched (send s) m0 p"
    using l n law by (simp add: good_message_def d m0_def [symmetric]) (simp add: m0_def)
  then show ?thesis using m n law assms(2) e(2,3) by (intro that [of m0]) auto
qed

lemma Encrypt_good:
  assumes "cipher_ok L matched" and "matched (send s) rx" and "Encrypt L s [] p = (s', Inr m)"
  shows "good_message L matched (send s) m p" and "Uint64 (take 8 m) = cs_Nonce L (send s)"
    and "cs_Nonce L (send s') = cs_Nonce L (send s) + 1" and "matched (send s) rx' \<Longrightarrow> matched (send s') rx'"
  by (rule Encrypt_framed [OF assms]; simp)+

lemma encrypt_run_good:
  assumes "cipher_ok L matched"
  shows "matched (send s) rx \<Longrightarrow> encrypt_run L s ps = Some ms \<Longrightarrow>
     length ms = length ps \<and> (\<forall>j<length ps. good_message L matched (send s) (ms ! j) (ps ! j) \<and>
        Uint64 (take 8 (ms ! j)) = cs_Nonce L (send s) + of_nat j)"
proof (induction ps arbitrary: s ms)
  case (Cons p ps)
  from Cons.prems(2) obtain s' m ms' where e: "Encrypt L s [] p = (s', Inr m)"
    and r: "encrypt_run L s' ps = Some ms'" and ms: "ms = m # ms'"
    by (auto split: prod.splits sum.splits)
  note good = Encrypt_good [OF assms Cons.prems(1) e]
  have up: "good_message L matched (send s') m' p' \<Longrightarrow> good_message L matched (send s) m' p'" for m' p'
    using good(4) by (auto simp: good_message_def)
  from Cons.IH [OF good(4) [OF Cons.prems(1)] r] good up show ?case
    by (auto simp: ms nth_Cons' less_Suc_eq_0_disj)
qed auto

lemma decrypt_run_good:
  assumes "cipher_ok L matched"
  shows "matched tx (recv s) \<Longrightarrow> (\<forall>(m, p)\<in>set xs. good_message L matched tx m p) \<Longrightarrow>
     accepted CheckAndUpdate (replay s) (map (\<lambda>(m, p). Uint64 (take 8 m)) xs)
       = map (\<lambda>(m, p). Uint64 (take 8 m)) xs \<Longrightarrow>
     decrypt_run L s (map fst xs) = map (\<lambda>(m, p). (Uint64 (take 8 m), p)) xs"
proof (induction xs arbitrary: s)
  case (Cons x xs)
  obtain m p where x: "x = (m, p)" by force
  let ?n = "Uint64 (take 8 m)"
  obtain rw where rw: "CheckAndUpdate (replay s) ?n = (True, rw)"
    "accepted CheckAndUpdate rw (map (\<lambda>(m, p). Uint64 (take 8 m)) xs) = map (\<lambda>(m, p). Uint64 (take 8 m)) xs"
    using Cons.prems(3) accepted_Cons_all [of CheckAndUpdate "replay s" ?n] unfolding x list.map prod.case
    by blast
  obtain cs' where cs': "cs_Decrypt L (cs_SetNonce L (recv s) ?n) [] [] (drop 8 m) = (cs', Inr p)"
    and len: "8 \<le> length m"
  proof -
    have "good_message L matched tx m p" using Cons.prems(2) by (simp add: x)
    then show ?thesis using Cons.prems(1) that unfolding good_message_def by (metis prod.collapse)
  qed
  have "matched tx cs'" using assms [unfolded cipher_ok_def] Cons.prems(1) cs' by (metis fst_conv)
  with Cons.prems(2) rw(2)
  have "decrypt_run L (s\<lparr>recv := cs', replay := rw\<rparr>) (map fst xs) = map (\<lambda>(m, p). (Uint64 (take 8 m), p)) xs"
    by (intro Cons.IH) auto
  with cs' len rw(1) show ?case by (simp add: x Decrypt_def)
qed simp

lemma decrypt_reordered:
  assumes "cipher_ok L matched" and "matched (send a) (recv b)" and "replay b = emptyWindow"
    and good: "length ms = length ps \<and> (\<forall>j<length ps. good_message L matched (send a) (ms ! j) (ps ! j) \<and>
        Uint64 (take 8 (ms ! j)) = cs_Nonce L (send a) + of_nat j)"
    and "unat (cs_Nonce L (send a)) + length ps \<le> 2 ^ 64"
    and "distinct js" and "\<forall>j\<in>set js. j < length ps"
    and "\<forall>i k. i < k \<longrightarrow> k < length js \<longrightarrow> js ! i < js ! k + 64"
  shows "map snd (decrypt_run L b (map (\<lambda>j. ms ! j) js)) = map (\<lambda>j. ps ! j) js"
proof -
  define n0 where "n0 = cs_Nonce L (send a)"
  let ?xs = "map (\<lambda>j. (ms ! j, ps ! j)) js"
  have nonces: "map (\<lambda>(m, p). Uint64 (take 8 m)) ?xs = map (\<lambda>j. n0 + of_nat j) js"
    using good assms(7) by (simp add: n0_def)
  have val: "unat (n0 + of_nat j) = unat n0 + j" if "j \<in> set js" for j
  proof -
    have "unat n0 + j < 2 ^ 64" using assms(5,7) that by (fastforce simp: n0_def)
    then show ?thesis by (simp add: unat_word_ariths unsigned_of_nat take_bit_eq_mod)
  qed
  have "accepted CheckAndUpdate (replay b) (map (\<lambda>(m, p). Uint64 (take 8 m)) ?xs)
      = map (\<lambda>(m, p). Uint64 (take 8 m)) ?xs"
    unfolding nonces assms(3)
  proof (rule window.accepted_all [OF window_of_empty])
    have "inj_on (\<lambda>j. n0 + of_nat j :: 64 word) (set js)"
      by (rule inj_onI) (metis val add_left_cancel)
    then show "distinct (map (\<lambda>j. n0 + of_nat j :: 64 word) js)" using assms(6) by (simp add: distinct_map)
    show "\<And>i k. i < k \<Longrightarrow> k < length (map (\<lambda>j. n0 + of_nat j :: 64 word) js) \<Longrightarrow>
        unat (map (\<lambda>j. n0 + of_nat j :: 64 word) js ! i) < unat (map (\<lambda>j. n0 + of_nat j :: 64 word) js ! k) + 64"
      using assms(8) val by simp
  qed (simp add: acceptable_def)
  moreover have "\<forall>(m, p)\<in>set ?xs. good_message L matched (send a) m p" using good assms(7) by auto
  ultimately have "decrypt_run L b (map fst ?xs) = map (\<lambda>(m, p). (Uint64 (take 8 m), p)) ?xs"
    using decrypt_run_good [OF assms(1,2)] by blast
  then show ?thesis by (simp add: comp_def)
qed

lemma decrypt_in_order:
  assumes "cipher_ok L matched" and "matched (send a) (recv b)" and "replay b = emptyWindow"
    and "cs_Nonce L (send a) = 0" and "length ps \<le> 2 ^ 64"
    and good: "length ms = length ps \<and> (\<forall>j<length ps. good_message L matched (send a) (ms ! j) (ps ! j) \<and>
        Uint64 (take 8 (ms ! j)) = cs_Nonce L (send a) + of_nat j)"
  shows "map snd (decrypt_run L b ms) = ps"
proof -
  have "map snd (decrypt_run L b (map (\<lambda>j. ms ! j) [0..<length ps])) = map (\<lambda>j. ps ! j) [0..<length ps]"
    using assms(4,5) by (intro decrypt_reordered [OF assms(1-3,6)]) simp_all
  then show ?thesis using good by (metis map_nth)
qed

lemma encrypt_run_decrypted:
  assumes "cipher_ok L matched" and "matched (send a) (recv b)" and "replay b = emptyWindow"
    and "cs_Nonce L (send a) = 0" and "length ps \<le> 2 ^ 64" and "encrypt_run L a ps = Some ms"
  shows "map snd (decrypt_run L b ms) = ps"
  by (rule decrypt_in_order [OF assms(1-5) encrypt_run_good [OF assms(1,2,6)]])

section \<open>What is assumed of the handshake\<close>

text \<open>
  The documented behaviour of the NK pattern with an empty payload, for a responder whose static
  public key is the one the initiator was given: the responder reads the initiator's message and the
  initiator the responder's, payloads arrive empty, both ends return two cipher states, and the
  \<^emph>\<open>first\<close> of each is for messages from the initiator to the responder, the \<^emph>\<open>second\<close> for the
  other direction. Nonces start at zero.
\<close>

definition handshake_ok :: "('cs, 'hs) noise_lib \<Rightarrow> ('cs \<Rightarrow> 'cs \<Rightarrow> bool) \<Rightarrow> bool" where
  "handshake_ok L matched \<longleftrightarrow>
     (\<forall>priv pub hi hi' m1 a1 a2 hr out.
        X25519_base L priv = Inr pub \<longrightarrow>
        hs_New L (newConfig\<lparr>cf_Initiator := True, cf_PeerStatic := pub\<rparr>) = Inr hi \<longrightarrow>
        hs_WriteMessage L hi [] [] = (hi', Inr (m1, a1, a2)) \<longrightarrow>
        hs_New L (newConfig\<lparr>cf_StaticKeypair := Some (priv, pub)\<rparr>) = Inr hr \<longrightarrow>
        (\<exists>hr' b1 b2. hs_ReadMessage L hr [] m1 = (hr', Inr ([], b1, b2)) \<and>
           (\<forall>hr'' m2 c1 c2. hs_WriteMessage L hr' out [] = (hr'', Inr (m2, c1, c2)) \<longrightarrow>
              take (length out) m2 = out \<and>
              (\<exists>hi'' d1 d2. hs_ReadMessage L hi' [] (drop (length out) m2) = (hi'', Inr ([], d1, d2)) \<and>
                 matched d1 c1 \<and> matched c2 d2 \<and> cs_Nonce L d1 = 0 \<and> cs_Nonce L c2 = 0))))"

lemma handshake_sessions:
  assumes "handshake_ok L matched" and "X25519_base L priv = Inr pub"
    and "InitiateHandshake L [] pub = Inr (pre, m1)"
    and "AcceptHandshake L out m1 priv = Return (Inr (server, m2))"
  obtains client where "FinishHandshake L pre (drop (length out) m2) = Inr client"
    "matched (send client) (recv server)" "matched (send server) (recv client)"
    "cs_Nonce L (send client) = 0" "cs_Nonce L (send server) = 0"
    "replay client = emptyWindow" "replay server = emptyWindow"
proof -
  from assms(3) obtain hi a1 a2 where i:
    "hs_New L (newConfig\<lparr>cf_Initiator := True, cf_PeerStatic := pub\<rparr>) = Inr hi"
    "hs_WriteMessage L hi [] [] = (handshakeState pre, Inr (m1, a1, a2))"
    by (auto simp: InitiateHandshake_def split: sum.splits prod.splits)
  have cfg: "newConfig\<lparr>cf_Initiator := False, cf_StaticKeypair := Some (priv, pub)\<rparr>
      = newConfig\<lparr>cf_StaticKeypair := Some (priv, pub)\<rparr>"
    by (simp add: newConfig_def)
  from assms(2,4) obtain hr hr' b1 b2 where r:
    "hs_New L (newConfig\<lparr>cf_StaticKeypair := Some (priv, pub)\<rparr>) = Inr hr"
    "hs_ReadMessage L hr [] m1 = (hr', Inr ([], b1, b2))"
    and w: "snd (hs_WriteMessage L hr' out []) = Inr (m2, recv server, send server)"
    and e: "replay server = emptyWindow"
    by (auto simp: AcceptHandshake_def PubkeyFromPrivkey_def cfg split: sum.splits prod.splits if_splits)
  obtain hr'' where w': "hs_WriteMessage L hr' out [] = (hr'', Inr (m2, recv server, send server))"
    using w by (metis prod.collapse)
  have "\<exists>hr' b1 b2. hs_ReadMessage L hr [] m1 = (hr', Inr ([], b1, b2)) \<and>
      (\<forall>hr'' m2 c1 c2. hs_WriteMessage L hr' out [] = (hr'', Inr (m2, c1, c2)) \<longrightarrow>
         take (length out) m2 = out \<and>
         (\<exists>hi'' d1 d2. hs_ReadMessage L (handshakeState pre) [] (drop (length out) m2) = (hi'', Inr ([], d1, d2)) \<and>
            matched d1 c1 \<and> matched c2 d2 \<and> cs_Nonce L d1 = 0 \<and> cs_Nonce L c2 = 0))"
    using assms(1) [unfolded handshake_ok_def] assms(2) i r(1) by metis
  then obtain hi'' d1 d2 where
    "hs_ReadMessage L (handshakeState pre) [] (drop (length out) m2) = (hi'', Inr ([], d1, d2))"
    "matched d1 (recv server)" "matched (send server) d2" "cs_Nonce L d1 = 0" "cs_Nonce L (send server) = 0"
    unfolding r(2) using w' by auto
  with e show ?thesis
    by (intro that [of "\<lparr>recv = d2, send = d1, replay = emptyWindow\<rparr>"])
      (simp_all add: FinishHandshake_def)
qed

section \<open>A concrete library, for the witnesses\<close>

text \<open>
  A key of one byte, XORed onto the data; the handshake sends the key. It has no security, but it
  satisfies the laws, which shows that they are consistent.
\<close>

definition xor_lib :: "(byte \<times> 64 word, byte) noise_lib" where
  "xor_lib = \<lparr>
     cs_Nonce = snd, cs_SetNonce = (\<lambda>(k, _) n. (k, n)),
     cs_Encrypt = (\<lambda>(k, n) out ad p. ((k, n + 1), Inr (out @ map (\<lambda>x. x XOR k) p))),
     cs_Decrypt = (\<lambda>(k, n) out ad c. ((k, n + 1), Inr (out @ map (\<lambda>x. x XOR k) c))),
     hs_New = (\<lambda>c. Inr 7),
     hs_WriteMessage = (\<lambda>hs out p. (hs, Inr (out @ [hs], (hs, 0), (hs + 1, 0)))),
     hs_ReadMessage = (\<lambda>hs out m. (hd m, Inr (out @ tl m, (hd m, 0), (hd m + 1, 0)))),
     X25519_base = Inr\<rparr>"

definition same_key :: "byte \<times> 64 word \<Rightarrow> byte \<times> 64 word \<Rightarrow> bool" where
  "same_key tx rx \<longleftrightarrow> fst tx = fst rx"

lemma xor_lib_cipher_ok: "cipher_ok xor_lib same_key"
  by (auto simp: cipher_ok_def xor_lib_def same_key_def comp_def xor.assoc)

lemma xor_lib_handshake_ok: "handshake_ok xor_lib same_key"
  by (auto simp: handshake_ok_def xor_lib_def same_key_def)

definition xor_session :: "(byte \<times> 64 word) session" where
  "xor_session = \<lparr>recv = (7, 0), send = (7, 0), replay = emptyWindow\<rparr>"

section \<open>Properties\<close>

text \<open>
  No message is accepted twice, whatever the cipher does and whatever is fed to the session: the
  nonces of the messages that a fresh session decrypts successfully are pairwise different.
\<close>

theorem Decrypt_no_replay:
  assumes "replay s = emptyWindow"
  shows "distinct (map fst (decrypt_run L s msgs))"
  using decrypt_run_accepted [of s "{}" L msgs] assms window_of_empty by simp

theorem Decrypt_no_replay_witness:
  "replay xor_session = emptyWindow \<and>
   distinct (map fst (decrypt_run xor_lib xor_session [PutUint64 1 @ [1], PutUint64 1 @ [1], PutUint64 0 @ [2]]))"
proof -
  have "replay xor_session = emptyWindow" by (simp add: xor_session_def)
  then show ?thesis using Decrypt_no_replay by blast
qed

text \<open>
  A failing \<open>Decrypt\<close> (too short, not authentic, or already used) leaves the replay window as it
  was, so forged or replayed messages cannot make later genuine ones fail.
\<close>

theorem Decrypt_failure_keeps_window:
  "Decrypt L s out msg = (s', Inl e) \<Longrightarrow> replay s' = replay s \<and> send s' = send s"
  by (cases rule: Decrypt_cases [where L = L and s = s and out = out and msg = msg])
    (auto dest: CheckAndUpdate_reject)

theorem Decrypt_failure_keeps_window_witness:
  "Decrypt xor_lib xor_session [] [1, 2, 3] = (xor_session, Inl errMissingNonce) \<and>
   replay xor_session = replay xor_session \<and> send xor_session = send xor_session"
proof -
  have "Decrypt xor_lib xor_session [] [1, 2, 3] = (xor_session, Inl errMissingNonce)"
    by (simp add: Decrypt_def)
  then show ?thesis using Decrypt_failure_keeps_window by blast
qed

text \<open>
  The channel delivers: with a cipher that satisfies \<open>cipher_ok\<close>, what one end encrypts is
  decrypted by a fresh peer with the matching key to the same packets, in whatever order the messages
  arrive, as long as each arrives once and none arrives after one sent 64 or more places later.
\<close>

theorem channel_delivers:
  assumes "cipher_ok L matched" and "matched (send a) (recv b)" and "replay b = emptyWindow"
    and "encrypt_run L a ps = Some ms"
    and "unat (cs_Nonce L (send a)) + length ps \<le> 2 ^ 64"
    and "distinct js" and "\<forall>j\<in>set js. j < length ps"
    and "\<forall>i k. i < k \<longrightarrow> k < length js \<longrightarrow> js ! i < js ! k + 64"
  shows "map snd (decrypt_run L b (map (\<lambda>j. ms ! j) js)) = map (\<lambda>j. ps ! j) js"
  by (rule decrypt_reordered [OF assms(1-3) encrypt_run_good [OF assms(1,2,4)] assms(5-)])

theorem channel_delivers_witness:
  "\<exists>ms. encrypt_run xor_lib xor_session [[1], [2, 3]] = Some ms \<and>
     map snd (decrypt_run xor_lib xor_session (map (\<lambda>j. ms ! j) [1, 0])) = [[2, 3], [1]]"
proof -
  obtain ms where ms: "encrypt_run xor_lib xor_session [[1], [2, 3]] = Some ms"
    by (simp add: Encrypt_def xor_lib_def xor_session_def)
  have "map snd (decrypt_run xor_lib xor_session (map (\<lambda>j. ms ! j) [1, 0])) = map (\<lambda>j. [[1], [2, 3]] ! j) [1, 0]"
  proof (rule channel_delivers [OF xor_lib_cipher_ok _ _ ms])
    show "\<forall>i k. i < k \<longrightarrow> k < length [1, 0 :: nat] \<longrightarrow> [1, 0 :: nat] ! i < [1, 0] ! k + 64"
      by (auto simp: less_Suc_eq)
  qed (simp_all add: same_key_def xor_session_def xor_lib_def)
  with ms show ?thesis by simp
qed

text \<open>
  Handshake and transport together, in both directions: when the server accepts what
  \<open>InitiateHandshake\<close> produced for its public key, the client's \<open>FinishHandshake\<close> on the server's
  answer succeeds, and in the resulting pair of sessions whatever one side encrypts the other side
  decrypts, packet by packet.
\<close>

theorem handshake_channel:
  assumes "cipher_ok L matched" and "handshake_ok L matched" and "X25519_base L priv = Inr pub"
    and "InitiateHandshake L [] pub = Inr (pre, m1)"
    and "AcceptHandshake L out m1 priv = Return (Inr (server, m2))"
  shows "\<exists>client. FinishHandshake L pre (drop (length out) m2) = Inr client \<and>
    (\<forall>ps ms. length ps \<le> 2 ^ 64 \<longrightarrow> encrypt_run L client ps = Some ms \<longrightarrow>
       map snd (decrypt_run L server ms) = ps) \<and>
    (\<forall>ps ms. length ps \<le> 2 ^ 64 \<longrightarrow> encrypt_run L server ps = Some ms \<longrightarrow>
       map snd (decrypt_run L client ms) = ps)"
proof -
  from assms(2-5) obtain client where c: "FinishHandshake L pre (drop (length out) m2) = Inr client"
    "matched (send client) (recv server)" "matched (send server) (recv client)"
    "cs_Nonce L (send client) = 0" "cs_Nonce L (send server) = 0"
    "replay client = emptyWindow" "replay server = emptyWindow"
    by (rule handshake_sessions)
  have "map snd (decrypt_run L b ms) = ps"
    if "matched (send a) (recv b)" "replay b = emptyWindow" "cs_Nonce L (send a) = 0"
      "length ps \<le> 2 ^ 64" "encrypt_run L a ps = Some ms" for a b ps ms
    using encrypt_run_decrypted [OF assms(1)] that by simp
  with c show ?thesis by blast
qed

theorem handshake_channel_witness:
  "\<exists>pre m1 server m2. InitiateHandshake xor_lib [] [5] = Inr (pre, m1) \<and>
     AcceptHandshake xor_lib [] m1 [5] = Return (Inr (server, m2)) \<and>
     (\<exists>client. FinishHandshake xor_lib pre (drop (length ([] :: bytes)) m2) = Inr client)"
proof -
  obtain pre m1 server m2 where h: "InitiateHandshake xor_lib [] [5] = Inr (pre, m1)"
    "AcceptHandshake xor_lib [] m1 [5] = Return (Inr (server, m2))"
    by (simp add: InitiateHandshake_def AcceptHandshake_def PubkeyFromPrivkey_def xor_lib_def)
  have "X25519_base xor_lib [5] = Inr [5]" by (simp add: xor_lib_def)
  from handshake_channel [OF xor_lib_cipher_ok xor_lib_handshake_ok this h] h show ?thesis by blast
qed

end
