(* ===== verification/Noise_Keys.thy ===== *)
theory Noise_Keys
  imports Noise_Session
begin

text \<open>
  Keys as text: \<open>ReadKey\<close>, \<open>WriteKey\<close>, \<open>DecodeKey\<close> and \<open>EncodeKey\<close> of
  \<^verbatim>\<open>noise/noise.go\<close> with the functions of \<^verbatim>\<open>encoding/hex\<close>, \<^verbatim>\<open>bufio\<close> and \<^verbatim>\<open>io\<close> they call,
  and \<open>generateKeypair\<close> and \<open>readKeyFromFile\<close> of \<^verbatim>\<open>champa-server/keys.go\<close>.

  The file system is a map from names to contents. Which system calls fail, and how many bytes a
  failing write has written, is decided by a record \<open>osenv\<close>, so that the theorems hold for every
  pattern of failures.
\<close>

section \<open>encoding/hex\<close>

definition hexDigit :: "nat \<Rightarrow> byte" where
  "hexDigit n = of_nat (if n < 10 then n + 48 else n + 87)"

definition fromHexChar :: "byte \<Rightarrow> nat option" where
  "fromHexChar c =
     (let n = unat c in
      if 48 \<le> n \<and> n \<le> 57 then Some (n - 48)
      else if 97 \<le> n \<and> n \<le> 102 then Some (n - 87)
      else if 65 \<le> n \<and> n \<le> 70 then Some (n - 55)
      else None)"

fun hexEncodeToString :: "bytes \<Rightarrow> bytes" where
  "hexEncodeToString [] = []"
| "hexEncodeToString (b # bs) = hexDigit (unat b div 16) # hexDigit (unat b mod 16) # hexEncodeToString bs"

fun hexDecodeString :: "bytes \<Rightarrow> bytes \<times> goerror option" where
  "hexDecodeString [] = ([], None)"
| "hexDecodeString [p] = ([], Some (if fromHexChar p = None then InvalidByteError p else ErrHexLength))"
| "hexDecodeString (p # q # s) =
     (case fromHexChar p of
        None \<Rightarrow> ([], Some (InvalidByteError p))
      | Some a \<Rightarrow>
          (case fromHexChar q of
             None \<Rightarrow> ([], Some (InvalidByteError q))
           | Some b \<Rightarrow> (let (bs, err) = hexDecodeString s in (of_nat (16 * a + b) # bs, err))))"

section \<open>bufio\<close>

definition ReadString :: "reader \<Rightarrow> byte \<Rightarrow> (bytes \<times> goerror option) \<times> reader" where
  "ReadString r delim =
     (case dropWhile (\<lambda>b. b \<noteq> delim) (rdata r) of
        [] \<Rightarrow> ((rdata r, Some (rerr r)), r\<lparr>rdata := []\<rparr>)
      | _ # rest \<Rightarrow> ((takeWhile (\<lambda>b. b \<noteq> delim) (rdata r) @ [delim], None), r\<lparr>rdata := rest\<rparr>))"

definition TrimSuffix :: "bytes \<Rightarrow> bytes \<Rightarrow> bytes" where
  "TrimSuffix s suffix =
     (if length suffix \<le> length s \<and> drop (length s - length suffix) s = suffix
      then take (length s - length suffix) s else s)"

section \<open>noise.go\<close>

definition KeyLen :: nat where
  "KeyLen = 32"

definition newline :: byte where
  "newline = 10"

definition DecodeKey :: "bytes \<Rightarrow> bytes \<times> goerror option" where
  "DecodeKey s =
     (let (key, err) = hexDecodeString s;
          err = (if err = None \<and> length key \<noteq> KeyLen then Some (ErrKeyLength (length key)) else err)
      in (key, err))"

definition EncodeKey :: "bytes \<Rightarrow> bytes" where
  "EncodeKey key = hexEncodeToString key"

definition ReadKey :: "reader \<Rightarrow> bytes \<times> goerror option" where
  "ReadKey r =
     (let ((line, err), br) = ReadString (LimitReader r 100) newline;
          err = (if err = Some EOF then None else err);
          err = (if err = None then
                   (case fst (Read1 br) of
                      Inl e \<Rightarrow> (if e = EOF then None else Some e)
                    | Inr _ \<Rightarrow> Some (ErrorText ''file contains more than one line''))
                 else err)
      in if err \<noteq> None then ([], err)
         else DecodeKey (TrimSuffix line [newline]))"

definition WriteKey :: "'w io_write \<Rightarrow> 'w \<Rightarrow> bytes \<Rightarrow> 'w \<times> goerror option" where
  "WriteKey wr w key =
     (let (w', n, err) = wr w (hexEncodeToString key @ [newline]) in (w', err))"

section \<open>keys.go\<close>

record osenv =
  os_open :: "bytes \<Rightarrow> goerror option"
  os_write :: "bytes \<Rightarrow> (nat \<times> goerror) option"
  os_close :: "bytes \<Rightarrow> goerror option"
  os_remove :: "bytes \<Rightarrow> goerror option"

type_synonym files = "bytes \<Rightarrow> bytes option"

definition file_contents :: "files \<Rightarrow> bytes \<Rightarrow> bytes" where
  "file_contents fs f = (case fs f of None \<Rightarrow> [] | Some d \<Rightarrow> d)"

text \<open>\<^verbatim>\<open>os.OpenFile\<close> with \<^verbatim>\<open>O_CREATE\<close>, and \<^verbatim>\<open>os.Create\<close>, which also truncates.\<close>

definition OpenFile :: "osenv \<Rightarrow> bool \<Rightarrow> bytes \<Rightarrow> files \<Rightarrow> files \<times> goerror option" where
  "OpenFile E trunc f fs =
     (case os_open E f of
        Some e \<Rightarrow> (fs, Some e)
      | None \<Rightarrow> (fs(f \<mapsto> (if trunc then [] else file_contents fs f)), None))"

text \<open>The first write to a file that was just opened, from offset 0.\<close>

definition file_Write :: "osenv \<Rightarrow> bytes \<Rightarrow> files io_write" where
  "file_Write E f fs p =
     (case os_write E f of
        None \<Rightarrow> (fs(f \<mapsto> p @ drop (length p) (file_contents fs f)), length p, None)
      | Some (n, e) \<Rightarrow> (fs(f \<mapsto> take n p @ drop (length (take n p)) (file_contents fs f)), length (take n p), Some e))"

definition Remove :: "osenv \<Rightarrow> bytes \<Rightarrow> files \<Rightarrow> files \<times> goerror option" where
  "Remove E f fs =
     (if os_remove E f \<noteq> None then (fs, os_remove E f)
      else if fs f = None then (fs, Some (ErrorText ''no such file''))
      else (fs(f := None), None))"

text \<open>The deferred clean-up; \<open>err\<close> is the named result.\<close>

fun deleteFiles :: "osenv \<Rightarrow> bytes list \<Rightarrow> files \<Rightarrow> goerror option \<Rightarrow> files \<times> goerror option" where
  "deleteFiles E [] fs err = (fs, err)"
| "deleteFiles E (f # toDelete) fs err =
     (let (fs', closeErr) = Remove E f fs
      in deleteFiles E toDelete fs' (if err = None then closeErr else err))"

text \<open>One of the two blocks that save a key: the files to delete on error, and the error.\<close>

definition saveKey :: "osenv \<Rightarrow> bool \<Rightarrow> bytes \<Rightarrow> bytes \<Rightarrow> files \<Rightarrow> files \<times> bytes list \<times> goerror option" where
  "saveKey E trunc f key fs =
     (if f = [] then (fs, [], None)
      else
        (case OpenFile E trunc f fs of
           (fs1, Some e) \<Rightarrow> (fs1, [], Some e)
         | (fs1, None) \<Rightarrow>
             (let (fs2, err) = WriteKey (file_Write E f) fs1 key;
                  err2 = os_close E f
              in (fs2, [f], if err = None then err2 else err))))"

definition report :: "string \<Rightarrow> bytes \<Rightarrow> bytes \<Rightarrow> bytes" where
  "report label f key =
     (if f \<noteq> [] then str label @ str ''written to '' @ f @ [newline]
      else str label @ hexEncodeToString key @ [newline])"

text \<open>
  The result is the file system, what was printed to standard output, and the error. \<open>gen\<close> is
  what the random key generator returned.
\<close>

definition generateKeypair ::
  "('cs, 'hs) noise_lib \<Rightarrow> osenv \<Rightarrow> bytes \<times> goerror option \<Rightarrow> bytes \<Rightarrow> bytes \<Rightarrow> files \<Rightarrow>
   (files \<times> bytes \<times> goerror option) run" where
  "generateKeypair L E gen privkeyFilename pubkeyFilename fs =
     (let (privkey, err) = gen in
      if err \<noteq> None then Return (fs, [], err)
      else
        (case PubkeyFromPrivkey L privkey of
           Panic s \<Rightarrow> Panic s
         | Return pubkey \<Rightarrow> Return
             (let (fs1, del1, err1) = saveKey E False privkeyFilename privkey fs in
              if err1 \<noteq> None then (let (fs', err') = deleteFiles E del1 fs1 err1 in (fs', [], err'))
              else
                (let (fs2, del2, err2) = saveKey E True pubkeyFilename pubkey fs1 in
                 if err2 \<noteq> None
                 then (let (fs', err') = deleteFiles E (del1 @ del2) fs2 err2 in (fs', [], err'))
                 else (fs2, report ''privkey '' privkeyFilename privkey @
                            report ''pubkey  '' pubkeyFilename pubkey, None)))))"

definition readKeyFromFile :: "osenv \<Rightarrow> files \<Rightarrow> bytes \<Rightarrow> bytes \<times> goerror option" where
  "readKeyFromFile E fs f =
     (case os_open E f of
        Some e \<Rightarrow> ([], Some e)
      | None \<Rightarrow>
          (case fs f of
             None \<Rightarrow> ([], Some (ErrorText ''no such file''))
           | Some d \<Rightarrow> ReadKey (eof_reader d)))"

section \<open>Hex\<close>

definition toLowerHex :: "byte \<Rightarrow> byte" where
  "toLowerHex c = (if 65 \<le> unat c \<and> unat c \<le> 70 then c + 32 else c)"

lemma unat_of_nat_byte: "n < 256 \<Longrightarrow> unat (of_nat n :: byte) = n"
  by (simp add: unsigned_of_nat take_bit_eq_mod)

lemma fromHexChar_hexDigit [simp]: "n < 16 \<Longrightarrow> fromHexChar (hexDigit n) = Some n"
  by (auto simp: fromHexChar_def hexDigit_def unat_of_nat_byte Let_def)

lemma hexDigit_fromHexChar: "fromHexChar c = Some n \<Longrightarrow> n < 16 \<and> hexDigit n = toLowerHex c"
proof -
  assume *: "fromHexChar c = Some n"
  then have "n < 16" by (auto simp: fromHexChar_def Let_def split: if_splits)
  moreover have "unat (c + 32) = unat c + 32" if "unat c \<le> 70"
    using that by (simp add: unat_word_ariths)
  moreover from * have "unat (hexDigit n) = unat (toLowerHex c)"
    using calculation(2)
    by (auto simp: fromHexChar_def hexDigit_def toLowerHex_def unat_of_nat_byte Let_def
        simp del: of_nat_add split: if_splits)
  ultimately show ?thesis by (auto dest: unsigned_word_eqI)
qed

lemma length_hexEncode [simp]: "length (hexEncodeToString bs) = 2 * length bs"
  by (induction bs) auto

lemma hexDecode_Encode [simp]: "hexDecodeString (hexEncodeToString bs) = (bs, None)"
proof (induction bs)
  case (Cons b bs)
  have "unat b div 16 < 16" using unat_byte_less [of b] by linarith
  moreover have "of_nat (16 * (unat b div 16) + unat b mod 16) = b"
    by (simp del: of_nat_add add: mult_div_mod_eq)
  ultimately show ?case using Cons.IH by (simp del: of_nat_add)
qed simp

lemma hexDecode_ok:
  "hexDecodeString s = (bs, None) \<Longrightarrow> map toLowerHex s = hexEncodeToString bs"
proof (induction s arbitrary: bs rule: hexDecodeString.induct)
  case (3 p q s)
  then obtain a b bs' where ab: "fromHexChar p = Some a" "fromHexChar q = Some b"
    "hexDecodeString s = (bs', None)" "bs = of_nat (16 * a + b) # bs'"
    by (auto split: option.splits prod.splits)
  then have "a < 16" "b < 16" using hexDigit_fromHexChar by blast+
  then have "unat (of_nat (16 * a + b) :: byte) = 16 * a + b" by (simp add: unat_of_nat_byte del: of_nat_add)
  then show ?case using 3 ab hexDigit_fromHexChar \<open>a < 16\<close> \<open>b < 16\<close> by (simp del: of_nat_add)
qed auto

lemma fromHexChar_toLower: "fromHexChar (toLowerHex c) = fromHexChar c"
proof -
  have "unat (c + 32) = unat c + 32" if "unat c \<le> 70"
    using that by (simp add: unat_word_ariths)
  then show ?thesis by (auto simp: fromHexChar_def toLowerHex_def Let_def)
qed

lemma hexDecode_toLower: "snd (hexDecodeString (map toLowerHex s)) = None \<Longrightarrow>
   hexDecodeString s = hexDecodeString (map toLowerHex s)"
  by (induction s rule: hexDecodeString.induct)
    (auto simp: fromHexChar_toLower split: option.splits prod.splits)

lemma hexDecode_iff: "hexDecodeString s = (bs, None) \<longleftrightarrow> map toLowerHex s = hexEncodeToString bs"
  using hexDecode_ok hexDecode_toLower [of s] by fastforce

lemma newline_not_hex: "newline \<noteq> hexDigit n" if "n < 16"
proof -
  have "unat (hexDigit n) \<noteq> 10" using that by (auto simp: hexDigit_def unat_of_nat_byte simp del: of_nat_add)
  then show ?thesis by (auto simp: newline_def)
qed

lemma newline_notin_hexEncode: "newline \<notin> set (hexEncodeToString bs)"
proof (induction bs)
  case (Cons b bs)
  have "unat b div 16 < 16" using unat_byte_less [of b] by linarith
  then show ?case using Cons newline_not_hex by simp
qed simp

section \<open>Reading a key\<close>

lemma TrimSuffix_newline: "TrimSuffix (s @ [newline]) [newline] = s"
  by (simp add: TrimSuffix_def)

lemma TrimSuffix_none: "newline \<notin> set s \<Longrightarrow> TrimSuffix s [newline] = s"
proof -
  assume n: "newline \<notin> set s"
  have "drop (length s - 1) s \<noteq> [newline]" using n in_set_dropD [of newline "length s - 1" s] by auto
  then show ?thesis by (simp add: TrimSuffix_def)
qed

lemma dropWhile_newline:
  "newline \<notin> set s \<Longrightarrow> dropWhile (\<lambda>b. b \<noteq> newline) (s @ t) = dropWhile (\<lambda>b. b \<noteq> newline) t"
  "newline \<notin> set s \<Longrightarrow> takeWhile (\<lambda>b. b \<noteq> newline) (s @ t) = s @ takeWhile (\<lambda>b. b \<noteq> newline) t"
  by (induction s) auto

lemma DecodeKey_iff:
  "DecodeKey s = (key, None) \<longleftrightarrow> map toLowerHex s = hexEncodeToString key \<and> length key = KeyLen"
  by (cases "hexDecodeString s") (auto simp: DecodeKey_def hexDecode_iff [symmetric])

lemma LimitReader_eof [simp]: "LimitReader (eof_reader d) n = eof_reader (take n d)"
  by (simp add: LimitReader_def)

lemma ReadKey_line:
  assumes "newline \<notin> set line" and "length line + length nl < 100" and "nl = [] \<or> nl = [newline]"
  shows "ReadKey (eof_reader (line @ nl)) = DecodeKey line"
  using assms
  by (auto simp: ReadKey_def ReadString_def dropWhile_newline TrimSuffix_none
      TrimSuffix_newline Read1_def split: list.splits)

text \<open>What is left after the first line: nothing, or only its terminator.\<close>

lemma ReadKey_shape:
  assumes "ReadKey (eof_reader d) = (key, None)"
  obtains line nl where "take 100 d = line @ nl" "nl = [] \<or> nl = [newline]" "newline \<notin> set line"
    "DecodeKey line = (key, None)"
proof (cases "dropWhile (\<lambda>b. b \<noteq> newline) (take 100 d)")
  case Nil
  then have "newline \<notin> set (take 100 d)" by (auto simp: dropWhile_eq_Nil_conv)
  moreover from this assms Nil have "DecodeKey (take 100 d) = (key, None)"
    by (simp add: ReadKey_def ReadString_def TrimSuffix_none Read1_def)
  ultimately show ?thesis using that [of "take 100 d" "[]"] by simp
next
  case (Cons b rest)
  let ?l = "takeWhile (\<lambda>b. b \<noteq> newline) (take 100 d)"
  have b: "b = newline" using Cons hd_dropWhile [of "\<lambda>b. b \<noteq> newline" "take 100 d"] by auto
  have d: "take 100 d = ?l @ newline # rest" using Cons b takeWhile_dropWhile_id by metis
  have "rest = []" "DecodeKey ?l = (key, None)"
    using assms Cons b
    by (auto simp: ReadKey_def ReadString_def TrimSuffix_newline Read1_def
        split: list.splits if_splits)
  with d that [of ?l "[newline]"] show ?thesis
    by (metis (full_types) set_takeWhileD)
qed

lemma lower_newline: "newline \<in> set s \<Longrightarrow> newline \<in> set (map toLowerHex s)"
proof -
  have "toLowerHex newline = newline" by (simp add: toLowerHex_def newline_def)
  then show "newline \<in> set s \<Longrightarrow> newline \<in> set (map toLowerHex s)" by (metis image_eqI image_set)
qed

lemma DecodeKey_line:
  assumes "DecodeKey line = (key, None)"
  shows "length line = 64" and "newline \<notin> set line"
proof -
  have h: "map toLowerHex line = hexEncodeToString key" "length key = KeyLen"
    using assms by (simp_all add: DecodeKey_iff)
  show "length line = 64" using arg_cong [OF h(1), of length] h(2) by (simp add: KeyLen_def)
  show "newline \<notin> set line" using h(1) newline_notin_hexEncode lower_newline by metis
qed

section \<open>Properties of key text\<close>

text \<open>
  \<open>ReadKey\<close> accepts exactly the files that consist of one line with the 64 hexadecimal digits of
  a 32-byte key, in either case, with or without a final newline; anything longer, a second line or
  another character is refused.
\<close>

theorem ReadKey_accepts:
  "ReadKey (eof_reader d) = (key, None) \<longleftrightarrow>
     length key = KeyLen \<and>
     (\<exists>line nl. d = line @ nl \<and> (nl = [] \<or> nl = [newline]) \<and> map toLowerHex line = EncodeKey key)"
proof
  assume "ReadKey (eof_reader d) = (key, None)"
  then obtain line nl where s: "take 100 d = line @ nl" "nl = [] \<or> nl = [newline]"
    and k: "DecodeKey line = (key, None)" by (rule ReadKey_shape)
  have "length (take 100 d) \<le> 65" using s DecodeKey_line(1) [OF k] by auto
  then have "take 100 d = d" by (simp add: min_def split: if_splits)
  with s k show "length key = KeyLen \<and>
     (\<exists>line nl. d = line @ nl \<and> (nl = [] \<or> nl = [newline]) \<and> map toLowerHex line = EncodeKey key)"
    by (auto simp: DecodeKey_iff EncodeKey_def)
next
  assume "length key = KeyLen \<and>
     (\<exists>line nl. d = line @ nl \<and> (nl = [] \<or> nl = [newline]) \<and> map toLowerHex line = EncodeKey key)"
  then obtain line nl where d: "d = line @ nl" "nl = [] \<or> nl = [newline]"
    and "DecodeKey line = (key, None)" by (auto simp: DecodeKey_iff EncodeKey_def)
  with ReadKey_line [of line nl] DecodeKey_line [of line key]
  show "ReadKey (eof_reader d) = (key, None)" by auto
qed

lemma ReadKey_hexEncode:
  "length key = KeyLen \<Longrightarrow> ReadKey (eof_reader (hexEncodeToString key @ [newline])) = (key, None)"
  using ReadKey_line [of "hexEncodeToString key" "[newline]"] newline_notin_hexEncode [of key]
  by (simp add: KeyLen_def DecodeKey_def)

context io_writer
begin

lemma WriteKey_content:
  "ok w \<Longrightarrow> WriteKey wr w key = (w', None) \<Longrightarrow> content w' = content w @ hexEncodeToString key @ [newline] \<and> ok w'"
  using write_content write_ok by (auto simp: WriteKey_def split: prod.splits)

end

text \<open>
  Writing a key and reading it back gives the key, for every 32-byte key.
\<close>

theorem WriteKey_ReadKey:
  assumes "length key = KeyLen"
  shows "(let (f, err) = WriteKey buffer_Write [] key in err = None \<and> ReadKey (eof_reader f) = (key, None))"
proof -
  obtain f where f: "WriteKey buffer_Write [] key = (f, None)"
    by (simp add: WriteKey_def buffer_Write_def)
  with buffer.WriteKey_content [OF _ f] ReadKey_hexEncode [OF assms] show ?thesis by simp
qed

theorem WriteKey_ReadKey_witness:
  "(let (f, err) = WriteKey buffer_Write [] (replicate 32 0xAB)
    in err = None \<and> ReadKey (eof_reader f) = (replicate 32 0xAB, None))"
  by (rule WriteKey_ReadKey) (simp add: KeyLen_def)

section \<open>Saving a key pair\<close>

text \<open>What the two blocks and the clean-up can change.\<close>

lemma saveKey_frame:
  assumes "saveKey E trunc f key fs = (fs', del, err)"
  shows "set del \<subseteq> {f}" and "fs' g \<noteq> fs g \<Longrightarrow> g \<in> set del"
  using assms
  by (auto simp: saveKey_def OpenFile_def WriteKey_def file_Write_def Let_def fun_upd_apply
      split: if_splits option.splits prod.splits)

lemma saveKey_ok:
  assumes "saveKey E trunc f key fs = (fs', del, None)" and "f \<noteq> []"
    and "trunc \<or> length (file_contents fs f) \<le> 2 * length key + 1"
  shows "fs' f = Some (hexEncodeToString key @ [newline])" and "del = [f]" and "os_open E f = None"
  using assms
  by (auto simp: saveKey_def OpenFile_def WriteKey_def file_Write_def file_contents_def Let_def
      split: if_splits option.splits prod.splits)

lemma deleteFiles_error: "err \<noteq> None \<Longrightarrow> snd (deleteFiles E del fs err) = err"
  by (induction del arbitrary: fs) (auto split: prod.splits)

lemma deleteFiles_removes:
  assumes "\<And>f. os_remove E f = None"
  shows "fst (deleteFiles E del fs err) = (\<lambda>g. if g \<in> set del then None else fs g)"
  by (induction del arbitrary: fs err) (auto simp: Remove_def assms split: prod.splits if_splits)

lemma generateKeypair_eq:
  assumes "PubkeyFromPrivkey L privkey = Return pubkey"
    and "saveKey E False privName privkey fs = (fs1, del1, err1)"
    and "saveKey E True pubName pubkey fs1 = (fs2, del2, err2)"
  shows "generateKeypair L E (privkey, None) privName pubName fs = Return
    (if err1 \<noteq> None then (fst (deleteFiles E del1 fs1 err1), [], err1)
     else if err2 \<noteq> None then (fst (deleteFiles E (del1 @ del2) fs2 err2), [], err2)
     else (fs2, report ''privkey '' privName privkey @ report ''pubkey  '' pubName pubkey, None))"
  using deleteFiles_error [of err1 E del1 fs1] deleteFiles_error [of err2 E "del1 @ del2" fs2]
  by (auto simp: generateKeypair_def assms split: prod.splits)

text \<open>
  When \<open>generateKeypair\<close> fails and files can be removed, it leaves no partially written key
  behind: every file is as it was before, or is one of the two named files and is gone; and nothing
  is printed.
\<close>

theorem generateKeypair_cleanup:
  assumes "generateKeypair L E gen privName pubName fs = Return (fs', out, Some e)"
    and "\<And>f. os_remove E f = None"
  shows "(\<forall>f. fs' f = fs f \<or> f \<in> {privName, pubName} \<and> fs' f = None) \<and> out = []"
proof -
  obtain privkey err where gen: "gen = (privkey, err)" by force
  obtain fs1 del1 err1 where s1: "saveKey E False privName privkey fs = (fs1, del1, err1)"
    by (cases "saveKey E False privName privkey fs") auto
  consider "err \<noteq> None" | pubkey where "err = None" "PubkeyFromPrivkey L privkey = Return pubkey"
    using assms(1) by (cases "err = None") (auto simp: generateKeypair_def gen split: run.splits)
  then show ?thesis
  proof cases
    case 1
    then show ?thesis using assms(1) by (simp add: generateKeypair_def gen)
  next
    case 2
    obtain fs2 del2 err2 where s2: "saveKey E True pubName pubkey fs1 = (fs2, del2, err2)"
      by (cases "saveKey E True pubName pubkey fs1") auto
    note gk = assms(1) [unfolded gen 2(1) generateKeypair_eq [OF 2(2) s1 s2]]
    show ?thesis
    proof (cases "err1 = None")
      case True
      then have r: "fs' = fst (deleteFiles E (del1 @ del2) fs2 err2)" "out = []"
        using gk by (auto split: if_splits)
      then show ?thesis
        using saveKey_frame [OF s1] saveKey_frame [OF s2] unfolding deleteFiles_removes [OF assms(2)]
        by auto metis+
    next
      case False
      then have r: "fs' = fst (deleteFiles E del1 fs1 err1)" "out = []"
        using gk by auto
      then show ?thesis
        using saveKey_frame [OF s1] unfolding deleteFiles_removes [OF assms(2)] by auto
    qed
  qed
qed

definition no_failures :: osenv where
  "no_failures = \<lparr>os_open = (\<lambda>_. None), os_write = (\<lambda>_. None), os_close = (\<lambda>_. None), os_remove = (\<lambda>_. None)\<rparr>"

theorem generateKeypair_cleanup_witness:
  "\<exists>fs'. generateKeypair xor_lib (no_failures\<lparr>os_write := (\<lambda>f. if f = str ''pub'' then Some (3, ExtErr 28) else None)\<rparr>)
       (replicate 32 1, None) (str ''priv'') (str ''pub'') Map.empty = Return (fs', [], Some (ExtErr 28)) \<and>
     fs' (str ''priv'') = None \<and> fs' (str ''pub'') = None"
proof -
  let ?E = "no_failures\<lparr>os_write := (\<lambda>f. if f = str ''pub'' then Some (3, ExtErr 28) else None)\<rparr>"
  obtain fs' where r: "generateKeypair xor_lib ?E (replicate 32 1, None) (str ''priv'') (str ''pub'') Map.empty
      = Return (fs', [], Some (ExtErr 28))"
    by (simp add: generateKeypair_def PubkeyFromPrivkey_def xor_lib_def saveKey_def OpenFile_def WriteKey_def
        file_Write_def no_failures_def str_def Remove_def)
  have "os_remove ?E f = None" for f by (simp add: no_failures_def)
  with generateKeypair_cleanup [OF r] have "\<forall>f. fs' f = None" by force
  with r show ?thesis by blast
qed

text \<open>
  When \<open>generateKeypair\<close> succeeds with two different file names, \<open>readKeyFromFile\<close> reads from
  them the private key that was generated and the public key that belongs to it, provided the private
  key's file did not exist (or held no more than the 65 bytes of a key: it is opened without
  truncation).
\<close>

theorem generateKeypair_readable:
  assumes "generateKeypair L E (privkey, None) privName pubName fs = Return (fs', out, None)"
    and "PubkeyFromPrivkey L privkey = Return pubkey"
    and "privName \<noteq> []" and "pubName \<noteq> []" and "privName \<noteq> pubName"
    and "length privkey = KeyLen" and "length pubkey = KeyLen"
    and "length (file_contents fs privName) \<le> 65"
  shows "readKeyFromFile E fs' privName = (privkey, None) \<and> readKeyFromFile E fs' pubName = (pubkey, None)"
proof -
  obtain fs1 del1 err1 where s1: "saveKey E False privName privkey fs = (fs1, del1, err1)"
    by (cases "saveKey E False privName privkey fs") auto
  obtain fs2 del2 err2 where s2: "saveKey E True pubName pubkey fs1 = (fs2, del2, err2)"
    by (cases "saveKey E True pubName pubkey fs1") auto
  note gk = assms(1) [unfolded generateKeypair_eq [OF assms(2) s1 s2]]
  have ok: "err1 = None" "err2 = None" "fs' = fs2"
    using gk by (auto split: if_splits)
  note o1 = saveKey_ok [OF s1 [unfolded ok] assms(3)] and o2 = saveKey_ok [OF s2 [unfolded ok] assms(4)]
  have "fs' privName = fs1 privName" using saveKey_frame [OF s2] assms(5) ok(3) by auto
  then show ?thesis
    using o1 o2 ok(3) assms(6-8) by (simp add: readKeyFromFile_def ReadKey_hexEncode KeyLen_def)
qed

theorem generateKeypair_readable_witness:
  "\<exists>fs' out. generateKeypair xor_lib no_failures (replicate 32 1, None) (str ''priv'') (str ''pub'') Map.empty
       = Return (fs', out, None) \<and>
     readKeyFromFile no_failures fs' (str ''priv'') = (replicate 32 1, None) \<and>
     readKeyFromFile no_failures fs' (str ''pub'') = (replicate 32 1, None)"
proof -
  obtain fs' out where r: "generateKeypair xor_lib no_failures (replicate 32 1, None) (str ''priv'') (str ''pub'') Map.empty
      = Return (fs', out, None)"
    by (simp add: generateKeypair_def PubkeyFromPrivkey_def xor_lib_def saveKey_def OpenFile_def WriteKey_def
        file_Write_def no_failures_def str_def)
  have "PubkeyFromPrivkey xor_lib (replicate 32 1) = Return (replicate 32 1)"
    by (simp add: PubkeyFromPrivkey_def xor_lib_def)
  from generateKeypair_readable [OF r this] r show ?thesis
    by (auto simp: str_def KeyLen_def file_contents_def)
qed

text \<open>
  The private key's file is not truncated: if it exists and holds more than 65 bytes, a successful
  \<open>generateKeypair\<close> leaves the old tail behind the key, and \<open>readKeyFromFile\<close> refuses the file
  because it has more than one line.
\<close>

theorem generateKeypair_keeps_tail:
  assumes "generateKeypair L E (privkey, None) privName pubName fs = Return (fs', out, None)"
    and "privName \<noteq> []" and "privName \<noteq> pubName" and "length privkey = KeyLen"
    and "fs privName = Some old" and "65 < length old"
  shows "fs' privName = Some (EncodeKey privkey @ [newline] @ drop 65 old) \<and>
    readKeyFromFile E fs' privName = ([], Some (ErrorText ''file contains more than one line''))"
proof -
  obtain fs1 del1 err1 where s1: "saveKey E False privName privkey fs = (fs1, del1, err1)"
    by (cases "saveKey E False privName privkey fs") auto
  obtain pubkey where pk: "PubkeyFromPrivkey L privkey = Return pubkey"
    using assms(1) by (auto simp: generateKeypair_def split: run.splits)
  obtain fs2 del2 err2 where s2: "saveKey E True pubName pubkey fs1 = (fs2, del2, err2)"
    by (cases "saveKey E True pubName pubkey fs1") auto
  note gk = assms(1) [unfolded generateKeypair_eq [OF pk s1 s2]]
  have ok: "err1 = None" "fs' = fs2"
    using gk by (auto split: if_splits)
  have "fs' privName = fs1 privName" using saveKey_frame [OF s2] assms(3) ok(2) by auto
  moreover have "fs1 privName = Some (EncodeKey privkey @ [newline] @ drop 65 old)" "os_open E privName = None"
    using s1 [unfolded ok] assms(2,4,5)
    by (auto simp: saveKey_def OpenFile_def WriteKey_def file_Write_def file_contents_def KeyLen_def EncodeKey_def
        Let_def split: option.splits if_splits)
  moreover have "ReadKey (eof_reader (EncodeKey privkey @ [newline] @ drop 65 old))
      = ([], Some (ErrorText ''file contains more than one line''))"
    using assms(4,6) newline_notin_hexEncode [of privkey]
    by (simp add: ReadKey_def ReadString_def EncodeKey_def dropWhile_newline KeyLen_def Read1_def Let_def
        take_Cons' split: list.splits)
  ultimately show ?thesis by (simp add: readKeyFromFile_def)
qed

theorem generateKeypair_keeps_tail_witness:
  "\<exists>fs' out. generateKeypair xor_lib no_failures (replicate 32 1, None) (str ''priv'') []
       [str ''priv'' \<mapsto> replicate 70 65] = Return (fs', out, None) \<and>
     readKeyFromFile no_failures fs' (str ''priv'') = ([], Some (ErrorText ''file contains more than one line''))"
proof -
  obtain fs' out where r: "generateKeypair xor_lib no_failures (replicate 32 1, None) (str ''priv'') []
       [str ''priv'' \<mapsto> replicate 70 65] = Return (fs', out, None)"
    by (simp add: generateKeypair_def PubkeyFromPrivkey_def xor_lib_def saveKey_def OpenFile_def WriteKey_def
        file_Write_def no_failures_def str_def)
  from generateKeypair_keeps_tail [OF r, of "replicate 70 65"] r show ?thesis
    by (auto simp: str_def KeyLen_def)
qed

end
