(* ===== verification/Client_Id.thy ===== *)
theory Client_Id
  imports Http_Handler Amp_Exchange Noise_Keys
begin

text \<open>
  Client identifiers and placeholder addresses, from turbotunnel/clientid.go and turbotunnel/consts.go. The random source is an argument.
\<close>

definition NewClientID :: "goerror + bytes \<Rightarrow> ClientID run" where
  "NewClientID random = (case random of Inl e \<Rightarrow> Panic ''rand.Read'' | Inr b \<Rightarrow> Return (take 8 b))"

definition ClientID_Network :: "ClientID \<Rightarrow> bytes" where
  "ClientID_Network i = str ''clientid''"

definition ClientID_String :: "ClientID \<Rightarrow> bytes" where
  "ClientID_String i = hexEncodeToString i"

datatype DummyAddr = DummyAddr

definition DummyAddr_Network :: "DummyAddr \<Rightarrow> bytes" where
  "DummyAddr_Network a = str ''dummy''"

definition DummyAddr_String :: "DummyAddr \<Rightarrow> bytes" where
  "DummyAddr_String a = str ''dummy''"

text \<open>
  A new identifier has eight bytes, is what the server sees of a request that carries it, whatever the cache breaker and the rest of the payload
  are, and can be read back from its text, so that two clients have the same text only if they have the same identifier.
\<close>

theorem NewClientID_recognised:
  assumes "8 \<le> length b"
  shows "\<exists>i. NewClientID (Inr b) = Return i \<and> length i = 8 \<and> decodeRequest (request_path breaker (i @ payload)) = (i, Some payload) \<and>
    hexDecodeString (ClientID_String i) = (i, None) \<and> (\<forall>i'. ClientID_String i' = ClientID_String i \<longrightarrow> i' = i)"
proof -
  let ?i = "take 8 b"
  have "length ?i = 8" using assms by simp
  moreover from this have "decodeRequest (request_path breaker (?i @ payload)) = (?i, Some payload)"
    unfolding request_path_def by (rule decodeRequest_client)
  moreover have "i' = i" if "ClientID_String i' = ClientID_String i" for i i'
  proof -
    have "hexDecodeString (ClientID_String i') = hexDecodeString (ClientID_String i)" using that by simp
    then show ?thesis by (simp add: ClientID_String_def)
  qed
  ultimately show ?thesis by (simp add: NewClientID_def ClientID_String_def)
qed

theorem NewClientID_recognised_witness:
  "\<exists>i. NewClientID (Inr (replicate 8 7)) = Return i \<and> decodeRequest (request_path (replicate 12 5) (i @ [1, 2])) = (i, Some [1, 2])"
  using NewClientID_recognised [of "replicate 8 7" "replicate 12 5" "[1, 2]"] by auto

end
