(* ===== verification/Float64.thy ===== *)
theory Float64
  imports Champa_Prelude "HOL-Library.Log_Nat"
begin

text \<open>
  Go's \<^verbatim>\<open>float64\<close> where the program uses it: finite numbers, as rationals, with every operation
  rounded to the nearest number with 53 significant bits, ties to even. Overflow, subnormal numbers
  and NaN are left out: rates, token counts, byte rates and durations in seconds stay far from
  the limits of the exponent.
\<close>

section \<open>Rounding\<close>

definition pow2 :: "int \<Rightarrow> rat" where
  "pow2 e = (if e \<ge> 0 then 2 ^ nat e else 1 / 2 ^ nat (- e))"

text \<open>The exponent \<open>e\<close> with \<open>2^e \<le> x < 2^(e+1)\<close>, for positive \<open>x\<close>.\<close>

definition expo :: "rat \<Rightarrow> int" where
  "expo x =
     (let (p, q) = quotient_of x;
          k = int (floorlog 2 (nat p)) - int (floorlog 2 (nat q))
      in if pow2 k \<le> x then k else k - 1)"

definition roundEven :: "rat \<Rightarrow> int" where
  "roundEven x =
     (let n = \<lfloor>x\<rfloor>; r = x - of_int n
      in if r < 1 / 2 then n else if r > 1 / 2 then n + 1 else if even n then n else n + 1)"

definition rnd :: "rat \<Rightarrow> rat" where
  "rnd x =
     (if x = 0 then 0
      else (let u = pow2 (expo \<bar>x\<bar> - 52) in u * of_int (roundEven (x / u))))"

section \<open>Operations\<close>

definition fadd :: "rat \<Rightarrow> rat \<Rightarrow> rat" where "fadd x y = rnd (x + y)"
definition fsub :: "rat \<Rightarrow> rat \<Rightarrow> rat" where "fsub x y = rnd (x - y)"
definition fmul :: "rat \<Rightarrow> rat \<Rightarrow> rat" where "fmul x y = rnd (x * y)"
definition fdiv :: "rat \<Rightarrow> rat \<Rightarrow> rat" where "fdiv x y = rnd (x / y)"

text \<open>Conversions from and to integers; the latter truncates towards zero.\<close>

definition float_of_int :: "int \<Rightarrow> rat" where "float_of_int n = rnd (of_int n)"
definition int_of_float :: "rat \<Rightarrow> int" where "int_of_float x = (if x \<ge> 0 then \<lfloor>x\<rfloor> else \<lceil>x\<rceil>)"

text \<open>\<^verbatim>\<open>Duration.Seconds\<close>; Go's integer division truncates towards zero.\<close>

definition Seconds :: "int \<Rightarrow> rat" where
  "Seconds d =
     (let sec = sgn d * (\<bar>d\<bar> div second); nsec = sgn d * (\<bar>d\<bar> mod second)
      in fadd (float_of_int sec) (fdiv (float_of_int nsec) 1000000000))"

section \<open>Facts about rounding\<close>

lemma pow2_pos [simp]: "0 < pow2 e"
  by (simp add: pow2_def)

lemma pow2_nonzero [simp]: "pow2 e \<noteq> 0"
  using pow2_pos [of e] by (metis less_irrefl)

lemma pow2_powi: "pow2 e = 2 powi e"
proof (cases "0 \<le> e")
  case True then show ?thesis by (simp add: pow2_def power_int_def)
next
  case False then show ?thesis unfolding pow2_def power_int_def by (simp add: inverse_eq_divide power_one_over)
qed

lemma pow2_add: "pow2 (a + b) = pow2 a * pow2 b"
  by (simp add: pow2_powi power_int_add)

lemma pow2_mono: "a \<le> b \<Longrightarrow> pow2 a \<le> pow2 b"
  by (simp add: pow2_powi power_int_increasing)

lemma pow2_lit: "pow2 52 = of_int (2 ^ 52)" "pow2 53 = of_int (2 ^ 53)"
  by (simp_all add: pow2_def)

lemma pow2_Suc: "pow2 (e + 1) = 2 * pow2 e"
  by (simp add: pow2_add) (simp add: pow2_def)

lemma expo_bounds:
  assumes "0 < x"
  shows "pow2 (expo x) \<le> x \<and> x < pow2 (expo x + 1)"
proof -
  obtain p q where pq: "quotient_of x = (p, q)" by force
  have q: "0 < q" using quotient_of_denom_pos [OF pq] .
  have x: "x = of_int p / of_int q" using quotient_of_div [OF pq] .
  have p: "0 < p" using assms q unfolding x by (simp add: zero_less_divide_iff)
  define a b where "a = int (floorlog 2 (nat p))" and "b = int (floorlog 2 (nat q))"
  have bounds: "pow2 (int (floorlog 2 (nat n)) - 1) \<le> of_int n" "of_int n < pow2 (int (floorlog 2 (nat n)))" if "0 < n" for n :: int
  proof -
    have f: "2 ^ (floorlog 2 (nat n) - 1) \<le> nat n" "nat n < 2 ^ floorlog 2 (nat n)" "0 < floorlog 2 (nat n)"
      using floorlog_bounds [of "nat n" 2] that by (auto simp: floorlog_def)
    have "(2 :: int) ^ (floorlog 2 (nat n) - 1) \<le> n" "n < 2 ^ floorlog 2 (nat n)"
      using f that by (metis nat_le_iff of_nat_le_iff of_nat_numeral of_nat_power int_nat_eq less_imp_le) (use f that in \<open>metis int_nat_eq less_imp_le of_nat_less_iff of_nat_numeral of_nat_power\<close>)
    then have "(2 :: rat) ^ (floorlog 2 (nat n) - 1) \<le> of_int n" "of_int n < (2 :: rat) ^ floorlog 2 (nat n)"
      by (metis of_int_le_iff of_int_numeral of_int_power) (metis \<open>n < 2 ^ floorlog 2 (nat n)\<close> of_int_less_iff of_int_numeral of_int_power)
    then show "pow2 (int (floorlog 2 (nat n)) - 1) \<le> of_int n" "of_int n < pow2 (int (floorlog 2 (nat n)))"
      using f(3) by (simp_all add: pow2_def nat_diff_distrib)
  qed
  note P = bounds [OF p, folded a_def] and Q = bounds [OF q, folded b_def]
  have qr: "(0 :: rat) < of_int q" using q by simp
  have lower: "pow2 (a - b - 1) \<le> x"
  proof -
    have "pow2 (a - b - 1) * of_int q \<le> pow2 (a - b - 1) * pow2 b" using Q(2) by (simp add: mult_left_mono)
    also have "\<dots> = pow2 (a - 1)" by (simp flip: pow2_add)
    finally show ?thesis using P(1) qr unfolding x by (simp add: pos_le_divide_eq)
  qed
  have upper: "x < pow2 (a - b + 1)"
  proof -
    have "pow2 a = pow2 (a - b + 1) * pow2 (b - 1)" by (simp flip: pow2_add)
    also have "\<dots> \<le> pow2 (a - b + 1) * of_int q" using Q(1) by (simp add: mult_left_mono)
    finally show ?thesis using P(2) qr unfolding x by (simp add: pos_divide_less_eq)
  qed
  show ?thesis
    using lower upper by (simp add: expo_def pq Let_def flip: a_def b_def)
qed

lemma expo_unique:
  assumes "pow2 e \<le> x" "x < pow2 (e + 1)"
  shows "expo x = e"
proof -
  have "0 < x" using assms(1) pow2_pos [of e] by linarith
  note b = expo_bounds [OF this]
  have "\<not> expo x + 1 \<le> e" using pow2_mono [of "expo x + 1" e] b assms by linarith
  moreover have "\<not> e + 1 \<le> expo x" using pow2_mono [of "e + 1" "expo x"] b assms by linarith
  ultimately show ?thesis by linarith
qed

lemma expo_mono:
  assumes "0 < x" "x \<le> y"
  shows "expo x \<le> expo y"
proof (rule ccontr)
  assume "\<not> expo x \<le> expo y"
  then have "pow2 (expo y + 1) \<le> pow2 (expo x)" by (intro pow2_mono) simp
  with expo_bounds [of x] expo_bounds [of y] assms show False by linarith
qed

lemma roundEven_of_int [simp]: "roundEven (of_int n) = n"
  by (simp add: roundEven_def)

lemma roundEven_near: "\<bar>of_int (roundEven x) - x\<bar> \<le> 1 / 2"
  using floor_correct [of x] by (auto simp: roundEven_def Let_def abs_le_iff)

lemma roundEven_mono:
  assumes "x \<le> y"
  shows "roundEven x \<le> roundEven y"
proof (cases "\<lfloor>x\<rfloor> = \<lfloor>y\<rfloor>")
  case True
  with assms show ?thesis by (auto simp: roundEven_def Let_def)
next
  case False
  with floor_mono [OF assms] have "\<lfloor>x\<rfloor> + 1 \<le> \<lfloor>y\<rfloor>" by linarith
  then show ?thesis by (auto simp: roundEven_def Let_def)
qed

lemma roundEven_minus: "roundEven (- x) = - roundEven x"
proof (cases "of_int \<lfloor>x\<rfloor> = x")
  case True
  then show ?thesis using roundEven_of_int [of "- \<lfloor>x\<rfloor>"] roundEven_of_int [of "\<lfloor>x\<rfloor>"]
    by (metis of_int_minus)
next
  case False
  then have f: "\<lfloor>- x\<rfloor> = - \<lfloor>x\<rfloor> - 1"
    using floor_correct [of x] by (intro floor_unique) (auto simp: less_le)
  show ?thesis unfolding roundEven_def Let_def f by (auto simp: algebra_simps)
qed

lemma rnd_0 [simp]: "rnd 0 = 0"
  by (simp add: rnd_def)

lemma rnd_minus: "rnd (- x) = - rnd x"
  by (simp add: rnd_def Let_def roundEven_minus)

lemma rnd_between:
  assumes "0 < x"
  shows "pow2 (expo x) \<le> rnd x \<and> rnd x \<le> pow2 (expo x + 1)"
proof -
  let ?u = "pow2 (expo x - 52)"
  have e: "pow2 (expo x) = ?u * of_int (2 ^ 52)" "pow2 (expo x + 1) = ?u * of_int (2 ^ 53)"
    using pow2_add [of "expo x - 52" 52] pow2_add [of "expo x - 52" 53] pow2_lit by (simp_all add: add.commute)
  have "of_int (2 ^ 52) \<le> x / ?u" "x / ?u \<le> of_int (2 ^ 53)"
    using expo_bounds [OF assms] unfolding e by (simp_all add: field_simps)
  from roundEven_mono [OF this(1)] roundEven_mono [OF this(2)]
  have "2 ^ 52 \<le> roundEven (x / ?u)" "roundEven (x / ?u) \<le> 2 ^ 53"
    by (simp_all only: roundEven_of_int)
  then have "of_int (2 ^ 52) \<le> (of_int (roundEven (x / ?u)) :: rat)" "(of_int (roundEven (x / ?u)) :: rat) \<le> of_int (2 ^ 53)"
    by (simp_all only: of_int_le_iff)
  then show ?thesis using assms unfolding e by (simp add: rnd_def Let_def)
qed

lemma rnd_nonneg: "0 \<le> x \<Longrightarrow> 0 \<le> rnd x"
  using rnd_between [of x] pow2_pos [of "expo x"]
  by (cases "x = 0") (simp, metis less_le order_trans)

lemma rnd_pos: "0 < x \<Longrightarrow> 0 < rnd x"
  using rnd_between [of x] pow2_pos [of "expo x"] by linarith

lemma rnd_mono_pos:
  assumes "0 < x" "x \<le> y"
  shows "rnd x \<le> rnd y"
proof (cases "expo x = expo y")
  case True
  have "x / pow2 (expo x - 52) \<le> y / pow2 (expo x - 52)" using assms by (intro divide_right_mono) (simp_all add: less_imp_le)
  with assms show ?thesis by (simp add: rnd_def Let_def roundEven_mono flip: True)
next
  case False
  with expo_mono [OF assms] have "pow2 (expo x + 1) \<le> pow2 (expo y)" by (intro pow2_mono) simp
  with rnd_between [of x] rnd_between [of y] assms show ?thesis by linarith
qed

lemma rnd_mono:
  assumes "x \<le> y"
  shows "rnd x \<le> rnd y"
proof -
  consider "0 < x" | "x \<le> 0" "0 \<le> y" | "y < 0" by linarith
  then show ?thesis
  proof cases
    case 1 then show ?thesis using assms by (rule rnd_mono_pos)
  next
    case 2 then show ?thesis using rnd_nonneg [of y] rnd_nonneg [of "- x"] by (simp add: rnd_minus)
  next
    case 3 then show ?thesis using rnd_mono_pos [of "- y" "- x"] assms by (simp add: rnd_minus)
  qed
qed

text \<open>Integers of up to 53 bits are float64 values.\<close>

lemma rnd_of_int:
  assumes "\<bar>n\<bar> < 2 ^ 53"
  shows "rnd (of_int n) = of_int n"
proof (cases "n = 0")
  case False
  let ?x = "of_int \<bar>n\<bar> :: rat" and ?e = "expo (of_int \<bar>n\<bar>)"
  have pos: "0 < ?x" using False by simp
  have "?x < of_int (2 ^ 53)" using assms by (simp only: of_int_less_iff)
  then have "pow2 ?e < pow2 53" using expo_bounds [OF pos] unfolding pow2_lit by linarith
  then have e: "?e \<le> 52" using pow2_mono [of 53 ?e] by linarith
  define k where "k = nat (52 - ?e)"
  then have "pow2 (?e - 52) = 1 / 2 ^ k" using e by (auto simp: pow2_def)
  moreover have "(of_int n * 2 ^ k :: rat) = of_int (n * 2 ^ k)" by simp
  ultimately have "rnd (of_int n) = 1 / 2 ^ k * of_int (n * 2 ^ k)"
    using False by (simp add: rnd_def Let_def del: of_int_mult of_int_power)
  then show ?thesis by simp
qed simp

text \<open>Scaling by a power of two is exact, and a rounded number is its own rounding.\<close>

lemma expo_scale:
  assumes "0 < x"
  shows "expo (pow2 j * x) = expo x + j"
proof (rule expo_unique)
  show "pow2 (expo x + j) \<le> pow2 j * x"
    using expo_bounds [OF assms] by (simp add: pow2_add mult.commute)
  have "pow2 (expo x + j + 1) = pow2 j * pow2 (expo x + 1)"
    by (simp add: add.commute add.left_commute flip: pow2_add)
  then show "pow2 j * x < pow2 (expo x + j + 1)" using expo_bounds [OF assms] by simp
qed

lemma rnd_scale: "rnd (pow2 j * x) = pow2 j * rnd x"
proof (cases "x = 0")
  case False
  have e: "expo \<bar>pow2 j * x\<bar> = expo \<bar>x\<bar> + j"
    using expo_scale [of "\<bar>x\<bar>" j] False by (simp add: abs_mult less_imp_le)
  have u: "pow2 (expo \<bar>x\<bar> + j - 52) = pow2 j * pow2 (expo \<bar>x\<bar> - 52)"
    by (simp add: algebra_simps flip: pow2_add)
  show ?thesis using False unfolding rnd_def e Let_def u by simp
qed simp

lemma rnd_half: "\<bar>n\<bar> < 2 ^ 53 \<Longrightarrow> rnd (of_int n / 2) = of_int n / 2"
  using rnd_scale [of "- 1" "of_int n"] rnd_of_int [of n] by (simp add: pow2_def)

lemma rnd_idem_pos:
  assumes "0 < x"
  shows "rnd (rnd x) = rnd x"
proof -
  define u k where "u = pow2 (expo x - 52)" and "k = roundEven (x / u)"
  have x: "rnd x = u * of_int k" using assms by (simp add: rnd_def Let_def u_def k_def)
  have "pow2 (expo x + 1) = u * of_int (2 ^ 53)"
    using pow2_add [of "expo x - 52" 53] pow2_lit by (simp add: u_def add.commute)
  with rnd_between [OF assms] have le: "u * of_int k \<le> u * of_int (2 ^ 53)" "0 \<le> u * of_int k"
    using rnd_nonneg [of x] assms unfolding x by simp_all
  then have k: "0 \<le> k" "k \<le> 2 ^ 53"
    using pow2_pos [of "expo x - 52"] unfolding u_def
    by (simp add: zero_le_mult_iff) (metis le(1) mult_le_cancel_left_pos of_int_le_iff pow2_pos u_def)
  have "rnd (of_int k) = of_int k"
  proof (cases "k = 2 ^ 53")
    case True
    then have "of_int k = pow2 53 * of_int 1" by (simp add: pow2_lit)
    then show ?thesis using rnd_scale [of 53 "of_int 1"] rnd_of_int [of 1] by simp
  qed (use k rnd_of_int [of k] in simp)
  then show ?thesis using rnd_scale [of "expo x - 52" "of_int k"] by (simp add: x u_def)
qed

lemma rnd_idem [simp]: "rnd (rnd x) = rnd x"
proof -
  consider "0 < x" | "x = 0" | "0 < - x" by linarith
  then show ?thesis
    using rnd_idem_pos [of x] rnd_idem_pos [of "- x"] by cases (simp_all add: rnd_minus)
qed

text \<open>Whole seconds.\<close>

lemma Seconds_ge:
  assumes "int n * second \<le> d" "int n < 2 ^ 53"
  shows "of_nat n \<le> Seconds d"
proof -
  have d: "0 \<le> d" using assms(1) by (simp add: second_def)
  have "int n * second div second \<le> d div second" using assms(1) by (intro zdiv_mono1) (simp_all add: second_def)
  then have "int n \<le> d div second" by (simp add: second_def)
  then have s: "of_nat n \<le> float_of_int (d div second)"
    using rnd_mono [of "of_int (int n)" "of_int (d div second)"] rnd_of_int [of "int n"] assms(2)
    by (simp add: float_of_int_def)
  have "0 \<le> float_of_int (d mod second)" using d by (simp add: float_of_int_def second_def rnd_nonneg)
  then have "0 \<le> fdiv (float_of_int (d mod second)) 1000000000" by (simp add: fdiv_def rnd_nonneg)
  then have "of_nat n \<le> float_of_int (d div second) + fdiv (float_of_int (d mod second)) 1000000000" using s by simp
  from rnd_mono [OF this] have "of_nat n \<le> fadd (float_of_int (d div second)) (fdiv (float_of_int (d mod second)) 1000000000)"
    using rnd_of_int [of "int n"] assms(2) by (simp add: fadd_def)
  then show ?thesis using d by (cases "d = 0") (simp_all add: Seconds_def sgn_if)
qed

lemma Seconds_nonneg: "0 \<le> d \<Longrightarrow> 0 \<le> Seconds d"
  using Seconds_ge [of 0 d] by simp

end
