(* ===== verification/Adaptive.thy ===== *)
theory Adaptive
  imports Float64
begin

text \<open>
  The adaptive controller of the client, from champa-client/adaptive.go. Every poll reports its
  outcome; once a window of eight seconds is over, the controller moves the payload size, the number
  of parallel polls and the target rate according to the error rate and the throughput it saw.

  The counters are the 64-bit integers of the code, read as signed numbers. Every reading of the
  clock is an argument: \<open>t1\<close> is the one in \<^verbatim>\<open>time.Since\<close>, \<open>t2\<close> the later one that starts the new
  window. The mutex makes each operation one step; the log line has no effect on the state.
\<close>

section \<open>Bounds and clamping\<close>

definition adpMinPayload :: int where "adpMinPayload = 1024"
definition adpMaxPayload :: int where "adpMaxPayload = 7000"
definition adpMinConcurrency :: int where "adpMinConcurrency = 1"
definition adpMaxConcurrency :: int where "adpMaxConcurrency = 4"
definition adpMinRate :: rat where "adpMinRate = 2"
definition adpMaxRate :: rat where "adpMaxRate = 8"
definition adpWindowDuration :: int where "adpWindowDuration = 8 * second"

lemmas adp_consts = adpMinPayload_def adpMaxPayload_def adpMinConcurrency_def adpMaxConcurrency_def
  adpMinRate_def adpMaxRate_def adpWindowDuration_def

definition clampInt :: "int \<Rightarrow> int \<Rightarrow> int \<Rightarrow> int" where
  "clampInt v lo hi = (if v < lo then lo else if v > hi then hi else v)"

definition clampFloat :: "rat \<Rightarrow> rat \<Rightarrow> rat \<Rightarrow> rat" where
  "clampFloat v lo hi = (if v < lo then lo else if v > hi then hi else v)"

section \<open>The controller\<close>

record AdaptiveController =
  MaxPayload :: int
  Concurrency :: int
  TargetRate :: rat
  winStart :: int
  winBytes :: "64 word"
  winReqs :: "64 word"
  winErrors :: "64 word"
  winRTTSum :: rat
  winRTTCount :: "64 word"
  BytesPerSec :: rat
  AvgRTTms :: rat
  ErrorRate :: rat

definition NewAdaptiveController :: "int \<Rightarrow> AdaptiveController" where
  "NewAdaptiveController now =
     \<lparr>MaxPayload = 3000, Concurrency = 2, TargetRate = 4, winStart = now,
      winBytes = 0, winReqs = 0, winErrors = 0, winRTTSum = 0, winRTTCount = 0,
      BytesPerSec = 0, AvgRTTms = 0, ErrorRate = 0\<rparr>"

text \<open>The statistics of the window that ends, and the decision table of the \<^verbatim>\<open>switch\<close>.\<close>

definition windowStats :: "AdaptiveController \<Rightarrow> rat \<Rightarrow> AdaptiveController" where
  "windowStats a elapsed =
     (let t = winReqs a + winErrors a;
          a = (if sint t > 0
               then a\<lparr>BytesPerSec := fdiv (float_of_int (sint (winBytes a))) elapsed,
                      ErrorRate := fdiv (float_of_int (sint (winErrors a))) (float_of_int (sint t))\<rparr>
               else a)
      in if sint (winRTTCount a) > 0
         then a\<lparr>AvgRTTms := fdiv (winRTTSum a) (float_of_int (sint (winRTTCount a)))\<rparr>
         else a)"

definition adapt :: "AdaptiveController \<Rightarrow> AdaptiveController" where
  "adapt a =
     (if ErrorRate a > rnd (30 / 100) then
        a\<lparr>MaxPayload := clampInt (int_of_float (fmul (float_of_int (MaxPayload a)) (rnd (75 / 100)))) adpMinPayload adpMaxPayload,
          Concurrency := clampInt (Concurrency a - 1) adpMinConcurrency adpMaxConcurrency,
          TargetRate := clampFloat (fmul (TargetRate a) (rnd (70 / 100))) adpMinRate adpMaxRate\<rparr>
      else if ErrorRate a > rnd (10 / 100) then
        a\<lparr>MaxPayload := clampInt (int_of_float (fmul (float_of_int (MaxPayload a)) (rnd (90 / 100)))) adpMinPayload adpMaxPayload,
          TargetRate := clampFloat (fmul (TargetRate a) (rnd (85 / 100))) adpMinRate adpMaxRate\<rparr>
      else if BytesPerSec a < 30 * 1024 \<and> ErrorRate a < rnd (5 / 100) then
        a\<lparr>MaxPayload := clampInt (MaxPayload a + 700) adpMinPayload adpMaxPayload,
          Concurrency := clampInt (Concurrency a + 1) adpMinConcurrency adpMaxConcurrency,
          TargetRate := clampFloat (fadd (TargetRate a) (rnd (1 / 2))) adpMinRate adpMaxRate\<rparr>
      else if BytesPerSec a < 100 * 1024 \<and> ErrorRate a < rnd (5 / 100) then
        a\<lparr>MaxPayload := clampInt (MaxPayload a + 300) adpMinPayload adpMaxPayload,
          TargetRate := clampFloat (fadd (TargetRate a) (rnd (1 / 4))) adpMinRate adpMaxRate\<rparr>
      else a)"

definition maybeAdapt :: "AdaptiveController \<Rightarrow> int \<Rightarrow> int \<Rightarrow> AdaptiveController" where
  "maybeAdapt a t1 t2 =
     (let elapsed = Seconds (timeSub t1 (winStart a))
      in if elapsed < Seconds adpWindowDuration then a
         else (adapt (windowStats a elapsed))
                \<lparr>winStart := t2, winBytes := 0, winReqs := 0, winErrors := 0, winRTTSum := 0, winRTTCount := 0\<rparr>)"

text \<open>\<^verbatim>\<open>Duration.Milliseconds\<close> truncates towards zero.\<close>

definition Milliseconds :: "int \<Rightarrow> int" where
  "Milliseconds d = sgn d * (\<bar>d\<bar> div 1000000)"

definition adaptive_RecordSuccess :: "AdaptiveController \<Rightarrow> 64 word \<Rightarrow> int \<Rightarrow> int \<Rightarrow> int \<Rightarrow> AdaptiveController" where
  "adaptive_RecordSuccess a n rtt t1 t2 =
     maybeAdapt (a\<lparr>winBytes := winBytes a + n, winReqs := winReqs a + 1,
                   winRTTSum := fadd (winRTTSum a) (float_of_int (Milliseconds rtt)),
                   winRTTCount := winRTTCount a + 1\<rparr>) t1 t2"

definition adaptive_RecordError :: "AdaptiveController \<Rightarrow> int \<Rightarrow> int \<Rightarrow> AdaptiveController" where
  "adaptive_RecordError a t1 t2 = maybeAdapt (a\<lparr>winErrors := winErrors a + 1\<rparr>) t1 t2"

definition GetParams :: "AdaptiveController \<Rightarrow> int \<times> int \<times> rat" where
  "GetParams a = (MaxPayload a, Concurrency a, TargetRate a)"

definition GetStats :: "AdaptiveController \<Rightarrow> rat \<times> rat \<times> rat" where
  "GetStats a = (BytesPerSec a, AvgRTTms a, ErrorRate a)"

text \<open>The calls the polls make, in the order the mutex gives them.\<close>

datatype adaptive_call =
    CallSuccess "64 word" int int int
  | CallError int int

fun adaptive_do :: "AdaptiveController \<Rightarrow> adaptive_call \<Rightarrow> AdaptiveController" where
  "adaptive_do a (CallSuccess n rtt t1 t2) = adaptive_RecordSuccess a n rtt t1 t2"
| "adaptive_do a (CallError t1 t2) = adaptive_RecordError a t1 t2"

definition adaptive_run :: "AdaptiveController \<Rightarrow> adaptive_call list \<Rightarrow> AdaptiveController" where
  "adaptive_run = foldl adaptive_do"

section \<open>The parameters stay within their bounds\<close>

definition adaptive_ok :: "AdaptiveController \<Rightarrow> bool" where
  "adaptive_ok a \<longleftrightarrow>
     MaxPayload a \<in> {adpMinPayload..adpMaxPayload} \<and>
     Concurrency a \<in> {adpMinConcurrency..adpMaxConcurrency} \<and>
     TargetRate a \<in> {adpMinRate..adpMaxRate} \<and> rnd (TargetRate a) = TargetRate a"

lemma clampInt_bounds [simp]: "lo \<le> hi \<Longrightarrow> lo \<le> clampInt v lo hi \<and> clampInt v lo hi \<le> hi"
  by (simp add: clampInt_def)

lemma clampFloat_bounds [simp]: "lo \<le> hi \<Longrightarrow> lo \<le> clampFloat v lo hi \<and> clampFloat v lo hi \<le> hi"
  by (simp add: clampFloat_def)

lemma clampInt_min_max: "lo \<le> hi \<Longrightarrow> clampInt v lo hi = max lo (min hi v)"
  by (simp add: clampInt_def)

lemma clampFloat_min_max: "lo \<le> hi \<Longrightarrow> clampFloat v lo hi = max lo (min hi v)"
  by (simp add: clampFloat_def)

lemma adp_order [simp]: "adpMinPayload \<le> adpMaxPayload" "adpMinConcurrency \<le> adpMaxConcurrency"
  "adpMinRate \<le> adpMaxRate"
  by (simp_all add: adp_consts)

lemma windowStats_params [simp]:
  "MaxPayload (windowStats a e) = MaxPayload a" "Concurrency (windowStats a e) = Concurrency a"
  "TargetRate (windowStats a e) = TargetRate a"
  by (simp_all add: windowStats_def Let_def)

lemma adaptive_ok_counters [simp]:
  "adaptive_ok (a\<lparr>winStart := s\<rparr>) = adaptive_ok a" "adaptive_ok (a\<lparr>winBytes := b\<rparr>) = adaptive_ok a"
  "adaptive_ok (a\<lparr>winReqs := q\<rparr>) = adaptive_ok a" "adaptive_ok (a\<lparr>winErrors := e\<rparr>) = adaptive_ok a"
  "adaptive_ok (a\<lparr>winRTTSum := r\<rparr>) = adaptive_ok a" "adaptive_ok (a\<lparr>winRTTCount := c\<rparr>) = adaptive_ok a"
  "adaptive_ok (windowStats a x) = adaptive_ok a"
  by (simp_all add: adaptive_ok_def)

lemma rnd_clamp: "rnd (clampFloat (rnd v) adpMinRate adpMaxRate) = clampFloat (rnd v) adpMinRate adpMaxRate"
  using rnd_of_int [of 2] rnd_of_int [of 8] by (simp add: clampFloat_def adp_consts)

lemma adapt_ok: "adaptive_ok a \<Longrightarrow> adaptive_ok (adapt a)"
  by (simp add: adaptive_ok_def adapt_def fmul_def fadd_def rnd_clamp)

lemma maybeAdapt_ok [simp]: "adaptive_ok a \<Longrightarrow> adaptive_ok (maybeAdapt a t1 t2)"
  by (simp add: maybeAdapt_def Let_def adapt_ok)

lemma adaptive_do_ok: "adaptive_ok a \<Longrightarrow> adaptive_ok (adaptive_do a c)"
  by (cases c) (simp_all add: adaptive_RecordSuccess_def adaptive_RecordError_def)

lemma adaptive_run_ok: "adaptive_ok a \<Longrightarrow> adaptive_ok (adaptive_run a cs)"
  by (induction cs arbitrary: a) (simp_all add: adaptive_run_def adaptive_do_ok)

lemma NewAdaptiveController_ok: "adaptive_ok (NewAdaptiveController now)"
  using rnd_of_int [of 4] by (simp add: adaptive_ok_def NewAdaptiveController_def adp_consts)

text \<open>
  Whatever polls report and whenever, the parameters the controller hands out stay in their
  ranges: a payload of 1024 to 7000 bytes, one to four parallel polls, and a target of 2 to 8 polls
  per second.
\<close>

theorem adaptive_params_bounded:
  "case GetParams (adaptive_run (NewAdaptiveController now) calls) of (payload, conc, r) \<Rightarrow>
     payload \<in> {1024..7000} \<and> conc \<in> {1..4} \<and> r \<in> {2..8}"
  using adaptive_run_ok [OF NewAdaptiveController_ok, of now calls]
  by (simp add: GetParams_def adaptive_ok_def adp_consts)

section \<open>The decision table\<close>

lemma Seconds_eight [simp]: "Seconds adpWindowDuration = 8"
  by (simp add: Seconds_def adpWindowDuration_def second_def float_of_int_def fadd_def fdiv_def
        rnd_of_int [of 8, simplified])

lemma maybeAdapt_early:
  "Seconds (timeSub t1 (winStart a)) < 8 \<Longrightarrow> maybeAdapt a t1 t2 = a"
  by (simp add: maybeAdapt_def Let_def)

lemma int_of_float_mono:
  assumes "x \<le> y"
  shows "int_of_float x \<le> int_of_float y"
proof -
  consider "0 \<le> x" | "x < 0" "0 \<le> y" | "y < 0" by linarith
  then show ?thesis
    using assms by cases (auto simp: int_of_float_def floor_mono ceiling_mono intro: order_trans [of _ 0])
qed

text \<open>Multiplying by a factor of at most one does not increase a number that is a float64.\<close>

lemma fmul_shrinks:
  assumes "0 \<le> x" "rnd x = x" "c \<le> 1"
  shows "fmul x c \<le> x"
proof -
  have "x * c \<le> x" using assms by (simp add: mult_left_le)
  from rnd_mono [OF this] show ?thesis using assms by (simp add: fmul_def)
qed

lemma rnd_le_1: "c \<le> 1 \<Longrightarrow> rnd c \<le> 1"
  using rnd_mono [of c 1] rnd_of_int [of 1] by simp

lemma payload_shrinks:
  assumes "0 \<le> n" "n < 2 ^ 53" "c \<le> 1"
  shows "int_of_float (fmul (float_of_int n) (rnd c)) \<le> n"
proof -
  have n: "float_of_int n = of_int n" using assms by (simp add: float_of_int_def rnd_of_int)
  have "fmul (of_int n) (rnd c) \<le> of_int n"
    using assms rnd_of_int [of n] by (intro fmul_shrinks) (simp_all add: rnd_le_1)
  from int_of_float_mono [OF this] show ?thesis unfolding n using assms(1) by (simp add: int_of_float_def)
qed

text \<open>
  The decision table moves in the right direction: an error rate above 30 percent never
  increases any of the three parameters and takes one parallel poll away while there is more than
  one; an error rate above 10 percent never increases payload or rate; without errors nothing is
  ever decreased.
\<close>

theorem adapt_direction:
  assumes "adaptive_ok a"
  shows "(ErrorRate a > rnd (3 / 10) \<longrightarrow>
            MaxPayload (adapt a) \<le> MaxPayload a \<and> Concurrency (adapt a) = max 1 (Concurrency a - 1) \<and>
            TargetRate (adapt a) \<le> TargetRate a)
       \<and> (ErrorRate a > rnd (1 / 10) \<longrightarrow>
            MaxPayload (adapt a) \<le> MaxPayload a \<and> Concurrency (adapt a) \<le> Concurrency a \<and>
            TargetRate (adapt a) \<le> TargetRate a)
       \<and> (ErrorRate a \<le> rnd (1 / 10) \<longrightarrow>
            MaxPayload a \<le> MaxPayload (adapt a) \<and> Concurrency a \<le> Concurrency (adapt a) \<and>
            TargetRate a \<le> TargetRate (adapt a))"
proof -
  have ok: "1024 \<le> MaxPayload a" "MaxPayload a \<le> 7000" "1 \<le> Concurrency a" "Concurrency a \<le> 4"
    "2 \<le> TargetRate a" "TargetRate a \<le> 8"
    and fl: "rnd (TargetRate a) = TargetRate a"
    using assms by (simp_all add: adaptive_ok_def adp_consts)
  have pay: "int_of_float (fmul (float_of_int (MaxPayload a)) (rnd c)) \<le> MaxPayload a" if "c \<le> 1" for c
    using ok that by (intro payload_shrinks) simp_all
  have rate: "fmul (TargetRate a) (rnd c) \<le> TargetRate a" if "c \<le> 1" for c
    using ok that fl by (intro fmul_shrinks) (simp_all add: rnd_le_1)
  have up: "TargetRate a \<le> fadd (TargetRate a) (rnd c)" if "0 \<le> c" for c
    using rnd_mono [of "TargetRate a" "TargetRate a + rnd c"] rnd_nonneg [OF that] fl
    by (simp add: fadd_def)
  have mid: "rnd (1 / 10) \<le> rnd (3 / 10)" by (rule rnd_mono) simp
  show ?thesis
    using ok pay [of "3 / 4"] pay [of "9 / 10"] rate [of "7 / 10"] rate [of "17 / 20"] up [of "1 / 2"] up [of "1 / 4"] mid
    by (auto simp: adapt_def clampInt_min_max clampFloat_min_max adp_consts)
qed

section \<open>Recovery\<close>

text \<open>
  Quiet windows: each call is a success that ends a window of at least eight seconds, during which
  fewer than 30 KB per second arrived.
\<close>

fun quiet_windows :: "int \<Rightarrow> adaptive_call list \<Rightarrow> bool" where
  "quiet_windows s [] = True"
| "quiet_windows s (CallSuccess n rtt t1 t2 # cs) =
     (8 * second \<le> timeSub t1 s \<and> 0 \<le> sint n \<and> sint n \<le> 8 * 30719 \<and> quiet_windows t2 cs)"
| "quiet_windows s (CallError t1 t2 # cs) = False"

definition window_empty :: "AdaptiveController \<Rightarrow> bool" where
  "window_empty a \<longleftrightarrow> winBytes a = 0 \<and> winReqs a = 0 \<and> winErrors a = 0"

lemma quiet_throughput:
  assumes "8 \<le> e" "0 \<le> n" "n \<le> 8 * 30719"
  shows "fdiv (float_of_int n) e < 30 * 1024"
proof -
  have n: "float_of_int n = of_int n" using assms by (simp add: float_of_int_def rnd_of_int)
  have "(of_int n :: rat) \<le> of_int (8 * 30719)" using assms(3) by (simp only: of_int_le_iff)
  also have "\<dots> \<le> 30719 * e" using assms(1) by simp
  finally have "of_int n / e \<le> of_int 30719" using assms(1) by (simp add: pos_divide_le_eq)
  from rnd_mono [OF this] show ?thesis using rnd_of_int [of 30719] by (simp add: fdiv_def n)
qed

lemma quiet_step:
  assumes "adaptive_ok a" "window_empty a"
    and q: "quiet_windows (winStart a) (CallSuccess n rtt t1 t2 # cs)"
  defines "b \<equiv> adaptive_do a (CallSuccess n rtt t1 t2)"
  shows "winStart b = t2" "window_empty b" "MaxPayload b = min 7000 (MaxPayload a + 700)"
    "Concurrency b = min 4 (Concurrency a + 1)" "TargetRate b = min 8 (fadd (TargetRate a) (1 / 2))"
proof -
  let ?e = "Seconds (timeSub t1 (winStart a))"
  have e: "8 \<le> ?e" using Seconds_ge [of 8] q by (simp add: second_def)
  have thr: "fdiv (float_of_int (sint n)) ?e < 30720"
    using quiet_throughput [OF e, of "sint n"] q by simp
  have half: "rnd (1 / 2) = 1 / 2" using rnd_half [of 1] by simp
  have small: "0 < rnd (1 / 20)" "0 < rnd (1 / 10)" "0 < rnd (3 / 10)" by (simp_all add: rnd_pos)
  have up: "TargetRate a \<le> fadd (TargetRate a) (1 / 2)"
    using rnd_mono [of "TargetRate a" "TargetRate a + 1 / 2"] assms(1) by (simp add: fadd_def adaptive_ok_def)
  show "winStart b = t2" "window_empty b" "MaxPayload b = min 7000 (MaxPayload a + 700)"
    "Concurrency b = min 4 (Concurrency a + 1)" "TargetRate b = min 8 (fadd (TargetRate a) (1 / 2))"
    using e thr small up assms(1,2)
    by (simp_all add: half b_def adaptive_RecordSuccess_def maybeAdapt_def Let_def windowStats_def adapt_def
          window_empty_def float_of_int_def fdiv_def adaptive_ok_def adp_consts(1-6) clampInt_def clampFloat_def not_less)
qed

lemma quiet_progress:
  assumes "adaptive_ok a" "window_empty a" "quiet_windows (winStart a) cs"
    and "min 7000 (1024 + 700 * int j) \<le> MaxPayload a" "min 4 (1 + int j) \<le> Concurrency a"
      "min 8 (of_int (4 + int j) / 2) \<le> TargetRate a"
  shows "let b = adaptive_run a cs; k = int (j + length cs) in
    min 7000 (1024 + 700 * k) \<le> MaxPayload b \<and> min 4 (1 + k) \<le> Concurrency b \<and>
    min 8 (of_int (4 + k) / 2) \<le> TargetRate b"
  using assms
proof (induction cs arbitrary: a j)
  case Nil
  then show ?case by (simp add: adaptive_run_def)
next
  case (Cons c cs)
  then obtain n rtt t1 t2 where c: "c = CallSuccess n rtt t1 t2" by (cases c) auto
  let ?b = "adaptive_do a c"
  note step = quiet_step [OF Cons.prems(1,2) Cons.prems(3) [unfolded c], folded c]
  have "min 8 (of_int (4 + int (Suc j)) / 2) \<le> fadd (TargetRate a) (1 / 2)"
  proof (cases "j \<le> 12")
    case True
    then have "of_int (4 + int j) / 2 \<le> TargetRate a" using Cons.prems(6) by (simp add: min_def split: if_splits)
    then have "of_int (4 + int (Suc j)) / 2 \<le> TargetRate a + 1 / 2" by (simp add: field_simps)
    note le = rnd_mono [OF this]
    have "\<bar>4 + int (Suc j)\<bar> < 2 ^ 53" using True by simp
    from rnd_half [OF this] le have "of_int (4 + int (Suc j)) / 2 \<le> fadd (TargetRate a) (1 / 2)"
      unfolding fadd_def by (simp only:)
    then show ?thesis by (rule min.coboundedI2)
  next
    case False
    then have "of_int 8 \<le> TargetRate a + 1 / 2" using Cons.prems(6) by (simp add: min_def split: if_splits)
    from rnd_mono [OF this] rnd_of_int [of 8] show ?thesis by (simp add: fadd_def)
  qed
  then have "let b = adaptive_run ?b cs; k = int (Suc j + length cs) in
      min 7000 (1024 + 700 * k) \<le> MaxPayload b \<and> min 4 (1 + k) \<le> Concurrency b \<and>
      min 8 (of_int (4 + k) / 2) \<le> TargetRate b"
    using Cons.prems(4,5) Cons.prems(3) [unfolded c] adaptive_do_ok [OF Cons.prems(1), of c] step
    by (intro Cons.IH) simp_all
  then show ?case by (simp add: adaptive_run_def)
qed

text \<open>
  C33: After twelve quiet windows in a row, whatever was reported before them, the controller has probed its
  way back to the largest payload, the most parallel polls and the highest rate. A window is quiet if its only report is
  that of a successful poll, made when its eight seconds are over, with at most 30719 bytes for each of them;
  the first of the twelve windows has just been started.
\<close>

theorem adaptive_recovers:
  assumes "window_empty (adaptive_run (NewAdaptiveController now) before)"
    and "quiet_windows (winStart (adaptive_run (NewAdaptiveController now) before)) calls"
    and "length calls \<ge> 12"
  shows "GetParams (adaptive_run (NewAdaptiveController now) (before @ calls)) = (7000, 4, 8)"
proof -
  let ?a = "adaptive_run (NewAdaptiveController now) before"
  have ok: "adaptive_ok ?a" "adaptive_ok (adaptive_run ?a calls)"
    by (simp_all add: adaptive_run_ok NewAdaptiveController_ok)
  have "adaptive_run (NewAdaptiveController now) (before @ calls) = adaptive_run ?a calls"
    by (simp add: adaptive_run_def)
  moreover have "8 \<le> (of_int (4 + int (length calls)) :: rat) / 2" using assms(3) by simp
  ultimately show ?thesis
    using quiet_progress [OF ok(1) assms(1,2), of 0] ok assms(3)
    by (simp add: adaptive_ok_def adp_consts GetParams_def Let_def)
qed

theorem adaptive_recovers_witness:
  "GetParams (adaptive_run (NewAdaptiveController 0) ([] @ map (\<lambda>i. CallSuccess 1000 250 (9 * second * i) (9 * second * i)) [1..12])) = (7000, 4, 8)"
proof -
  have "window_empty (adaptive_run (NewAdaptiveController 0) [])"
    "winStart (adaptive_run (NewAdaptiveController 0) []) = 0"
    by (simp_all add: window_empty_def adaptive_run_def NewAdaptiveController_def)
  then show ?thesis
    by (intro adaptive_recovers) (simp_all add: upto_rec1 timeSub_def second_def)
qed

theorem adapt_direction_witness:
  "let a = (NewAdaptiveController 0)\<lparr>ErrorRate := 1\<rparr> in
   MaxPayload (adapt a) \<le> 3000 \<and> Concurrency (adapt a) = 1 \<and> TargetRate (adapt a) \<le> 4"
proof -
  let ?a = "(NewAdaptiveController 0)\<lparr>ErrorRate := 1\<rparr>"
  have ok: "adaptive_ok ?a" using NewAdaptiveController_ok [of 0] by (simp add: adaptive_ok_def)
  have "rnd (3 / 10) \<le> rnd (1 / 2)" by (rule rnd_mono) simp
  then have "ErrorRate ?a > rnd (3 / 10)" using rnd_half [of 1] by simp
  with adapt_direction [OF ok] show ?thesis by (simp add: NewAdaptiveController_def Let_def)
qed

end
