(* ===== verification/Rate_Limiter.thy ===== *)
theory Rate_Limiter
  imports Adaptive
begin

text \<open>
  The token bucket of the client, from champa-client/ratelimit.go: polls take tokens, time puts them
  back at a rate that itself recovers linearly and is cut multiplicatively when a poll fails.
  All arithmetic is float64 arithmetic.
\<close>

section \<open>The limiter\<close>

record RateLimiter =
  rl_rate :: rat
  rl_max :: rat
  rateRateOfIncrease :: rat
  rl_cur :: rat
  lastUpdate :: int

definition NewRateLimiter :: "int \<Rightarrow> rat \<Rightarrow> rat \<Rightarrow> rat \<Rightarrow> RateLimiter" where
  "NewRateLimiter now rate0 max0 roi =
     \<lparr>rl_rate = rate0, rl_max = max0, rateRateOfIncrease = roi, rl_cur = 1, lastUpdate = now\<rparr>"

definition update :: "RateLimiter \<Rightarrow> int \<Rightarrow> RateLimiter" where
  "update rl now =
     (if now < lastUpdate rl then rl
      else (let elapsed = Seconds (timeSub now (lastUpdate rl));
                rl = rl\<lparr>lastUpdate := now\<rparr>;
                rl = rl\<lparr>rl_cur := fadd (rl_cur rl) (fmul (rl_rate rl) elapsed)\<rparr>;
                rl = (if rl_cur rl > rl_max rl then rl\<lparr>rl_cur := rl_max rl\<rparr> else rl);
                rl = rl\<lparr>rl_rate := fadd (rl_rate rl) (fmul (rateRateOfIncrease rl) elapsed)\<rparr>
            in if rl_rate rl > rl_max rl then rl\<lparr>rl_rate := rl_max rl\<rparr> else rl))"

text \<open>The waiting time is a conversion of a float64 to a \<^verbatim>\<open>time.Duration\<close>.\<close>

definition IsLimited :: "RateLimiter \<Rightarrow> int \<Rightarrow> bool \<times> int \<times> RateLimiter" where
  "IsLimited rl now =
     (let rl = update rl now
      in if rl_cur rl < 0
         then (True, int_of_float (fmul (fdiv (- rl_cur rl) (rl_rate rl)) (float_of_int second)), rl)
         else (False, 0, rl))"

definition Take :: "RateLimiter \<Rightarrow> int \<Rightarrow> rat \<Rightarrow> RateLimiter" where
  "Take rl now amount =
     (let rl = update rl now in rl\<lparr>rl_cur := fsub (rl_cur rl) amount\<rparr>)"

definition MultiplicativeDecrease :: "RateLimiter \<Rightarrow> int \<Rightarrow> rat \<Rightarrow> RateLimiter" where
  "MultiplicativeDecrease rl now factor =
     (let rl = update rl now;
          rl = rl\<lparr>rl_rate := fmul (rl_rate rl) factor\<rparr>;
          rl = (if rl_rate rl < adpMinRate then rl\<lparr>rl_rate := adpMinRate\<rparr> else rl)
      in rl\<lparr>rl_cur := 0\<rparr>)"

definition GetRate :: "RateLimiter \<Rightarrow> rat" where
  "GetRate rl = rl_rate rl"

definition SetRate :: "RateLimiter \<Rightarrow> rat \<Rightarrow> RateLimiter" where
  "SetRate rl r0 =
     (let r = clampFloat r0 adpMinRate adpMaxRate;
          rl = rl\<lparr>rl_rate := r\<rparr>
      in if rl_max rl < r then rl\<lparr>rl_max := fmul r 2\<rparr> else rl)"

section \<open>The poll loop's use of the limiter\<close>

text \<open>
  The parameters of pollingpacketconn.go, and what the poll loop and its polls do to the limiter:
  set a rate, test it, test it and take one token when it does not limit, and cut the rate after a
  failed poll.
\<close>

definition requestsPerSecondMax :: rat where "requestsPerSecondMax = 8"
definition requestsPerSecondBurst :: rat where "requestsPerSecondBurst = 12"
definition requestsPerSecondRoI :: rat where "requestsPerSecondRoI = rnd (10 / 100)"
definition requestsPerSecondMulDec :: rat where "requestsPerSecondMulDec = rnd (70 / 100)"

datatype limiter_use = UseSetRate rat | UseTest int | UseTake int | UseDecrease int

fun limiter_do :: "RateLimiter \<Rightarrow> limiter_use \<Rightarrow> RateLimiter" where
  "limiter_do rl (UseSetRate r) = SetRate rl r"
| "limiter_do rl (UseTest now) = snd (snd (IsLimited rl now))"
| "limiter_do rl (UseTake now) =
     (case IsLimited rl now of (limited, _, rl') \<Rightarrow> if limited then rl' else Take rl' now 1)"
| "limiter_do rl (UseDecrease now) = MultiplicativeDecrease rl now requestsPerSecondMulDec"

definition poll_limiter :: "int \<Rightarrow> limiter_use list \<Rightarrow> RateLimiter" where
  "poll_limiter now us =
     foldl limiter_do
       (NewRateLimiter now requestsPerSecondMax requestsPerSecondBurst requestsPerSecondRoI) us"

section \<open>Bounds\<close>

definition limiter_ok :: "RateLimiter \<Rightarrow> bool" where
  "limiter_ok rl \<longleftrightarrow> rl_max rl = 12 \<and> 0 \<le> rateRateOfIncrease rl \<and>
     2 \<le> rl_rate rl \<and> rl_rate rl \<le> 12 \<and> - 1 \<le> rl_cur rl \<and> rl_cur rl \<le> 12"

text \<open>Rounding keeps a bound that is itself a float64.\<close>

lemma rnd_ge: "rnd b = b \<Longrightarrow> b \<le> x \<Longrightarrow> b \<le> rnd x"
  using rnd_mono [of b x] by simp

lemma rnd_le: "rnd b = b \<Longrightarrow> x \<le> b \<Longrightarrow> rnd x \<le> b"
  using rnd_mono [of x b] by simp

lemma rnd_numerals [simp]: "rnd 1 = 1" "rnd (- 1) = - 1" "rnd 2 = 2" "rnd 8 = 8" "rnd 12 = 12"
  using rnd_of_int [of 1] rnd_of_int [of "- 1"] rnd_of_int [of 2] rnd_of_int [of 8] rnd_of_int [of 12]
  by simp_all

lemma fmul_nonneg: "0 \<le> x \<Longrightarrow> 0 \<le> y \<Longrightarrow> 0 \<le> fmul x y"
  by (simp add: fmul_def rnd_nonneg)

lemma timeSub_nonneg: "u \<le> t \<Longrightarrow> 0 \<le> timeSub t u"
  by (simp add: timeSub_def)

lemma update_ok:
  assumes "limiter_ok rl"
  shows "limiter_ok (update rl now)"
proof (cases "now < lastUpdate rl")
  case False
  define e where "e = Seconds (timeSub now (lastUpdate rl))"
  have "0 \<le> e" using False by (simp add: e_def Seconds_nonneg timeSub_nonneg)
  with assms have "0 \<le> fmul (rl_rate rl) e" "0 \<le> fmul (rateRateOfIncrease rl) e"
    by (simp_all add: limiter_ok_def fmul_nonneg)
  with assms have "- 1 \<le> fadd (rl_cur rl) (fmul (rl_rate rl) e)"
    "2 \<le> fadd (rl_rate rl) (fmul (rateRateOfIncrease rl) e)"
    by (simp_all add: fadd_def limiter_ok_def rnd_ge)
  with False assms show ?thesis by (simp add: update_def limiter_ok_def Let_def flip: e_def)
qed (simp add: assms update_def)

lemma Take_ok:
  assumes "limiter_ok rl" "0 \<le> rl_cur (update rl now)"
  shows "limiter_ok (Take rl now 1)"
proof -
  have "- 1 \<le> fsub (rl_cur (update rl now)) 1" "fsub (rl_cur (update rl now)) 1 \<le> 12"
    using assms update_ok [OF assms(1), of now] by (simp_all add: fsub_def rnd_ge rnd_le limiter_ok_def)
  then show ?thesis using update_ok [OF assms(1), of now] by (simp add: Take_def Let_def limiter_ok_def)
qed

text \<open>The second update of \<^verbatim>\<open>Take\<close> at the same time does not make the bucket negative.\<close>

lemma update_keeps_nonneg:
  assumes "limiter_ok rl" "0 \<le> rl_cur rl"
  shows "0 \<le> rl_cur (update rl now)"
proof (cases "now < lastUpdate rl")
  case False
  define e where "e = Seconds (timeSub now (lastUpdate rl))"
  have "0 \<le> e" using False by (simp add: e_def Seconds_nonneg timeSub_nonneg)
  with assms have "0 \<le> fadd (rl_cur rl) (fmul (rl_rate rl) e)"
    by (simp add: fadd_def limiter_ok_def rnd_nonneg fmul_nonneg)
  with False assms show ?thesis by (simp add: update_def Let_def limiter_ok_def flip: e_def)
qed (simp add: assms update_def)

lemma fmul_MulDec:
  assumes "2 \<le> x" "x \<le> 12"
  shows "fmul x requestsPerSecondMulDec \<le> 12"
proof -
  have c: "0 \<le> requestsPerSecondMulDec" "requestsPerSecondMulDec \<le> 1"
    by (simp_all add: requestsPerSecondMulDec_def rnd_nonneg rnd_le_1)
  have "x * requestsPerSecondMulDec \<le> x" using c assms by (simp add: mult_left_le)
  then have "x * requestsPerSecondMulDec \<le> 12" using assms(2) by linarith
  then show ?thesis by (simp add: fmul_def rnd_le)
qed

lemma limiter_do_ok:
  assumes "limiter_ok rl"
  shows "limiter_ok (limiter_do rl u)"
proof (cases u)
  case (UseSetRate r)
  then show ?thesis
    using assms by (auto simp: SetRate_def Let_def limiter_ok_def clampFloat_def adp_consts)
next
  case (UseTest now)
  then show ?thesis using update_ok [OF assms] by (simp add: IsLimited_def Let_def)
next
  case (UseTake now)
  then show ?thesis
    using update_ok [OF assms, of now] Take_ok update_keeps_nonneg
    by (auto simp: IsLimited_def Let_def not_less)
next
  case (UseDecrease now)
  then show ?thesis
    using update_ok [OF assms, of now] fmul_MulDec
    by (auto simp: MultiplicativeDecrease_def Let_def limiter_ok_def adp_consts)
qed

lemma poll_limiter_ok: "limiter_ok (poll_limiter now us)"
proof -
  have "limiter_ok rl \<Longrightarrow> limiter_ok (foldl limiter_do rl us)" for rl
    by (induction us arbitrary: rl) (simp_all add: limiter_do_ok)
  then show ?thesis
    by (simp add: poll_limiter_def limiter_ok_def NewRateLimiter_def requestsPerSecondMax_def
          requestsPerSecondBurst_def requestsPerSecondRoI_def rnd_nonneg)
qed

text \<open>
  As the poll loop uses it, the limiter never leaves its bounds: the rate stays between 2 and 12
  polls per second, the bucket between minus one and twelve tokens, and whoever is limited is told to
  wait at most half a second.
\<close>

theorem limiter_bounds:
  "let rl = poll_limiter start us; (limited, wait, rl') = IsLimited rl now in
     2 \<le> GetRate rl \<and> GetRate rl \<le> 12 \<and> - 1 \<le> rl_cur rl \<and> rl_cur rl \<le> 12 \<and>
     0 \<le> wait \<and> wait \<le> 500000000"
proof -
  define rl where "rl = update (poll_limiter start us) now"
  have ok: "limiter_ok (poll_limiter start us)" "limiter_ok rl"
    by (simp_all add: poll_limiter_ok update_ok rl_def)
  have "- rl_cur rl / rl_rate rl \<le> of_int 1 / 2" using ok(2) by (simp add: limiter_ok_def field_simps)
  then have q: "fdiv (- rl_cur rl) (rl_rate rl) \<le> 1 / 2"
    using rnd_mono rnd_half [of 1] by (fastforce simp: fdiv_def)
  have s: "float_of_int second = of_int 1000000000"
    unfolding float_of_int_def second_def by (rule rnd_of_int) simp
  have "fdiv (- rl_cur rl) (rl_rate rl) * float_of_int second \<le> of_int 500000000" using q by (simp add: s)
  then have u: "fmul (fdiv (- rl_cur rl) (rl_rate rl)) (float_of_int second) \<le> of_int 500000000"
    unfolding fmul_def by (intro rnd_le rnd_of_int) simp_all
  have "0 \<le> - rl_cur rl / rl_rate rl" if "rl_cur rl < 0"
    using that ok(2) by (intro divide_nonneg_nonneg) (simp_all add: limiter_ok_def)
  then have d: "0 \<le> fdiv (- rl_cur rl) (rl_rate rl)" if "rl_cur rl < 0"
    using that unfolding fdiv_def by (intro rnd_nonneg)
  have l: "0 \<le> fmul (fdiv (- rl_cur rl) (rl_rate rl)) (float_of_int second)" if "rl_cur rl < 0"
    using d [OF that] by (intro fmul_nonneg) (simp_all add: s)
  have "0 \<le> int_of_float x \<and> int_of_float x \<le> 500000000" if "0 \<le> x" "x \<le> of_int 500000000" for x
    using that by (simp add: int_of_float_def floor_le_iff)
  with u l ok(1) show ?thesis
    by (auto simp: IsLimited_def Let_def GetRate_def limiter_ok_def simp flip: rl_def)
qed

section \<open>Progress\<close>

lemma Seconds_half:
  assumes "500000000 \<le> d"
  shows "1 / 2 \<le> Seconds d"
proof (cases "second \<le> d")
  case True
  then show ?thesis using Seconds_ge [of 1 d] by simp
next
  case False
  then have m: "d div second = 0" "d mod second = d" using assms by (simp_all add: second_def)
  have half: "rnd (1 / 2) = 1 / 2" using rnd_half [of 1] by simp
  have "of_int 500000000 \<le> float_of_int d"
    unfolding float_of_int_def using assms by (intro rnd_ge rnd_of_int) simp_all
  then have "1 / 2 \<le> fdiv (float_of_int d) 1000000000"
    unfolding fdiv_def using half by (intro rnd_ge) simp_all
  then have "1 / 2 \<le> fadd 0 (fdiv (float_of_int d) 1000000000)"
    unfolding fadd_def using half by (intro rnd_ge) simp_all
  then show ?thesis using assms by (simp add: Seconds_def m sgn_if float_of_int_def)
qed

lemma update_half_second:
  assumes "limiter_ok rl" "lastUpdate rl + 500000000 \<le> now"
  shows "0 \<le> rl_cur (update rl now)"
proof -
  define e where "e = Seconds (timeSub now (lastUpdate rl))"
  have "1 / 2 \<le> e" unfolding e_def using assms(2) by (intro Seconds_half) (simp add: timeSub_def)
  then have "1 \<le> rl_rate rl * e"
    using mult_mono [of 2 "rl_rate rl" "1 / 2" e] assms(1) by (simp add: limiter_ok_def)
  then have "1 \<le> fmul (rl_rate rl) e" by (simp add: fmul_def rnd_ge)
  with assms(1) have "0 \<le> fadd (rl_cur rl) (fmul (rl_rate rl) e)"
    by (simp add: fadd_def limiter_ok_def rnd_nonneg)
  with assms show ?thesis by (simp add: update_def Let_def limiter_ok_def flip: e_def)
qed

text \<open>
  The limiter never starves the client: half a second after it was last touched it lets a
  poll through, whatever polls, failures and rate changes came before.
\<close>

theorem limiter_progress:
  assumes "lastUpdate (poll_limiter start us) + 500000000 \<le> now"
  shows "fst (IsLimited (poll_limiter start us) now) = False"
  using update_half_second [OF poll_limiter_ok assms] by (simp add: IsLimited_def Let_def)

lemma lastUpdate_simps [simp]:
  "lastUpdate (update rl now) = max now (lastUpdate rl)"
  "lastUpdate (Take rl now x) = max now (lastUpdate rl)"
  "lastUpdate (MultiplicativeDecrease rl now x) = max now (lastUpdate rl)"
  "lastUpdate (SetRate rl r) = lastUpdate rl"
  by (simp_all add: update_def Take_def MultiplicativeDecrease_def SetRate_def Let_def)

lemma limiter_progress_witness:
  "fst (IsLimited (poll_limiter 0 [UseDecrease 0, UseTake 0]) 500000000) = False"
proof (rule limiter_progress)
  show "lastUpdate (poll_limiter 0 [UseDecrease 0, UseTake 0]) + 500000000 \<le> 500000000"
    by (simp add: poll_limiter_def NewRateLimiter_def IsLimited_def Let_def)
qed

end
