(* ===== verification/Quota_Manager.thy ===== *)
theory Quota_Manager
  imports Champa_Prelude
begin

text \<open>
  The quota manager of the client, from champa-client/pollingpacketconn.go: it counts the quota
  errors of the AMP cache and puts the client in slow mode for a time that doubles with each
  activation. Each reading of the clock in an operation is a separate argument, in the order of the
  code; the zero \<^verbatim>\<open>time.Time\<close> is time 0. The mutex makes each operation one step.
\<close>

section \<open>Constants and state\<close>

definition quotaErrThreshold :: int where "quotaErrThreshold = 20"
definition quotaCoolBetween :: int where "quotaCoolBetween = 45 * second"
definition quotaBackoffInit :: int where "quotaBackoffInit = 2 * minute"
definition quotaBackoffMax :: int where "quotaBackoffMax = 20 * minute"
definition slowModeExitSuccesses :: int where "slowModeExitSuccesses = 5"

lemmas quota_consts = quotaErrThreshold_def quotaCoolBetween_def quotaBackoffInit_def
  quotaBackoffMax_def slowModeExitSuccesses_def

record QuotaManager =
  consecErrors :: int
  consecSuccesses :: int
  backoffDur :: int
  slowUntil :: int
  lastActivate :: int

definition NewQuotaManager :: QuotaManager where
  "NewQuotaManager =
     \<lparr>consecErrors = 0, consecSuccesses = 0, backoffDur = quotaBackoffInit, slowUntil = 0, lastActivate = 0\<rparr>"

section \<open>Operations\<close>

definition quota_RecordQuotaError ::
  "QuotaManager \<Rightarrow> int \<Rightarrow> int \<Rightarrow> int \<Rightarrow> int \<Rightarrow> bool \<times> QuotaManager" where
  "quota_RecordQuotaError q t1 t2 t3 t4 =
     (let q = q\<lparr>consecErrors := consecErrors q + 1, consecSuccesses := 0\<rparr>
      in if consecErrors q < quotaErrThreshold then (False, q)
         else if timeSub t1 (lastActivate q) < quotaCoolBetween then (False, q\<lparr>consecErrors := 0\<rparr>)
         else if t2 < slowUntil q then (False, q\<lparr>consecErrors := 0\<rparr>)
         else (let q = q\<lparr>consecErrors := 0, slowUntil := t3 + backoffDur q, lastActivate := t4\<rparr>;
                   q = q\<lparr>backoffDur := backoffDur q * 2\<rparr>
               in (True, if backoffDur q > quotaBackoffMax then q\<lparr>backoffDur := quotaBackoffMax\<rparr> else q)))"

definition quota_RecordSuccess :: "QuotaManager \<Rightarrow> int \<Rightarrow> QuotaManager" where
  "quota_RecordSuccess q t =
     (let q = q\<lparr>consecErrors := 0\<rparr>
      in if IsZero (slowUntil q) \<or> t > slowUntil q then q
         else (let q = q\<lparr>consecSuccesses := consecSuccesses q + 1\<rparr>
               in if consecSuccesses q \<ge> slowModeExitSuccesses
                  then q\<lparr>slowUntil := 0, backoffDur := quotaBackoffInit, consecSuccesses := 0\<rparr>
                  else q))"

definition IsSlowMode :: "QuotaManager \<Rightarrow> int \<Rightarrow> bool \<times> QuotaManager" where
  "IsSlowMode q t =
     (if IsZero (slowUntil q) then (False, q)
      else if t > slowUntil q then (False, q\<lparr>slowUntil := 0, consecSuccesses := 0\<rparr>)
      else (True, q))"

definition ErrorCount :: "QuotaManager \<Rightarrow> int" where
  "ErrorCount q = consecErrors q"

section \<open>Runs\<close>

text \<open>
  What the polls and the poll loop call, with the clock readings of each call; a run is timed when
  the readings never go back.
\<close>

datatype quota_call = QError int int int int | QSuccess int | QIsSlow int

fun quota_do :: "QuotaManager \<Rightarrow> quota_call \<Rightarrow> QuotaManager" where
  "quota_do q (QError t1 t2 t3 t4) = snd (quota_RecordQuotaError q t1 t2 t3 t4)"
| "quota_do q (QSuccess t) = quota_RecordSuccess q t"
| "quota_do q (QIsSlow t) = snd (IsSlowMode q t)"

definition quota_run :: "QuotaManager \<Rightarrow> quota_call list \<Rightarrow> QuotaManager" where
  "quota_run = foldl quota_do"

fun readings :: "quota_call \<Rightarrow> int list" where
  "readings (QError t1 t2 t3 t4) = [t1, t2, t3, t4]"
| "readings (QSuccess t) = [t]"
| "readings (QIsSlow t) = [t]"

definition timed :: "quota_call list \<Rightarrow> bool" where
  "timed cs \<longleftrightarrow> sorted (concat (map readings cs)) \<and> (\<forall>t \<in> set (concat (map readings cs)). 0 < t)"

section \<open>Invariant\<close>

definition quota_ok :: "QuotaManager \<Rightarrow> bool" where
  "quota_ok q \<longleftrightarrow>
     0 \<le> consecErrors q \<and> consecErrors q < quotaErrThreshold \<and>
     0 \<le> consecSuccesses q \<and> consecSuccesses q < slowModeExitSuccesses \<and>
     quotaBackoffInit \<le> backoffDur q \<and> backoffDur q \<le> quotaBackoffMax \<and>
     slowUntil q \<le> lastActivate q + quotaBackoffMax"

lemma minute_pos [simp]: "0 < minute" "0 < second"
  by (simp_all add: minute_def second_def)

lemma NewQuotaManager_ok: "quota_ok NewQuotaManager"
  by (simp add: quota_ok_def NewQuotaManager_def quota_consts less_imp_le)

lemma RecordQuotaError_ok:
  assumes "quota_ok q" "t3 \<le> t4"
  shows "quota_ok (snd (quota_RecordQuotaError q t1 t2 t3 t4))"
  using assms minute_pos(1) by (auto simp: quota_ok_def quota_RecordQuotaError_def Let_def quota_consts)

lemma RecordSuccess_ok:
  assumes "quota_ok q" "0 \<le> lastActivate q"
  shows "quota_ok (quota_RecordSuccess q t)"
  using assms minute_pos(1)
  by (auto simp: quota_ok_def quota_RecordSuccess_def Let_def quota_consts)

lemma IsSlowMode_ok:
  assumes "quota_ok q" "0 \<le> lastActivate q"
  shows "quota_ok (snd (IsSlowMode q t))"
  using assms minute_pos(1) by (auto simp: quota_ok_def IsSlowMode_def quota_consts)

definition ordered :: "quota_call \<Rightarrow> bool" where
  "ordered c \<longleftrightarrow> sorted (readings c) \<and> (\<forall>t \<in> set (readings c). 0 < t)"

lemma quota_do_ok:
  assumes "quota_ok q" "0 \<le> lastActivate q" "ordered c"
  shows "quota_ok (quota_do q c) \<and> 0 \<le> lastActivate (quota_do q c)"
proof (cases c)
  case (QError t1 t2 t3 t4)
  then show ?thesis
    using assms RecordQuotaError_ok [OF assms(1), of t3 t4]
    by (auto simp: ordered_def quota_RecordQuotaError_def Let_def)
next
  case (QSuccess t)
  then show ?thesis using RecordSuccess_ok [OF assms(1,2)] assms(2) by (simp add: quota_RecordSuccess_def Let_def)
next
  case (QIsSlow t)
  then show ?thesis using IsSlowMode_ok [OF assms(1,2)] assms(2) by (simp add: IsSlowMode_def)
qed

lemma timed_ordered: "timed cs \<Longrightarrow> c \<in> set cs \<Longrightarrow> ordered c"
proof (induction cs)
  case (Cons a cs)
  then have "timed cs" "ordered a" by (auto simp: timed_def ordered_def sorted_append)
  with Cons show ?case by auto
qed simp

lemma quota_run_ok:
  assumes "quota_ok q" "0 \<le> lastActivate q" "\<forall>c \<in> set cs. ordered c"
  shows "quota_ok (quota_run q cs) \<and> 0 \<le> lastActivate (quota_run q cs)"
  using assms
proof (induction cs arbitrary: q)
  case (Cons c cs)
  then show ?case using quota_do_ok [of q c] by (simp add: quota_run_def)
qed (simp add: quota_run_def)

text \<open>
  For any run with a clock that does not go back, the error count shown to the user stays
  below the threshold, fewer than five successes are ever pending, the next back-off lasts between 2
  and 20 minutes, and slow mode never outlasts 20 minutes from its activation.
\<close>

theorem quota_invariant:
  assumes "timed cs"
  shows "let q = quota_run NewQuotaManager cs in
     0 \<le> ErrorCount q \<and> ErrorCount q < 20 \<and> 0 \<le> consecSuccesses q \<and> consecSuccesses q < 5 \<and>
     2 * minute \<le> backoffDur q \<and> backoffDur q \<le> 20 * minute \<and>
     (lastActivate q + 20 * minute < now \<longrightarrow> \<not> fst (IsSlowMode q now))"
proof -
  have "\<forall>c \<in> set cs. ordered c" using timed_ordered [OF assms] by blast
  then have ok: "quota_ok (quota_run NewQuotaManager cs)"
    using quota_run_ok [OF NewQuotaManager_ok] by (simp add: NewQuotaManager_def)
  then show ?thesis by (auto simp: Let_def quota_ok_def quota_consts ErrorCount_def IsSlowMode_def)
qed

section \<open>Entering slow mode\<close>

text \<open>
  What a run says about slow mode, from its calls: the quota errors since the last success, the times of the activations, and the
  number of activations since slow mode was last left early.
\<close>

fun is_error :: "quota_call \<Rightarrow> bool" where
  "is_error (QError t1 t2 t3 t4) \<longleftrightarrow> True"
| "is_error _ \<longleftrightarrow> False"

fun is_query :: "quota_call \<Rightarrow> bool" where
  "is_query (QIsSlow t) \<longleftrightarrow> True"
| "is_query _ \<longleftrightarrow> False"

definition errors_in_row :: "quota_call list \<Rightarrow> nat" where
  "errors_in_row cs = length (takeWhile is_error (rev (filter (\<lambda>c. \<not> is_query c) cs)))"

fun activations :: "QuotaManager \<Rightarrow> quota_call list \<Rightarrow> int list" where
  "activations q [] = []"
| "activations q (QError t1 t2 t3 t4 # cs) =
     (if fst (quota_RecordQuotaError q t1 t2 t3 t4) then [t4] else []) @ activations (quota_do q (QError t1 t2 t3 t4)) cs"
| "activations q (c # cs) = activations (quota_do q c) cs"

fun level :: "nat \<Rightarrow> QuotaManager \<Rightarrow> quota_call list \<Rightarrow> nat" where
  "level k q [] = k"
| "level k q (QError t1 t2 t3 t4 # cs) =
     level (if fst (quota_RecordQuotaError q t1 t2 t3 t4) then Suc k else k) (quota_do q (QError t1 t2 t3 t4)) cs"
| "level k q (QSuccess t # cs) =
     level (if slowUntil q \<noteq> 0 \<and> slowUntil (quota_do q (QSuccess t)) = 0 then 0 else k) (quota_do q (QSuccess t)) cs"
| "level k q (QIsSlow t # cs) = level k (quota_do q (QIsSlow t)) cs"

lemma errors_in_row_snoc [simp]:
  "errors_in_row [] = 0"
  "errors_in_row (cs @ [QError t1 t2 t3 t4]) = Suc (errors_in_row cs)"
  "errors_in_row (cs @ [QSuccess t]) = 0"
  "errors_in_row (cs @ [QIsSlow t]) = errors_in_row cs"
  by (simp_all add: errors_in_row_def)

lemma quota_run_snoc: "quota_run q (cs @ [c]) = quota_do (quota_run q cs) c"
  by (simp add: quota_run_def)

lemma quota_run_Nil: "quota_run q [] = q"
  by (simp add: quota_run_def)

lemma quota_run_Cons: "quota_run q (c # cs) = quota_run (quota_do q c) cs"
  by (simp add: quota_run_def)

lemma consecErrors_row: "consecErrors (quota_run NewQuotaManager cs) = int (errors_in_row cs mod 20)"
proof (induction cs rule: rev_induct)
  case (snoc c cs)
  then show ?case
  proof (cases c)
    case (QError t1 t2 t3 t4)
    then have "consecErrors (quota_run NewQuotaManager (cs @ [c])) =
        (if errors_in_row cs mod 20 = 19 then 0 else int (Suc (errors_in_row cs mod 20)))"
      using snoc mod_less_divisor [of 20 "errors_in_row cs"]
      by (auto simp: quota_run_snoc quota_RecordQuotaError_def Let_def quota_consts)
    then show ?thesis by (simp add: QError mod_Suc)
  qed (simp_all add: quota_run_snoc quota_RecordSuccess_def IsSlowMode_def Let_def)
qed (simp add: quota_run_def NewQuotaManager_def)

lemma lastActivate_run:
  "lastActivate (quota_run q cs) = (if activations q cs = [] then lastActivate q else last (activations q cs))"
proof (induction q cs rule: activations.induct)
  case (2 q t1 t2 t3 t4 cs)
  have "lastActivate (quota_do q (QError t1 t2 t3 t4)) = (if fst (quota_RecordQuotaError q t1 t2 t3 t4) then t4 else lastActivate q)"
    by (simp add: quota_RecordQuotaError_def Let_def)
  with 2 show ?case by (simp add: quota_run_Cons del: quota_do.simps)
qed (simp_all add: quota_run_Cons quota_run_Nil quota_RecordSuccess_def IsSlowMode_def Let_def)

lemma backoff_double: "min (20 * minute) (2 * min (20 * minute) (2 ^ k * (2 * minute))) = min (20 * minute) (2 ^ Suc k * (2 * minute))"
  by (auto simp: min_def)

lemma backoffDur_run:
  "backoffDur q = min (20 * minute) (2 ^ k * (2 * minute)) \<Longrightarrow>
   backoffDur (quota_run q cs) = min (20 * minute) (2 ^ level k q cs * (2 * minute))"
proof (induction k q cs rule: level.induct)
  case (2 k q t1 t2 t3 t4 cs)
  have "backoffDur (quota_do q (QError t1 t2 t3 t4)) =
      (if fst (quota_RecordQuotaError q t1 t2 t3 t4) then min (20 * minute) (2 * backoffDur q) else backoffDur q)"
    by (auto simp: quota_RecordQuotaError_def Let_def quota_consts)
  with 2(2) have "backoffDur (quota_do q (QError t1 t2 t3 t4)) =
      min (20 * minute) (2 ^ (if fst (quota_RecordQuotaError q t1 t2 t3 t4) then Suc k else k) * (2 * minute))"
    using backoff_double [of k] by (simp del: quota_do.simps)
  with 2(1) show ?case by (simp add: quota_run_Cons del: quota_do.simps)
next
  case (3 k q t cs)
  have "backoffDur (quota_do q (QSuccess t)) = (if slowUntil q \<noteq> 0 \<and> slowUntil (quota_do q (QSuccess t)) = 0 then 2 * minute else backoffDur q)"
    by (auto simp: quota_RecordSuccess_def Let_def IsZero_def quota_consts)
  with 3 show ?case by (simp add: quota_run_Cons del: quota_do.simps)
qed (simp_all add: quota_run_Cons quota_run_Nil IsSlowMode_def)

lemma RecordQuotaError_cases:
  "quota_RecordQuotaError q t1 t2 t3 t4 =
     (let act = (consecErrors q \<ge> 19 \<and> timeSub t1 (lastActivate q) \<ge> 45 * second \<and> slowUntil q \<le> t2);
          q' = q\<lparr>consecErrors := (if consecErrors q \<ge> 19 then 0 else consecErrors q + 1), consecSuccesses := 0\<rparr>
      in (act, if act then q'\<lparr>slowUntil := t3 + backoffDur q, lastActivate := t4, backoffDur := min (20 * minute) (2 * backoffDur q)\<rparr> else q'))"
  by (auto simp: quota_RecordQuotaError_def Let_def quota_consts)

text \<open>
  C37: When slow mode starts and how long it lasts, after any calls of a new manager. A quota error starts it exactly if it is the
  twentieth, or the fortieth and so on, since the last success (asking for the mode does not count), the last activation, if there was one,
  is at least 45 seconds ago, and no slow mode is running that lasts longer than now. Then the mode is slow up to a deadline 2 minutes
  away, which doubles with every activation since slow mode was last left early, up to 20 minutes. A quota error that starts nothing
  changes neither the deadline nor the next back-off. (The clock is past the first 45 seconds after the zero time, which is in the year 1.)
\<close>

theorem slow_mode_activation:
  fixes cs :: "quota_call list"
  defines "q \<equiv> quota_run NewQuotaManager cs" and "as \<equiv> activations NewQuotaManager cs" and "k \<equiv> level 0 NewQuotaManager cs"
  assumes "45 * second \<le> t1" and "t1 \<le> t3"
  shows "case quota_RecordQuotaError q t1 t2 t3 t4 of (activated, q') \<Rightarrow>
     (activated \<longleftrightarrow> errors_in_row cs mod 20 = 19 \<and> (as = [] \<or> timeSub t1 (last as) \<ge> 45 * second) \<and> slowUntil q \<le> t2) \<and>
     (if activated then \<forall>now. fst (IsSlowMode q' now) \<longleftrightarrow> now \<le> t3 + min (20 * minute) (2 ^ k * (2 * minute))
      else slowUntil q' = slowUntil q \<and> backoffDur q' = backoffDur q)"
proof -
  have c: "consecErrors q = int (errors_in_row cs mod 20)" unfolding q_def by (rule consecErrors_row)
  have "timeSub t1 0 \<ge> 45 * second" using assms(4) by (simp add: timeSub_def second_def)
  then have l: "timeSub t1 (lastActivate q) \<ge> 45 * second \<longleftrightarrow> as = [] \<or> timeSub t1 (last as) \<ge> 45 * second"
    by (simp add: q_def as_def lastActivate_run NewQuotaManager_def)
  have b: "backoffDur q = min (20 * minute) (2 ^ k * (2 * minute))"
    unfolding q_def k_def by (rule backoffDur_run) (simp add: NewQuotaManager_def quota_consts)
  have "0 < t3" using assms(4,5) minute_pos(2) by linarith
  moreover have "0 < min (20 * minute) (2 ^ k * (2 * minute))" by simp
  ultimately have "t3 + min (20 * minute) (2 ^ k * (2 * minute)) \<noteq> 0" by linarith
  moreover have "errors_in_row cs mod 20 = 19 \<longleftrightarrow> consecErrors q \<ge> 19" using c mod_less_divisor [of 20 "errors_in_row cs"] by linarith
  ultimately show ?thesis
    using l b by (auto simp: RecordQuotaError_cases Let_def IsSlowMode_def IsZero_def)
qed

lemma errors_count_up:
  assumes "consecErrors q + int (length cs) < 20" "0 \<le> consecErrors q"
    and "\<forall>c \<in> set cs. \<exists>t1 t2 t3 t4. c = QError t1 t2 t3 t4"
  shows "quota_run q cs = q\<lparr>consecErrors := consecErrors q + int (length cs), consecSuccesses := (if cs = [] then consecSuccesses q else 0)\<rparr>"
  using assms
proof (induction cs arbitrary: q)
  case (Cons c cs)
  then obtain t1 t2 t3 t4 where c: "c = QError t1 t2 t3 t4" by auto
  let ?q = "quota_do q c"
  have q: "?q = q\<lparr>consecErrors := consecErrors q + 1, consecSuccesses := 0\<rparr>"
    using Cons.prems by (simp add: c quota_RecordQuotaError_def Let_def quota_consts)
  have "quota_run ?q cs = ?q\<lparr>consecErrors := consecErrors ?q + int (length cs), consecSuccesses := (if cs = [] then consecSuccesses ?q else 0)\<rparr>"
    using Cons.prems by (intro Cons.IH) (simp_all add: q)
  then show ?case by (simp add: quota_run_def q)
qed (simp add: quota_run_def)

text \<open>
  A burst of quota errors on a fresh manager behaves as designed: nineteen do nothing, the
  twentieth starts two minutes of slow mode, and at any time within these two minutes the client
  is in slow mode while afterwards it is not.
\<close>

theorem quota_burst:
  assumes "length errs = 19" and "\<forall>c \<in> set errs. \<exists>t1 t2 t3 t4. c = QError t1 t2 t3 t4"
    and "45 * second \<le> t1" "t1 \<le> t2" "t2 \<le> t3" "t3 \<le> t4"
  shows "\<not> fst (IsSlowMode (quota_run NewQuotaManager errs) now) \<and>
     fst (IsSlowMode (quota_run NewQuotaManager (errs @ [QError t1 t2 t3 t4])) now) = (now \<le> t3 + 2 * minute)"
proof -
  let ?q = "quota_run NewQuotaManager errs"
  have q: "?q = NewQuotaManager\<lparr>consecErrors := 19\<rparr>"
    using errors_count_up [of NewQuotaManager errs] assms(1,2) by (simp add: NewQuotaManager_def)
  have "45 * second \<le> timeSub t1 0" "\<not> t2 < 0" using assms by (simp_all add: timeSub_def second_def)
  moreover have "0 < t3 + 2 * minute" using assms by (simp add: second_def minute_def)
  ultimately have "snd (quota_RecordQuotaError (NewQuotaManager\<lparr>consecErrors := 19\<rparr>) t1 t2 t3 t4) =
      NewQuotaManager\<lparr>slowUntil := t3 + 2 * minute, lastActivate := t4, backoffDur := 4 * minute\<rparr>"
    using minute_pos
    by (simp add: NewQuotaManager_def quota_RecordQuotaError_def Let_def quota_consts)
  moreover have "quota_run NewQuotaManager (errs @ [QError t1 t2 t3 t4]) = quota_do ?q (QError t1 t2 t3 t4)"
    by (simp add: quota_run_def)
  ultimately have q': "quota_run NewQuotaManager (errs @ [QError t1 t2 t3 t4]) =
      NewQuotaManager\<lparr>slowUntil := t3 + 2 * minute, lastActivate := t4, backoffDur := 4 * minute\<rparr>"
    by (simp add: q)
  show ?thesis
    using \<open>0 < t3 + 2 * minute\<close> unfolding q' q by (auto simp: IsSlowMode_def IsZero_def NewQuotaManager_def)
qed

section \<open>Leaving slow mode\<close>

lemma success_step:
  assumes "slowUntil q \<noteq> 0" "t \<le> slowUntil q" "consecSuccesses q < 4"
  shows "quota_do q (QSuccess t) = q\<lparr>consecErrors := 0, consecSuccesses := consecSuccesses q + 1\<rparr>"
  using assms by (simp add: quota_RecordSuccess_def Let_def IsZero_def quota_consts)

text \<open>
  While slow mode runs, fewer than five successes in a row do not end it; the fifth does,
  and resets the back-off to two minutes.
\<close>

theorem slow_mode_early_exit:
  assumes "slowUntil q \<noteq> 0" "consecSuccesses q = 0" "\<forall>t \<in> set ts. t \<le> slowUntil q" "length ts \<le> 5"
  shows "quota_run q (map QSuccess ts) =
     (if length ts = 5 then q\<lparr>consecErrors := 0, consecSuccesses := 0, slowUntil := 0, backoffDur := 2 * minute\<rparr>
      else if ts = [] then q else q\<lparr>consecErrors := 0, consecSuccesses := int (length ts)\<rparr>)"
proof -
  have four: "quota_run q (map QSuccess us) = (if us = [] then q else q\<lparr>consecErrors := 0, consecSuccesses := consecSuccesses q + int (length us)\<rparr>)"
    if "slowUntil q \<noteq> 0" "\<forall>t \<in> set us. t \<le> slowUntil q" "consecSuccesses q + int (length us) \<le> 4" for q us
    using that
  proof (induction us arbitrary: q)
    case (Cons u us)
    have s: "quota_do q (QSuccess u) = q\<lparr>consecErrors := 0, consecSuccesses := consecSuccesses q + 1\<rparr>" (is "_ = ?q")
      using Cons.prems by (intro success_step) auto
    have "quota_run ?q (map QSuccess us) = (if us = [] then ?q else ?q\<lparr>consecErrors := 0, consecSuccesses := consecSuccesses ?q + int (length us)\<rparr>)"
      using Cons.prems by (intro Cons.IH) auto
    then show ?case using s by (auto simp: quota_run_def)
  qed (simp add: quota_run_def)
  show ?thesis
  proof (cases "length ts = 5")
    case False
    then show ?thesis using four [of q ts] assms by simp
  next
    case True
    then obtain us u where ts: "ts = us @ [u]" "length us = 4"
      by (cases ts rule: rev_cases) auto
    have "quota_run q (map QSuccess us) = q\<lparr>consecErrors := 0, consecSuccesses := 4\<rparr>"
      using four [of q us] ts assms by auto
    then show ?thesis
      using assms ts by (simp add: quota_run_def quota_RecordSuccess_def Let_def IsZero_def quota_consts)
  qed
qed

section \<open>Witnesses\<close>

lemma quota_invariant_witness:
  "backoffDur (quota_run NewQuotaManager [QError 1 1 1 1, QSuccess 2, QIsSlow 3]) \<le> 20 * minute"
  using quota_invariant [of "[QError 1 1 1 1, QSuccess 2, QIsSlow 3]" 0] by (simp add: timed_def Let_def)

lemma slow_mode_activation_witness:
  "fst (quota_RecordQuotaError (quota_run NewQuotaManager (QError 1 1 1 1 # QSuccess 2 # replicate 19 (QError 3 3 3 3) @ [QIsSlow 4]))
     (50 * second) (50 * second) (50 * second) (50 * second))"
proof -
  let ?cs = "QError 1 1 1 1 # QSuccess 2 # replicate 19 (QError 3 3 3 3) @ [QIsSlow 4]"
  have "errors_in_row ?cs = 19" "activations NewQuotaManager ?cs = []" "slowUntil (quota_run NewQuotaManager ?cs) \<le> 50 * second" by code_simp+
  with slow_mode_activation [of "50 * second" "50 * second" ?cs "50 * second" "50 * second"] show ?thesis
    by (auto simp: second_def split: prod.splits)
qed

lemma quota_burst_witness:
  "fst (IsSlowMode (quota_run NewQuotaManager (replicate 19 (QError 1 1 1 1) @ [QError (50 * second) (50 * second) (50 * second) (50 * second)])) (60 * second))"
  using quota_burst [of "replicate 19 (QError 1 1 1 1)" "50 * second" "50 * second" "50 * second" "50 * second" "60 * second"]
  by (simp add: second_def minute_def)

lemma slow_mode_early_exit_witness:
  "slowUntil (quota_run (NewQuotaManager\<lparr>slowUntil := 100\<rparr>) (map QSuccess [1, 2, 3, 4, 5])) = 0"
  using slow_mode_early_exit [of "NewQuotaManager\<lparr>slowUntil := 100\<rparr>" "[1, 2, 3, 4, 5]"]
  by (simp add: NewQuotaManager_def)

end
