(* ===== verification/Cache_Rotor.thy ===== *)
theory Cache_Rotor
  imports Quota_Manager
begin

text \<open>
  The rotation over AMP caches, from champa-client/cacherotor.go. A cache is \<open>None\<close> for direct mode
  or a parsed URL; the parser of \<^verbatim>\<open>net/url\<close> is a parameter \<open>parse\<close>, and so is the selector \<open>host\<close> of the
  parsed URL's host. Indexing out of range panics, as in Go. Clock readings are arguments.
\<close>

section \<open>Trimming\<close>

text \<open>
  \<^verbatim>\<open>strings.TrimSpace\<close> removes leading and trailing Unicode white space of a UTF-8 string: the ASCII
  spaces, U+0085, U+00A0, U+1680, U+2000 to U+200A, U+2028, U+2029, U+202F, U+205F and U+3000.
\<close>

definition unicode_spaces :: "bytes list" where
  "unicode_spaces =
     [[0x09], [0x0a], [0x0b], [0x0c], [0x0d], [0x20], [0xc2, 0x85], [0xc2, 0xa0], [0xe1, 0x9a, 0x80],
      [0xe2, 0x80, 0x80], [0xe2, 0x80, 0x81], [0xe2, 0x80, 0x82], [0xe2, 0x80, 0x83], [0xe2, 0x80, 0x84],
      [0xe2, 0x80, 0x85], [0xe2, 0x80, 0x86], [0xe2, 0x80, 0x87], [0xe2, 0x80, 0x88], [0xe2, 0x80, 0x89],
      [0xe2, 0x80, 0x8a], [0xe2, 0x80, 0xa8], [0xe2, 0x80, 0xa9], [0xe2, 0x80, 0xaf], [0xe2, 0x81, 0x9f],
      [0xe3, 0x80, 0x80]]"

text \<open>Cut the first of the given strings off the front of \<open>s\<close>, if one is a prefix, as long as one is.\<close>

function trimLeft :: "bytes list \<Rightarrow> bytes \<Rightarrow> bytes" where
  "trimLeft sps s =
     (case find (\<lambda>sp. sp \<noteq> [] \<and> take (length sp) s = sp) sps of
        None \<Rightarrow> s
      | Some sp \<Rightarrow> trimLeft sps (drop (length sp) s))"
  by pat_completeness auto
termination
proof (relation "measure (\<lambda>(_, s). length s)")
  fix sps s sp
  assume "find (\<lambda>sp. sp \<noteq> [] \<and> take (length sp) s = sp) sps = Some sp"
  then have "sp \<noteq> []" "take (length sp) s = sp" by (auto simp: find_Some_iff)
  then show "((sps, drop (length sp) s), (sps, s)) \<in> measure (\<lambda>(_, s). length s)"
    by (cases s) auto
qed simp

declare trimLeft.simps [simp del]

definition TrimSpace :: "bytes \<Rightarrow> bytes" where
  "TrimSpace s =
     rev (trimLeft (map rev unicode_spaces) (rev (trimLeft unicode_spaces s)))"

section \<open>The rotor\<close>

definition cacheRotateThreshold :: int where "cacheRotateThreshold = 15"
definition cacheErrorWindow :: int where "cacheErrorWindow = 15 * minute"

record 'u CacheRotor =
  caches :: "'u option list"
  rcur :: int
  errCount :: "int list"
  lastErr :: "int list"

fun parse_all :: "(bytes \<Rightarrow> goerror + 'u) \<Rightarrow> bytes list \<Rightarrow> 'u option list" where
  "parse_all parse [] = []"
| "parse_all parse (s # ss) =
     (let s = TrimSpace s
      in if s = [] then None # parse_all parse ss
         else (case parse s of
                 Inl err \<Rightarrow> parse_all parse ss
               | Inr u \<Rightarrow> Some u # parse_all parse ss))"

definition NewCacheRotor :: "(bytes \<Rightarrow> goerror + 'u) \<Rightarrow> bytes list \<Rightarrow> 'u CacheRotor" where
  "NewCacheRotor parse rawURLs =
     (let urls = parse_all parse rawURLs;
          urls = (if length urls = 0 then [None] else urls)
      in \<lparr>caches = urls, rcur = 0, errCount = replicate (length urls) 0, lastErr = replicate (length urls) 0\<rparr>)"

text \<open>Reading and writing a slice by index; out of range is a panic.\<close>

definition slice_get :: "'a list \<Rightarrow> int \<Rightarrow> 'a run" where
  "slice_get xs i = (if 0 \<le> i \<and> i < int (length xs) then Return (xs ! nat i) else Panic ''index out of range'')"

definition slice_set :: "'a list \<Rightarrow> int \<Rightarrow> 'a \<Rightarrow> 'a list run" where
  "slice_set xs i x = (if 0 \<le> i \<and> i < int (length xs) then Return (xs[nat i := x]) else Panic ''index out of range'')"

definition rotor_Current :: "'u CacheRotor \<Rightarrow> 'u option run" where
  "rotor_Current r = slice_get (caches r) (rcur r)"

definition nameAt :: "('u \<Rightarrow> bytes) \<Rightarrow> 'u CacheRotor \<Rightarrow> int \<Rightarrow> bytes run" where
  "nameAt host r i =
     run_bind (slice_get (caches r) i) (\<lambda>c.
       case c of None \<Rightarrow> Return (str ''direct'') | Some u \<Rightarrow> Return (host u))"

definition CurrentName :: "('u \<Rightarrow> bytes) \<Rightarrow> 'u CacheRotor \<Rightarrow> bytes run" where
  "CurrentName host r = nameAt host r (rcur r)"

text \<open>\<open>t1\<close> is the clock in \<^verbatim>\<open>time.Since\<close>, \<open>t2\<close> the reading that is stored.\<close>

definition rotor_RecordQuotaError :: "('u \<Rightarrow> bytes) \<Rightarrow> 'u CacheRotor \<Rightarrow> int \<Rightarrow> int \<Rightarrow> 'u CacheRotor run" where
  "rotor_RecordQuotaError host r t1 t2 =
     (let i = rcur r in
      run_bind (slice_get (lastErr r) i) (\<lambda>last.
      run_bind (if \<not> IsZero last \<and> timeSub t1 last > cacheErrorWindow
                then slice_set (errCount r) i 0 else Return (errCount r)) (\<lambda>ec.
      run_bind (slice_get ec i) (\<lambda>n.
      run_bind (slice_set ec i (n + 1)) (\<lambda>ec.
      run_bind (slice_set (lastErr r) i t2) (\<lambda>le.
      let r = r\<lparr>errCount := ec, lastErr := le\<rparr> in
      if n + 1 < cacheRotateThreshold \<or> length (caches r) \<le> 1 then Return r
      else (let nxt = (rcur r + 1) mod int (length (caches r)) in
            run_bind (nameAt host r i) (\<lambda>_.
            run_bind (nameAt host r nxt) (\<lambda>_.
            run_bind (slice_set (errCount r) nxt 0) (\<lambda>ec.
            Return (r\<lparr>rcur := nxt, errCount := ec\<rparr>)))))))))))"

definition rotor_RecordSuccess :: "'u CacheRotor \<Rightarrow> 'u CacheRotor run" where
  "rotor_RecordSuccess r =
     run_bind (slice_set (errCount r) (rcur r) 0) (\<lambda>ec. Return (r\<lparr>errCount := ec\<rparr>))"

section \<open>Invariant\<close>

definition rotor_ok :: "'u CacheRotor \<Rightarrow> bool" where
  "rotor_ok r \<longleftrightarrow> length (errCount r) = length (caches r) \<and> length (lastErr r) = length (caches r) \<and>
     0 \<le> rcur r \<and> rcur r < int (length (caches r))"

lemma NewCacheRotor_ok: "rotor_ok (NewCacheRotor parse rawURLs)"
  by (simp add: rotor_ok_def NewCacheRotor_def Let_def)

lemma slice_get_Return [simp]: "0 \<le> i \<Longrightarrow> i < int (length xs) \<Longrightarrow> slice_get xs i = Return (xs ! nat i)"
  by (simp add: slice_get_def)

lemma slice_set_Return [simp]: "0 \<le> i \<Longrightarrow> i < int (length xs) \<Longrightarrow> slice_set xs i x = Return (xs[nat i := x])"
  by (simp add: slice_set_def)

lemma next_slot:
  assumes "0 < int n"
  shows "0 \<le> i mod int n" "i mod int n < int n" "nat (i mod int n) < n"
  using pos_mod_sign [OF assms, of i] pos_mod_bound [OF assms, of i] by (simp_all add: nat_less_iff)

text \<open>The error count of the active cache after one more error, and the next cache.\<close>

definition bumped :: "'u CacheRotor \<Rightarrow> int \<Rightarrow> int" where
  "bumped r t1 =
     (let i = nat (rcur r) in
      if lastErr r ! i \<noteq> 0 \<and> timeSub t1 (lastErr r ! i) > cacheErrorWindow then 1 else errCount r ! i + 1)"

lemma rotor_RecordQuotaError_cases:
  assumes "rotor_ok r"
  shows "rotor_RecordQuotaError host r t1 t2 =
     (let i = nat (rcur r); n = bumped r t1;
          r' = r\<lparr>errCount := (errCount r)[i := n], lastErr := (lastErr r)[i := t2]\<rparr>;
          nxt = (rcur r + 1) mod int (length (caches r))
      in Return (if n < 15 \<or> length (caches r) \<le> 1 then r'
                 else r'\<lparr>rcur := nxt, errCount := (errCount r')[nat nxt := 0]\<rparr>))"
proof -
  have ok: "length (errCount r) = length (caches r)" "length (lastErr r) = length (caches r)"
    "0 \<le> rcur r" "rcur r < int (length (caches r))" "nat (rcur r) < length (caches r)"
    using assms by (auto simp: rotor_ok_def)
  let ?n = "(rcur r + 1) mod int (length (caches r))"
  have nxt: "0 \<le> ?n" "?n < int (length (caches r))"
    by (rule next_slot, use ok in linarith)+
  have name: "nameAt host s i = Return (case caches s ! nat i of None \<Rightarrow> str ''direct'' | Some u \<Rightarrow> host u)"
    if "0 \<le> i" "i < int (length (caches s))" for s :: "'a CacheRotor" and i
    using that by (simp add: nameAt_def split: option.splits)
  have "0 < length (caches r)" using ok(5) by linarith
  then show ?thesis
    using ok nxt
    by (simp add: rotor_RecordQuotaError_def bumped_def Let_def IsZero_def name cacheRotateThreshold_def)
qed

lemma rotor_RecordQuotaError_ok:
  assumes "rotor_ok r"
  shows "\<exists>r'. rotor_RecordQuotaError host r t1 t2 = Return r' \<and> rotor_ok r' \<and> caches r' = caches r"
proof -
  have "0 < int (length (caches r))" using assms unfolding rotor_ok_def by linarith
  then show ?thesis
    using assms unfolding rotor_RecordQuotaError_cases [OF assms] by (simp add: Let_def rotor_ok_def)
qed

lemma rotor_RecordSuccess_ok:
  assumes "rotor_ok r"
  shows "\<exists>r'. rotor_RecordSuccess r = Return r' \<and> rotor_ok r' \<and> caches r' = caches r \<and> rcur r' = rcur r"
  using assms by (simp add: rotor_RecordSuccess_def rotor_ok_def)

section \<open>Runs\<close>

datatype rotor_call = RError int int | RSuccess

fun rotor_do :: "('u \<Rightarrow> bytes) \<Rightarrow> 'u CacheRotor \<Rightarrow> rotor_call \<Rightarrow> 'u CacheRotor run" where
  "rotor_do host r (RError t1 t2) = rotor_RecordQuotaError host r t1 t2"
| "rotor_do host r RSuccess = rotor_RecordSuccess r"

fun rotor_run :: "('u \<Rightarrow> bytes) \<Rightarrow> 'u CacheRotor \<Rightarrow> rotor_call list \<Rightarrow> 'u CacheRotor run" where
  "rotor_run host r [] = Return r"
| "rotor_run host r (c # cs) = run_bind (rotor_do host r c) (\<lambda>r. rotor_run host r cs)"

lemma rotor_do_ok:
  assumes "rotor_ok r"
  obtains r' where "rotor_do host r c = Return r'" "rotor_ok r'" "caches r' = caches r"
  using rotor_RecordQuotaError_ok [OF assms, of host] rotor_RecordSuccess_ok [OF assms] by (cases c) fastforce+

lemma rotor_run_ok:
  "rotor_ok r \<Longrightarrow> \<exists>r'. rotor_run host r cs = Return r' \<and> rotor_ok r' \<and> caches r' = caches r"
proof (induction cs arbitrary: r)
  case (Cons c cs)
  obtain r' where "rotor_do host r c = Return r'" "rotor_ok r'" "caches r' = caches r"
    using Cons.prems by (rule rotor_do_ok)
  then show ?case using Cons.IH [of r'] by simp
qed simp

text \<open>
  Whatever the command line says and whatever is reported, the rotor never panics: it always
  has a current slot, which is one of the caches given or direct mode, and a name to show for it.
\<close>

theorem rotor_total:
  "\<exists>r u name. rotor_run host (NewCacheRotor parse rawURLs) cs = Return r \<and>
     rotor_Current r = Return u \<and> CurrentName host r = Return name \<and>
     (u = None \<or> (\<exists>s \<in> set rawURLs. Inr (the u) = parse (TrimSpace s)))"
proof -
  obtain r where r: "rotor_run host (NewCacheRotor parse rawURLs) cs = Return r" "rotor_ok r"
      "caches r = caches (NewCacheRotor parse rawURLs)"
    using rotor_run_ok [OF NewCacheRotor_ok, of host parse rawURLs cs] by blast
  have in_set: "u \<in> set (parse_all parse ss) \<Longrightarrow> u = None \<or> (\<exists>s \<in> set ss. Inr (the u) = parse (TrimSpace s))" for u ss
    by (induction ss) (auto simp: Let_def split: if_splits sum.splits)
  let ?u = "caches r ! nat (rcur r)"
  have i: "0 \<le> rcur r" "rcur r < int (length (caches r))" "nat (rcur r) < length (caches r)"
    using r(2) by (auto simp: rotor_ok_def)
  then have "?u \<in> set (caches r)" by simp
  then have "?u = None \<or> ?u \<in> set (parse_all parse rawURLs)"
    by (auto simp: r(3) NewCacheRotor_def Let_def split: if_splits)
  then have "?u = None \<or> (\<exists>s \<in> set rawURLs. Inr (the ?u) = parse (TrimSpace s))"
    using in_set by blast
  moreover have "\<exists>name. CurrentName host r = Return name"
    using i by (cases ?u) (simp_all add: CurrentName_def nameAt_def)
  moreover have "rotor_Current r = Return ?u" using i by (simp add: rotor_Current_def)
  ultimately show ?thesis using r(1) by blast
qed

section \<open>Rotation\<close>

text \<open>
  What the rotor does, without the arrays of counters: the number of moves made, the number of errors in the present row of errors, and
  the time of the last one. An error more than 15 minutes after the one before it starts a new row, and so does a success; the
  fifteenth of a row is a move, if there is anywhere to go.
\<close>

fun row_call :: "bool \<Rightarrow> nat \<times> nat \<times> int \<Rightarrow> rotor_call \<Rightarrow> nat \<times> nat \<times> int" where
  "row_call many (k, n, prev) (RError t1 t2) =
     (let n = (if n > 0 \<and> timeSub t1 prev > 15 * minute then 1 else Suc n)
      in if many \<and> n = 15 then (Suc k, 0, t2) else (k, n, t2))"
| "row_call many (k, n, prev) RSuccess = (k, 0, prev)"

definition row_run :: "bool \<Rightarrow> nat \<times> nat \<times> int \<Rightarrow> rotor_call list \<Rightarrow> nat \<times> nat \<times> int" where
  "row_run many = foldl (row_call many)"

text \<open>The state of a rotor with \<open>N\<close> slots that corresponds to it.\<close>

fun row_state :: "'u CacheRotor \<Rightarrow> nat \<times> nat \<times> int \<Rightarrow> bool" where
  "row_state r (k, n, prev) \<longleftrightarrow> rotor_ok r \<and> rcur r = int k mod int (length (caches r)) \<and> errCount r ! nat (rcur r) = int n \<and>
     (n > 0 \<longrightarrow> lastErr r ! nat (rcur r) = prev \<and> prev \<noteq> 0) \<and> (length (caches r) > 1 \<longrightarrow> n < 15)"

lemma row_error:
  assumes "row_state r (k, n, prev)" and "t2 \<noteq> 0" and "rotor_RecordQuotaError host r t1 t2 = Return r'"
  shows "row_state r' (row_call (length (caches r) > 1) (k, n, prev) (RError t1 t2))"
proof -
  let ?N = "length (caches r)" and ?i = "nat (rcur r)"
  define m where "m = (if n > 0 \<and> timeSub t1 prev > 15 * minute then 1 else Suc n)"
  let ?nxt = "(rcur r + 1) mod int ?N"
  have ok: "rotor_ok r" "rcur r = int k mod int ?N" "errCount r ! ?i = int n" "n > 0 \<Longrightarrow> lastErr r ! ?i = prev \<and> prev \<noteq> 0" "?N > 1 \<Longrightarrow> n < 15"
    using assms(1) by auto
  have i: "?i < ?N" "length (errCount r) = ?N" "length (lastErr r) = ?N" "0 < ?N" using ok(1) by (auto simp: rotor_ok_def)
  have b: "bumped r t1 = int m" using ok(3,4) by (auto simp: m_def bumped_def Let_def cacheErrorWindow_def)
  obtain r'' where r'': "rotor_RecordQuotaError host r t1 t2 = Return r''" "rotor_ok r''" "caches r'' = caches r"
    using rotor_RecordQuotaError_ok [OF ok(1)] by blast
  then have r': "rotor_ok r'" "caches r' = caches r" using assms(3) by simp_all
  have nxt: "?nxt = int (Suc k) mod int ?N" unfolding ok(2) by (simp only: mod_add_left_eq of_nat_Suc add.commute [of 1])
  have lt: "nat ?nxt < ?N" using i(4) by (intro next_slot(3)) simp
  let ?r = "r\<lparr>errCount := (errCount r)[?i := int m], lastErr := (lastErr r)[?i := t2]\<rparr>"
  have e: "r' = (if m < 15 \<or> ?N \<le> 1 then ?r else ?r\<lparr>rcur := ?nxt, errCount := (errCount ?r)[nat ?nxt := 0]\<rparr>)"
    using assms(3) unfolding rotor_RecordQuotaError_cases [OF ok(1)] b Let_def by simp
  show ?thesis
  proof (cases "m < 15 \<or> ?N \<le> 1")
    case True
    then have "row_call (?N > 1) (k, n, prev) (RError t1 t2) = (k, m, t2)" by (auto simp: Let_def m_def)
    moreover have "rcur r' = rcur r" "errCount r' ! ?i = int m" "lastErr r' ! ?i = t2" using e True i by simp_all
    ultimately show ?thesis using r' ok(2) assms(2) True by (auto simp del: row_call.simps)
  next
    case False
    moreover have "m = 15" using False ok(5) by (auto simp: m_def split: if_splits)
    ultimately have "row_call (?N > 1) (k, n, prev) (RError t1 t2) = (Suc k, 0, t2)" by (simp add: Let_def flip: m_def)
    moreover have "rcur r' = ?nxt" "errCount r' ! nat ?nxt = 0" using e False i lt by simp_all
    ultimately show ?thesis using r' nxt by simp
  qed
qed

lemma row_success:
  assumes "row_state r s" and "rotor_RecordSuccess r = Return r'"
  shows "row_state r' (row_call many s RSuccess)"
proof -
  obtain k n prev where s: "s = (k, n, prev)" by (cases s)
  then have ok: "rotor_ok r" "rcur r = int k mod int (length (caches r))" using assms(1) by simp_all
  then have r': "r' = r\<lparr>errCount := (errCount r)[nat (rcur r) := 0]\<rparr>"
    using assms(2) by (simp add: rotor_RecordSuccess_def rotor_ok_def)
  have "errCount r' ! nat (rcur r) = 0" using ok(1) by (auto simp: r' rotor_ok_def)
  moreover have "rotor_ok r'" using ok(1) by (simp add: r' rotor_ok_def)
  moreover have "rcur r' = rcur r" "caches r' = caches r" by (simp_all add: r')
  ultimately show ?thesis using ok(2) by (simp add: s)
qed

lemma row_simulates:
  assumes "row_state r s" and "\<forall>t1 t2. c = RError t1 t2 \<longrightarrow> t2 \<noteq> 0"
  obtains r' where "rotor_do host r c = Return r'" "caches r' = caches r" "row_state r' (row_call (length (caches r) > 1) s c)"
proof -
  obtain k n prev where s: "s = (k, n, prev)" by (cases s)
  then have ok: "rotor_ok r" using assms(1) by simp
  obtain r' where r': "rotor_do host r c = Return r'" "caches r' = caches r" using ok by (rule rotor_do_ok)
  then have "row_state r' (row_call (length (caches r) > 1) s c)"
    using row_error [of r k n prev _ host _ r'] row_success [of r s r'] assms by (cases c) (auto simp: s simp del: row_state.simps row_call.simps)
  with r' show ?thesis by (rule that)
qed

lemma row_run_simulates:
  "row_state r s \<Longrightarrow> \<forall>t1 t2. RError t1 t2 \<in> set cs \<longrightarrow> t2 \<noteq> 0 \<Longrightarrow>
   \<exists>r'. rotor_run host r cs = Return r' \<and> caches r' = caches r \<and> row_state r' (row_run (length (caches r) > 1) s cs)"
proof (induction cs arbitrary: r s)
  case (Cons c cs)
  have c: "\<forall>t1 t2. c = RError t1 t2 \<longrightarrow> t2 \<noteq> 0" using Cons.prems(2) by auto
  obtain r1 where r1: "rotor_do host r c = Return r1" "caches r1 = caches r" "row_state r1 (row_call (length (caches r) > 1) s c)"
    by (rule row_simulates [OF Cons.prems(1) c])
  show ?case using Cons.IH [OF r1(3)] Cons.prems(2) r1(1,2) by (simp add: row_run_def)
qed (simp add: row_run_def)

text \<open>
  C40: The rotor keeps a counter and a time for every cache, but all that matters is the present row of errors: after any calls on a new rotor,
  the current slot is number \<open>k\<close>, counting round the list, where \<open>k\<close> is the number of rows that have reached fifteen errors. A row
  is ended by a success, by a move, or by an error that comes more than 15 minutes after the one before it. With
  one slot only the rotor stays where it is. (The comments call this a sliding window of 15 minutes, in which the
  errors have to lie; the code only compares each error with the one before it.)
\<close>

theorem rotor_refines:
  assumes "\<forall>t1 t2. RError t1 t2 \<in> set cs \<longrightarrow> t2 \<noteq> 0"
  shows "\<exists>r. rotor_run host (NewCacheRotor parse rawURLs) cs = Return r \<and>
    (let us = caches (NewCacheRotor parse rawURLs); (k, n, prev) = row_run (length us > 1) (0, 0, 0) cs
     in rotor_Current r = Return (us ! (k mod length us)) \<and> errCount r ! (k mod length us) = int n)"
proof -
  let ?r0 = "NewCacheRotor parse rawURLs"
  have "row_state ?r0 (0, 0, 0)" using NewCacheRotor_ok [of parse rawURLs] by (auto simp: NewCacheRotor_def Let_def)
  then obtain r where r: "rotor_run host ?r0 cs = Return r" "caches r = caches ?r0" "row_state r (row_run (length (caches ?r0) > 1) (0, 0, 0) cs)"
    using row_run_simulates [OF _ assms] by blast
  obtain k n prev where s: "row_run (length (caches ?r0) > 1) (0, 0, 0) cs = (k, n, prev)" by (metis prod_cases3)
  then have k0: "rotor_ok r" "rcur r = int k mod int (length (caches r))" "errCount r ! nat (rcur r) = int n"
    using r(3) unfolding s row_state.simps by blast+
  then have k: "rotor_ok r" "rcur r = int (k mod length (caches ?r0))" "errCount r ! nat (rcur r) = int n"
    using r(2) by (simp_all only: zmod_int)
  then have "rotor_Current r = Return (caches ?r0 ! (k mod length (caches ?r0)))"
    using r(2) by (simp add: rotor_Current_def rotor_ok_def)
  with r(1) s k show ?thesis by (auto simp: Let_def)
qed

text \<open>Fifteen errors, each 14 minutes after the one before, move the rotor, although no two of them but neighbours lie within 15 minutes.\<close>

lemma rotor_window_not_sliding:
  assumes "length (caches (NewCacheRotor parse rawURLs)) > 1"
  shows "\<exists>r. rotor_run host (NewCacheRotor parse rawURLs) (map (\<lambda>i. RError (14 * minute * int i) (14 * minute * int i)) [1..<16]) = Return r \<and>
    rotor_Current r = Return (caches (NewCacheRotor parse rawURLs) ! 1)"
proof -
  let ?cs = "map (\<lambda>i. RError (14 * minute * int i) (14 * minute * int i)) [1..<16]"
  have st: "row_state (NewCacheRotor parse rawURLs) (0, 0, 0)" using NewCacheRotor_ok [of parse rawURLs] by (auto simp: NewCacheRotor_def Let_def)
  have "\<forall>t1 t2. RError t1 t2 \<in> set ?cs \<longrightarrow> t2 \<noteq> 0" by (auto simp: minute_def second_def)
  from row_run_simulates [OF st this, of host] obtain r where r: "rotor_run host (NewCacheRotor parse rawURLs) ?cs = Return r"
    "caches r = caches (NewCacheRotor parse rawURLs)" "row_state r (row_run (length (caches (NewCacheRotor parse rawURLs)) > 1) (0, 0, 0) ?cs)" by blast
  have "row_run True (0, 0, 0) ?cs = (1, 0, 210 * minute)" by code_simp
  then have "rotor_ok r" "rcur r = 1 mod int (length (caches (NewCacheRotor parse rawURLs)))" using r(2,3) assms by auto
  then show ?thesis using r(1,2) assms by (intro exI [of _ r]) (auto simp: rotor_Current_def rotor_ok_def)
qed

lemma error_step:
  assumes "rotor_ok r" "length (caches r) > 1" "set (lastErr r) \<subseteq> {0, t}"
  shows "rotor_RecordQuotaError host r t t =
    Return (let i = nat (rcur r); nxt = (rcur r + 1) mod int (length (caches r));
                r' = r\<lparr>errCount := (errCount r)[i := errCount r ! i + 1], lastErr := (lastErr r)[i := t]\<rparr>
      in if errCount r ! i < 14 then r' else r'\<lparr>rcur := nxt, errCount := (errCount r')[nat nxt := 0]\<rparr>)"
proof -
  have "lastErr r ! nat (rcur r) \<in> {0, t}"
    using assms nth_mem [of "nat (rcur r)" "lastErr r"] unfolding rotor_ok_def by (metis nat_less_iff subsetD)
  then have "bumped r t = errCount r ! nat (rcur r) + 1"
    using less_imp_le [OF minute_pos(1)] by (auto simp: bumped_def Let_def timeSub_def cacheErrorWindow_def)
  then show ?thesis
    using assms(2) unfolding rotor_RecordQuotaError_cases [OF assms(1)] by (auto simp: Let_def)
qed

lemma rotor_run_append:
  "rotor_run host r (cs @ ds) = run_bind (rotor_run host r cs) (\<lambda>r. rotor_run host r ds)"
proof (induction cs arbitrary: r)
  case (Cons c cs)
  then show ?case by (cases "rotor_do host r c") simp_all
qed simp

text \<open>The states between the bursts: no error counted against the current cache.\<close>

definition rotor_fresh :: "'u CacheRotor \<Rightarrow> int \<Rightarrow> bool" where
  "rotor_fresh r t \<longleftrightarrow> rotor_ok r \<and> length (caches r) > 1 \<and> set (lastErr r) \<subseteq> {0, t}"

lemma burst_below:
  assumes "rotor_fresh r t" "errCount r ! nat (rcur r) = 0" "n \<le> 14"
  shows "\<exists>r'. rotor_run host r (replicate n (RError t t)) = Return r' \<and> rotor_fresh r' t \<and>
     caches r' = caches r \<and> rcur r' = rcur r \<and> errCount r' ! nat (rcur r) = int n"
  using assms(3)
proof (induction n)
  case 0
  then show ?case using assms by simp
next
  case (Suc n)
  then obtain r' where r': "rotor_run host r (replicate n (RError t t)) = Return r'" "rotor_fresh r' t"
      "caches r' = caches r" "rcur r' = rcur r" "errCount r' ! nat (rcur r) = int n" by auto
  let ?i = "nat (rcur r)"
  let ?r = "r'\<lparr>errCount := (errCount r')[?i := int (Suc n)], lastErr := (lastErr r')[?i := t]\<rparr>"
  have i: "?i < length (errCount r')" using r' by (auto simp: rotor_fresh_def rotor_ok_def)
  have "rotor_do host r' (RError t t) = Return ?r"
    using r' Suc.prems error_step [of r' t host] by (simp add: rotor_fresh_def Let_def add.commute)
  moreover have "rotor_run host r (replicate (Suc n) (RError t t)) =
      run_bind (rotor_run host r (replicate n (RError t t))) (\<lambda>r. rotor_run host r [RError t t])"
    unfolding rotor_run_append [symmetric] by (simp add: replicate_append_same)
  moreover have "set ((lastErr r')[?i := t]) \<subseteq> {0, t}"
    using r'(2) set_update_subset_insert [of "lastErr r'" ?i t] by (auto simp: rotor_fresh_def)
  ultimately show ?case using r' i by (simp add: rotor_fresh_def rotor_ok_def)
qed

lemma burst_rotates:
  assumes "rotor_fresh r t" "errCount r ! nat (rcur r) = 0"
  shows "\<exists>r'. rotor_run host r (replicate 15 (RError t t)) = Return r' \<and> rotor_fresh r' t \<and>
     caches r' = caches r \<and> rcur r' = (rcur r + 1) mod int (length (caches r)) \<and> errCount r' ! nat (rcur r') = 0"
proof -
  obtain r' where r': "rotor_run host r (replicate 14 (RError t t)) = Return r'" "rotor_fresh r' t"
      "caches r' = caches r" "rcur r' = rcur r" "errCount r' ! nat (rcur r) = 14"
    using burst_below [OF assms, of 14 host] by auto
  let ?n = "(rcur r + 1) mod int (length (caches r))"
  have len: "0 < int (length (caches r))" using r'(2,3) by (auto simp: rotor_fresh_def)
  have n: "0 \<le> ?n" "?n < int (length (caches r))" "nat ?n < length (caches r)"
    by (rule next_slot [OF len])+
  have "rotor_run host r (replicate 15 (RError t t)) =
      run_bind (rotor_run host r (replicate 14 (RError t t))) (\<lambda>r. rotor_run host r [RError t t])"
    unfolding rotor_run_append [symmetric] by (simp add: numeral_eq_Suc)
  moreover have "set ((lastErr r')[nat (rcur r) := t]) \<subseteq> {0, t}"
    using r'(2) set_update_subset_insert [of "lastErr r'" "nat (rcur r)" t] by (auto simp: rotor_fresh_def)
  ultimately show ?thesis
    using r' n error_step [of r' t host] by (simp add: rotor_fresh_def rotor_ok_def Let_def)
qed

text \<open>
  Under a burst of quota errors the rotor goes round the list of caches: with at least two
  slots, fifteen errors per slot and no success in between, after the errors of \<open>k\<close> slots the
  current slot is number \<open>k\<close> modulo the number of slots.
\<close>

theorem rotor_round_robin:
  assumes "length (caches (NewCacheRotor parse rawURLs)) > 1"
  shows "\<exists>r. rotor_run host (NewCacheRotor parse rawURLs) (concat (replicate k (replicate 15 (RError t t)))) = Return r \<and>
     caches r = caches (NewCacheRotor parse rawURLs) \<and> rcur r = int k mod int (length (caches r))"
proof -
  let ?r0 = "NewCacheRotor parse rawURLs"
  have "\<exists>r. rotor_run host ?r0 (concat (replicate k (replicate 15 (RError t t)))) = Return r \<and> rotor_fresh r t \<and>
     caches r = caches ?r0 \<and> rcur r = int k mod int (length (caches ?r0)) \<and> errCount r ! nat (rcur r) = 0"
  proof (induction k)
    case 0
    have "rotor_fresh ?r0 t" using assms NewCacheRotor_ok [of parse rawURLs]
      by (auto simp: rotor_fresh_def NewCacheRotor_def Let_def)
    then show ?case using assms by (simp add: NewCacheRotor_def Let_def)
  next
    case (Suc k)
    then obtain r where r: "rotor_run host ?r0 (concat (replicate k (replicate 15 (RError t t)))) = Return r"
        "rotor_fresh r t" "caches r = caches ?r0" "rcur r = int k mod int (length (caches ?r0))"
        "errCount r ! nat (rcur r) = 0" by blast
    obtain r' where r': "rotor_run host r (replicate 15 (RError t t)) = Return r'" "rotor_fresh r' t"
        "caches r' = caches r" "rcur r' = (rcur r + 1) mod int (length (caches r))" "errCount r' ! nat (rcur r') = 0"
      using burst_rotates [OF r(2,5), of host] by blast
    have "concat (replicate (Suc k) (replicate 15 (RError t t))) =
        concat (replicate k (replicate 15 (RError t t))) @ replicate 15 (RError t t)"
      by (simp flip: replicate_append_same)
    then have "rotor_run host ?r0 (concat (replicate (Suc k) (replicate 15 (RError t t)))) = Return r'"
      using r(1) r'(1) by (simp add: rotor_run_append)
    moreover have "(int k mod int (length (caches ?r0)) + 1) mod int (length (caches ?r0)) = int (Suc k) mod int (length (caches ?r0))"
      by (simp only: mod_add_left_eq of_nat_Suc add.commute [of 1])
    ultimately show ?case using r r' by simp
  qed
  then show ?thesis by auto
qed

section \<open>Witnesses\<close>

lemma TrimSpace_empty: "TrimSpace [] = []"
  by (simp add: TrimSpace_def trimLeft.simps [of _ "[]"] unicode_spaces_def)

lemma rotor_refines_witness:
  "\<exists>r. rotor_run (\<lambda>u. u) (NewCacheRotor Inr [[], [], []]) (replicate 9 (RError 7 7) @ RSuccess # replicate 16 (RError 8 8)) = Return r \<and>
     rotor_Current r = Return (caches (NewCacheRotor (Inr :: bytes \<Rightarrow> goerror + bytes) [[], [], []]) ! 1) \<and> errCount r ! 1 = 1"
proof -
  let ?cs = "replicate 9 (RError 7 7) @ RSuccess # replicate 16 (RError 8 8)"
  have n: "length (caches (NewCacheRotor (Inr :: bytes \<Rightarrow> goerror + bytes) [[], [], []])) = 3"
    by (simp add: NewCacheRotor_def TrimSpace_empty)
  have "row_run True (0, 0, 0) ?cs = (1, 1, 8)" by code_simp
  then show ?thesis
    using rotor_refines [of ?cs "\<lambda>u. u" "Inr :: bytes \<Rightarrow> goerror + bytes" "[[], [], []]"] n by (auto simp: Let_def)
qed

lemma rotor_round_robin_witness:
  "\<exists>r. rotor_run (\<lambda>u. u) (NewCacheRotor Inr [[], [], []]) (concat (replicate 4 (replicate 15 (RError 1 1)))) = Return r \<and>
     rcur r = 1"
proof -
  have n: "length (caches (NewCacheRotor (Inr :: bytes \<Rightarrow> goerror + bytes) [[], [], []])) = 3"
    by (simp add: NewCacheRotor_def TrimSpace_empty)
  then show ?thesis
    using rotor_round_robin [of "Inr :: bytes \<Rightarrow> goerror + bytes" "[[], [], []]" "\<lambda>u. u" 4 1] by auto
qed

end
