(* ===== verification/Polling.thy ===== *)
theory Polling
  imports Packet_Select Encapsulation Rate_Limiter Cache_Rotor
begin

text \<open>
  The polling connection of the client, from champa-client/pollingpacketconn.go: a loop that waits for
  packets or for a timer, bundles packets into a payload, and, as far as the rate limiter and the
  number of polls in flight allow, starts a goroutine that polls the server and processes the answer.

  The loop is modelled in two steps, gathering a payload and dispatching it, between which polls may
  finish. While it gathers, a schedule says what others do to the packet connection, as in the HTTP handler. The poll
  itself is a parameter: a poll that finishes does so with an error or with a body.
\<close>

section \<open>Constants and state\<close>

definition initPollDelay :: int where "initPollDelay = 300 * 1000000"
definition maxPollDelay :: int where "maxPollDelay = 5 * second"
definition pollDelayMultiplier :: rat where "pollDelayMultiplier = 3 / 2"
definition quotaSlowRate :: rat where "quotaSlowRate = rnd (7 / 100)"
definition minAlwaysRate :: rat where "minAlwaysRate = quotaSlowRate"

record ('a, 'u) PollingPacketConn =
  remoteAddr :: 'a
  clientID :: bytes
  ctxDone :: bool
  adaptive :: AdaptiveController
  quota :: QuotaManager
  rotor :: "'u CacheRotor"
  currentRate :: rat
  pconn :: "'a queuePacketConn"
  \<comment> \<open>variables of the poll loop\<close>
  rateLimit :: RateLimiter
  semCap :: int
  semCur :: int
  pollDelay :: int

definition NewPollingPacketConn ::
  "'a \<Rightarrow> bytes \<Rightarrow> QuotaManager \<Rightarrow> 'u CacheRotor \<Rightarrow> int \<Rightarrow> int \<Rightarrow> 'a \<Rightarrow> ('a, 'u) PollingPacketConn" where
  "NewPollingPacketConn remote cid q r t1 t2 localA =
     \<lparr>remoteAddr = remote, clientID = cid, ctxDone = False, adaptive = NewAdaptiveController t1, quota = q, rotor = r, currentRate = 0,
      pconn = NewQueuePacketConn localA,
      rateLimit = NewRateLimiter t2 requestsPerSecondMax requestsPerSecondBurst requestsPerSecondRoI,
      semCap = 2, semCur = 0, pollDelay = initPollDelay\<rparr>"

definition poll_Close :: "('a, 'u) PollingPacketConn \<Rightarrow> (('a, 'u) PollingPacketConn \<times> goerror option) run" where
  "poll_Close c =
     (let c = c\<lparr>ctxDone := True\<rparr>
      in run_bind (Close (pconn c)) (\<lambda>(pc, e). Return (c\<lparr>pconn := pc\<rparr>, e)))"

definition storeRate :: "('a, 'u) PollingPacketConn \<Rightarrow> rat \<Rightarrow> ('a, 'u) PollingPacketConn" where
  "storeRate c r = c\<lparr>currentRate := r\<rparr>"

definition CurrentRate :: "('a, 'u) PollingPacketConn \<Rightarrow> rat" where
  "CurrentRate c = currentRate c"

section \<open>The semaphore\<close>

text \<open>\<open>t\<close> is the clock in \<open>IsSlowMode\<close>.\<close>

definition semAcquire :: "('a, 'u) PollingPacketConn \<Rightarrow> int \<Rightarrow> bool \<times> ('a, 'u) PollingPacketConn" where
  "semAcquire c t =
     (let (_, conc, _) = GetParams (adaptive c);
          (slow, q) = IsSlowMode (quota c) t;
          effectiveCap = (if slow then 1 else conc);
          c = c\<lparr>quota := q\<rparr>;
          c = (if conc \<noteq> semCap c then c\<lparr>semCap := conc\<rparr> else c)
      in if semCur c \<ge> effectiveCap then (False, c) else (True, c\<lparr>semCur := semCur c + 1\<rparr>))"

definition semRelease :: "('a, 'u) PollingPacketConn \<Rightarrow> ('a, 'u) PollingPacketConn" where
  "semRelease c = c\<lparr>semCur := semCur c - 1\<rparr>"

section \<open>Gathering\<close>

datatype selected = Cancelled | Packet bytes | TimerFired

text \<open>
  The four nested \<^verbatim>\<open>select\<close> statements. \<open>cancelled k\<close> says whether the context is cancelled at level \<open>k\<close>; a
  cancelled context wins if it is the only ready case, and otherwise if it is picked.
\<close>

definition select_packet ::
  "(nat \<Rightarrow> bool) \<Rightarrow> 'a sched \<Rightarrow> 'a queuePacketConn \<Rightarrow> nat \<Rightarrow> nat \<Rightarrow> ('a queuePacketConn \<times> selected) run" where
  "select_packet cancelled sch c unstash out =
     (if cancelled 0 then Return (c, Cancelled)
      else
        run_bind (interfere sch 2 c) (\<lambda>c.
        if cancelled 1 \<and> (pick sch 0 \<or> recv_case c unstash = None) then Return (c, Cancelled)
        else (case recv_case c unstash of
          Some (c, p) \<Rightarrow> Return (c, Packet p)
        | None \<Rightarrow>
            run_bind (interfere sch 3 c) (\<lambda>c.
            if cancelled 2 \<and> (pick sch 1 \<or> recv_either True c unstash out = None) then Return (c, Cancelled)
            else (case recv_either (pick sch 2) c unstash out of
              Some (c, p) \<Rightarrow> Return (c, Packet p)
            | None \<Rightarrow>
                run_bind (interfere sch 4 c) (\<lambda>c.
                if cancelled 3 \<and> pick sch 3 then Return (c, Cancelled)
                else if pick sch 4 then Return (c, TimerFired)
                else (case recv_either (pick sch 5) c unstash out of
                  Some (c, p) \<Rightarrow> Return (c, Packet p)
                | None \<Rightarrow> Return (c, TimerFired))))))))"

definition nextPollDelay :: "int \<Rightarrow> bool \<Rightarrow> int" where
  "nextPollDelay d timerFired =
     (if timerFired
      then (let d = int_of_float (fmul (float_of_int d) pollDelayMultiplier) in if d > maxPollDelay then maxPollDelay else d)
      else initPollDelay)"

text \<open>
  The loop that fills the payload; \<open>envs\<close> is what others do before each non-blocking receive. It
  returns the payload and the packet that did not fit, which is empty if there is none.
\<close>

function fill_payload ::
  "'a conn_op list list \<Rightarrow> int \<Rightarrow> nat \<Rightarrow> 'a queuePacketConn \<Rightarrow> bytes \<Rightarrow> bytes \<Rightarrow> bool \<Rightarrow> ('a queuePacketConn \<times> bytes \<times> bytes) run" where
  "fill_payload envs maxPayload out c payload p first =
     (if length p > 0 \<and> (first \<or> int (length payload) + int (length p) \<le> maxPayload)
      then
        (let payload = fst (WriteData buffer_Write payload p) in
         case envs of
           [] \<Rightarrow>
             (case conn_recv c out of
                (c', Got p') \<Rightarrow> fill_payload [] maxPayload out c' payload p' False
              | (c', _) \<Rightarrow> Return (c', payload, []))
         | ops # envs' \<Rightarrow>
             (case conn_run c ops of
                Panic s \<Rightarrow> Panic s
              | Return (c1, _) \<Rightarrow>
                  (case conn_recv c1 out of
                     (c', Got p') \<Rightarrow> fill_payload envs' maxPayload out c' payload p' False
                   | (c', _) \<Rightarrow> Return (c', payload, []))))
      else Return (c, payload, p))"
  by pat_completeness auto
termination
  by (relation "measures [\<lambda>(envs, _). length envs, \<lambda>(_, _, out, c, _). length (ch_buf (chans (remotes c) ! out))]")
    (auto simp: conn_recv_def try_recv_def Let_def split: list.splits if_splits)

declare fill_payload.simps [simp del]

text \<open>The first half of an iteration; no payload if the context is cancelled and the loop ends.\<close>

definition gather ::
  "(nat \<Rightarrow> bool) \<Rightarrow> 'a sched \<Rightarrow> 'a conn_op list list \<Rightarrow> ('a, 'u) PollingPacketConn \<Rightarrow> (('a, 'u) PollingPacketConn \<times> bytes option) run" where
  "gather cancelled sch envs c =
     run_bind (interfere sch 0 (pconn c)) (\<lambda>pc.
     run_bind (ConnUnstash pc (remoteAddr c) (clock sch 0)) (\<lambda>(pc, unstash).
     run_bind (interfere sch 1 pc) (\<lambda>pc.
     run_bind (OutgoingQueue pc (remoteAddr c) (clock sch 1)) (\<lambda>(pc, out).
     run_bind (select_packet cancelled sch pc unstash out) (\<lambda>(pc, sel).
     if sel = Cancelled then Return (c\<lparr>pconn := pc\<rparr>, None)
     else
       (let p = (case sel of Packet p \<Rightarrow> p | _ \<Rightarrow> []);
            c = c\<lparr>pollDelay := nextPollDelay (pollDelay c) (sel = TimerFired)\<rparr>;
            (maxPayload, _, _) = GetParams (adaptive c)
        in run_bind (fill_payload envs maxPayload out pc (clientID c) p True) (\<lambda>(pc, payload, p).
           if length p > 0
           then
             run_bind (interfere sch 5 pc) (\<lambda>pc.
             run_bind (ConnStash pc p (remoteAddr c) (clock sch 2)) (\<lambda>(pc, _).
             Return (c\<lparr>pconn := pc\<rparr>, Some payload)))
           else Return (c\<lparr>pconn := pc\<rparr>, Some payload))))))))"

section \<open>Dispatching\<close>

definition rate_control :: "('a, 'u) PollingPacketConn \<Rightarrow> int \<Rightarrow> ('a, 'u) PollingPacketConn" where
  "rate_control c t =
     (let (slow, q) = IsSlowMode (quota c) t;
          (_, _, targetRate) = GetParams (adaptive c);
          rl = rateLimit c;
          rl = (if slow then (if GetRate rl > quotaSlowRate then SetRate rl quotaSlowRate else rl)
                else (if GetRate rl < targetRate then SetRate rl targetRate else rl));
          rl = (if GetRate rl < minAlwaysRate then SetRate rl minAlwaysRate else rl)
      in storeRate (c\<lparr>quota := q, rateLimit := rl\<rparr>) (GetRate rl))"

text \<open>
  The second half of an iteration: \<open>Some\<close> payload if a goroutine is started to poll with it, \<open>None\<close> if
  the loop continues without one. \<open>now\<close>, \<open>t1\<close> and \<open>t2\<close> are the readings of the clock, in order.
\<close>

definition dispatch ::
  "('a, 'u) PollingPacketConn \<Rightarrow> bytes \<Rightarrow> int \<Rightarrow> int \<Rightarrow> int \<Rightarrow> ('a, 'u) PollingPacketConn \<times> bytes option" where
  "dispatch c payload now t1 t2 =
     (let c = rate_control c t1;
          (limited, _, rl) = IsLimited (rateLimit c) now;
          c = c\<lparr>rateLimit := rl\<rparr>
      in if limited then (c, None)
         else
           (let (acquired, c) = semAcquire c t2
            in if \<not> acquired then (c, None)
               else (c\<lparr>rateLimit := Take (rateLimit c) now 1\<rparr>, Some payload)))"

section \<open>Finishing a poll\<close>

definition maxResponseBody :: nat where
  "maxResponseBody = 1 * 1024 * 1024"

text \<open>\<open>remaining\<close> is the field \<^verbatim>\<open>N\<close> of the limited reader.\<close>

definition processIncoming :: "('a, 'u) PollingPacketConn \<Rightarrow> reader \<Rightarrow> ('a, 'u) PollingPacketConn \<times> nat \<times> goerror option" where
  "processIncoming c body =
     (let lr = LimitReader body maxResponseBody;
          (ps, e, rest) = ReadData_all lr;
          remaining = maxResponseBody - (length (rdata lr) - length (rdata rest));
          e = (if e = EOF \<and> remaining = 0 then Some (ErrorText ''response body exceeded 1 MB limit'')
               else if e = EOF then None else Some e)
      in (c\<lparr>pconn := foldl (\<lambda>pc p. QueueIncoming pc p (remoteAddr c)) (pconn c) ps\<rparr>,
          sum_list (map length ps), e))"

datatype poll_result = PollError goerror | PollBody reader

definition is_quota_error :: "goerror \<Rightarrow> bool" where
  "is_quota_error e = (case e of ErrCacheQuota s \<Rightarrow> True | _ \<Rightarrow> False)"

text \<open>
  The body of the goroutine, from the result of the poll. \<open>ts\<close> are the readings of the clock that its
  calls make; \<open>start\<close> and \<open>ts 0\<close> give the round-trip time.
\<close>

definition finish_poll ::
  "('u \<Rightarrow> bytes) \<Rightarrow> (nat \<Rightarrow> int) \<Rightarrow> int \<Rightarrow> ('a, 'u) PollingPacketConn \<Rightarrow> poll_result \<Rightarrow> ('a, 'u) PollingPacketConn run" where
  "finish_poll host ts start c result =
     run_bind
       (case result of
          PollError e \<Rightarrow>
            if is_quota_error e
            then (let (_, q) = quota_RecordQuotaError (quota c) (ts 1) (ts 2) (ts 3) (ts 4)
                  in run_bind (rotor_RecordQuotaError host (rotor c) (ts 5) (ts 6)) (\<lambda>r.
                     Return (c\<lparr>quota := q, rotor := r\<rparr>)))
            else
              Return (c\<lparr>rateLimit := MultiplicativeDecrease (rateLimit c) (ts 1) requestsPerSecondMulDec,
                        adaptive := adaptive_RecordError (adaptive c) (ts 2) (ts 3)\<rparr>)
        | PollBody body \<Rightarrow>
            (let (c, n, e) = processIncoming c body;
                 rtt = timeSub (ts 0) start
             in if e \<noteq> None
                then Return (c\<lparr>adaptive := adaptive_RecordError (adaptive c) (ts 1) (ts 2)\<rparr>)
                else
                  (let c = c\<lparr>quota := quota_RecordSuccess (quota c) (ts 1)\<rparr>
                   in run_bind (rotor_RecordSuccess (rotor c)) (\<lambda>r.
                      Return (c\<lparr>rotor := r,
                                adaptive := adaptive_RecordSuccess (adaptive c) (of_nat n) rtt (ts 2) (ts 3)\<rparr>)))))
       (\<lambda>c. Return (semRelease c))"

section \<open>Executions\<close>

text \<open>
  The loop, the payload between its two halves, and the payloads of the polls in flight. An iteration of a loop
  whose context is cancelled already finds it cancelled in its first \<^verbatim>\<open>select\<close>. The manager and the rotor are shared
  with the connections of earlier sessions, whose last polls may still change them, and the status page asks for
  the mode at any time.
\<close>

record ('a, 'u) pollWorld =
  loop :: "('a, 'u) PollingPacketConn"
  gathered :: "bytes option"
  flights :: "bytes list"
  running :: bool

definition poll_start :: "('a, 'u) PollingPacketConn \<Rightarrow> ('a, 'u) pollWorld" where
  "poll_start c = \<lparr>loop = c, gathered = None, flights = [], running = True\<rparr>"

inductive poll_step :: "('u \<Rightarrow> bytes) \<Rightarrow> ('a, 'u) pollWorld \<Rightarrow> ('a, 'u) pollWorld \<Rightarrow> bool" for host where
  gathers: "running w \<Longrightarrow> gathered w = None \<Longrightarrow> (ctxDone (loop w) \<longrightarrow> cancelled 0) \<Longrightarrow>
            gather cancelled sch envs (loop w) = Return (c, Some payload) \<Longrightarrow>
            poll_step host w (w\<lparr>loop := c, gathered := Some payload\<rparr>)"
| stops: "running w \<Longrightarrow> gathered w = None \<Longrightarrow> (ctxDone (loop w) \<longrightarrow> cancelled 0) \<Longrightarrow>
          gather cancelled sch envs (loop w) = Return (c, None) \<Longrightarrow>
          poll_step host w (w\<lparr>loop := c, running := False\<rparr>)"
| dispatches: "gathered w = Some payload \<Longrightarrow> dispatch (loop w) payload now t1 t2 = (c, Some snap) \<Longrightarrow>
          poll_step host w (w\<lparr>loop := c, gathered := None, flights := snap # flights w\<rparr>)"
| skips: "gathered w = Some payload \<Longrightarrow> dispatch (loop w) payload now t1 t2 = (c, None) \<Longrightarrow>
          poll_step host w (w\<lparr>loop := c, gathered := None\<rparr>)"
| finishes: "i < length (flights w) \<Longrightarrow> finish_poll host ts start (loop w) result = Return c \<Longrightarrow>
          poll_step host w (w\<lparr>loop := c, flights := take i (flights w) @ drop (Suc i) (flights w)\<rparr>)"
| packets: "conn_run (pconn (loop w)) ops = Return (pc, xs) \<Longrightarrow> poll_step host w (w\<lparr>loop := (loop w)\<lparr>pconn := pc\<rparr>\<rparr>)"
| shared: "rotor_ok r \<Longrightarrow> poll_step host w (w\<lparr>loop := (loop w)\<lparr>quota := q, rotor := r\<rparr>\<rparr>)"
| closes: "poll_Close (loop w) = Return (c, e) \<Longrightarrow> poll_step host w (w\<lparr>loop := c\<rparr>)"

section \<open>Invariant\<close>

definition poll_ok :: "('a, 'u) PollingPacketConn \<Rightarrow> bool" where
  "poll_ok c \<longleftrightarrow> adaptive_ok (adaptive c) \<and> rotor_ok (rotor c) \<and> conn_ok (pconn c) \<and> limiter_ok (rateLimit c) \<and>
     initPollDelay \<le> pollDelay c \<and> pollDelay c \<le> maxPollDelay"

definition world_ok :: "('a, 'u) pollWorld \<Rightarrow> bool" where
  "world_ok w \<longleftrightarrow> poll_ok (loop w) \<and> semCur (loop w) = int (length (flights w)) \<and> semCur (loop w) \<le> 4"

lemma nextPollDelay_bounds:
  assumes "initPollDelay \<le> d" "d \<le> maxPollDelay"
  shows "initPollDelay \<le> nextPollDelay d b \<and> nextPollDelay d b \<le> maxPollDelay"
proof -
  have c: "0 \<le> d" "\<bar>d\<bar> < 2 ^ 53" using assms by (simp_all add: initPollDelay_def maxPollDelay_def second_def)
  then have f: "float_of_int d = of_int d" by (simp add: float_of_int_def rnd_of_int)
  have "of_int d \<le> (of_int d :: rat) * (3 / 2)" using c(1) by simp
  from rnd_mono [OF this] have "of_int d \<le> fmul (float_of_int d) pollDelayMultiplier"
    using rnd_of_int [OF c(2)] by (simp add: fmul_def f pollDelayMultiplier_def)
  from int_of_float_mono [OF this] have "d \<le> int_of_float (fmul (float_of_int d) pollDelayMultiplier)"
    using c(1) by (simp add: int_of_float_def)
  then show ?thesis
    using assms by (auto simp: nextPollDelay_def Let_def initPollDelay_def maxPollDelay_def second_def)
qed

lemma fill_payload_ok: "conn_ok c \<Longrightarrow> \<exists>c' payload' p'. fill_payload envs m out c payload p first = Return (c', payload', p') \<and> conn_ok c'"
proof (induction envs m out c payload p first rule: fill_payload.induct)
  case (1 envs m out c payload p first)
  show ?case
  proof (cases "length p > 0 \<and> (first \<or> int (length payload) + int (length p) \<le> m)")
    case False
    then show ?thesis using 1(3) by (subst fill_payload.simps) auto
  next
    case True
    show ?thesis
    proof (cases envs)
      case Nil
      obtain c' x where r: "conn_recv c out = (c', x)" by force
      then have "conn_ok c'" using conn_recv_ok [OF 1(3)] by blast
      then show ?thesis using 1(1) [OF True refl Nil r [symmetric]] True Nil r by (subst fill_payload.simps) (cases x; auto)
    next
      case (Cons ops envs')
      obtain c1 xs where c1: "conn_run c ops = Return (c1, xs)" "conn_ok c1" using conn_run_ok [OF 1(3)] by blast
      obtain c' x where r: "conn_recv c1 out = (c', x)" by force
      then have "conn_ok c'" using conn_recv_ok [OF c1(2)] by blast
      then show ?thesis using 1(2) [OF True refl Cons c1(1) refl r [symmetric]] True Cons c1 r by (subst fill_payload.simps) (cases x; auto)
    qed
  qed
qed

lemma select_packet_ok:
  assumes "conn_ok c"
  obtains c' sel where "select_packet cancelled sch c us out = Return (c', sel)" "conn_ok c'"
proof -
  obtain c1 where c1: "interfere sch 2 c = Return c1" "conn_ok c1" by (rule interfere_ok [OF assms])
  obtain c2 where c2: "interfere sch 3 c1 = Return c2" "conn_ok c2" by (rule interfere_ok [OF c1(2)])
  obtain c3 where c3: "interfere sch 4 c2 = Return c3" "conn_ok c3" by (rule interfere_ok [OF c2(2)])
  have "\<exists>c' sel. select_packet cancelled sch c us out = Return (c', sel) \<and> conn_ok c'"
    using assms c1 c2 c3 recv_case_ok [OF c1(2), of us] recv_either_ok [OF c2(2), of "pick sch 2" us out]
      recv_either_ok [OF c3(2), of "pick sch 5" us out]
    by (auto simp: select_packet_def split: option.splits)
  then show ?thesis using that by blast
qed

lemma gather_ok:
  assumes "poll_ok c"
  obtains c' r where "gather cancelled sch envs c = Return (c', r)" "poll_ok c'" "semCur c' = semCur c"
proof -
  have ok: "conn_ok (pconn c)" using assms by (simp add: poll_ok_def)
  let ?a = "remoteAddr c"
  obtain c1 where c1: "interfere sch 0 (pconn c) = Return c1" "conn_ok c1" by (rule interfere_ok [OF ok])
  obtain c2 us where c2: "ConnUnstash c1 ?a (clock sch 0) = Return (c2, us)" "conn_ok c2" by (rule ConnUnstash_ok [OF c1(2)])
  obtain c3 where c3: "interfere sch 1 c2 = Return c3" "conn_ok c3" by (rule interfere_ok [OF c2(2)])
  obtain c4 out where c4: "OutgoingQueue c3 ?a (clock sch 1) = Return (c4, out)" "conn_ok c4" by (rule OutgoingQueue_ok [OF c3(2)])
  obtain c5 sel where c5: "select_packet cancelled sch c4 us out = Return (c5, sel)" "conn_ok c5" by (rule select_packet_ok [OF c4(2)])
  let ?m = "MaxPayload (adaptive c)" and ?p = "case sel of Packet p \<Rightarrow> p | _ \<Rightarrow> []"
  obtain c6 payload p where c6: "fill_payload envs ?m out c5 (clientID c) ?p True = Return (c6, payload, p)" "conn_ok c6"
    using fill_payload_ok [OF c5(2), of envs ?m out "clientID c" ?p True] by blast
  obtain c7 where c7: "interfere sch 5 c6 = Return c7" "conn_ok c7" by (rule interfere_ok [OF c6(2)])
  obtain c8 b where c8: "ConnStash c7 p ?a (clock sch 2) = Return (c8, b)" "conn_ok c8" by (rule ConnStash_ok [OF c7(2)])
  have "\<exists>c' r. gather cancelled sch envs c = Return (c', r) \<and> poll_ok c' \<and> semCur c' = semCur c"
    using assms c1 c2 c3 c4 c5 c6 c7 c8 nextPollDelay_bounds [of "pollDelay c"]
    by (auto simp: gather_def Let_def GetParams_def poll_ok_def)
  then show ?thesis using that by blast
qed

lemma SetRate_ok: "limiter_ok rl \<Longrightarrow> limiter_ok (SetRate rl r)"
  using limiter_do_ok [of rl "UseSetRate r"] by simp

lemma rate_control_ok: "poll_ok c \<Longrightarrow> poll_ok (rate_control c t)"
  by (auto simp: rate_control_def Let_def poll_ok_def storeRate_def SetRate_ok split: prod.splits)

lemma rate_control_keeps [simp]: "semCur (rate_control c t) = semCur c"
  by (auto simp: rate_control_def Let_def storeRate_def split: prod.splits)

lemma semAcquire_keeps:
  assumes "semAcquire c t = (b, c')"
  shows "adaptive c' = adaptive c" "rotor c' = rotor c" "pconn c' = pconn c" "rateLimit c' = rateLimit c" "pollDelay c' = pollDelay c"
    "semCur c' = (if b then semCur c + 1 else semCur c)"
  using assms by (auto simp: semAcquire_def Let_def split: prod.splits if_splits)

lemma semAcquire_bound:
  assumes "semAcquire c t = (True, c')" and "adaptive_ok (adaptive c)"
  shows "semCur c' \<le> 4"
  using assms by (auto simp: semAcquire_def Let_def GetParams_def adaptive_ok_def adp_consts split: prod.splits if_splits)

lemma dispatch_ok:
  assumes "poll_ok c" and "dispatch c payload now t1 t2 = (c', r)" and "semCur c \<le> 4"
  shows "poll_ok c'" "semCur c' = (if r = None then semCur c else semCur c + 1)" "semCur c' \<le> 4" "r = None \<or> r = Some payload"
proof -
  let ?c1 = "rate_control c t1"
  obtain limited wait rl where l: "IsLimited (rateLimit ?c1) now = (limited, wait, rl)" by (cases "IsLimited (rateLimit ?c1) now") auto
  let ?c2 = "?c1\<lparr>rateLimit := rl\<rparr>"
  have c1: "poll_ok ?c1" using rate_control_ok [OF assms(1)] .
  then have lim: "limiter_ok (rateLimit ?c1)" by (simp add: poll_ok_def)
  have rl: "limiter_ok rl" using limiter_do_ok [OF lim, of "UseTest now"] l by simp
  have c2: "poll_ok ?c2" using c1 rl by (simp add: poll_ok_def)
  obtain b c3 where s: "semAcquire ?c2 t2 = (b, c3)" by force
  note k = semAcquire_keeps [OF s]
  have "limiter_ok (Take rl now 1)" if "\<not> limited" using limiter_do_ok [OF lim, of "UseTake now"] l that by simp
  moreover have "semCur c3 \<le> 4" if b using semAcquire_bound [of ?c2 t2 c3] s that c2 by (simp add: poll_ok_def)
  ultimately show "poll_ok c'" "semCur c' = (if r = None then semCur c else semCur c + 1)" "semCur c' \<le> 4" "r = None \<or> r = Some payload"
    using assms(2,3) l s k c2 by (auto simp: dispatch_def Let_def poll_ok_def split: if_splits)
qed

lemma adaptive_calls_ok:
  "adaptive_ok a \<Longrightarrow> adaptive_ok (adaptive_RecordError a t1 t2)" "adaptive_ok a \<Longrightarrow> adaptive_ok (adaptive_RecordSuccess a n rtt t1 t2)"
  using adaptive_do_ok [of a "CallError t1 t2"] adaptive_do_ok [of a "CallSuccess n rtt t1 t2"] by simp_all

lemma processIncoming_ok:
  assumes "poll_ok c" and "processIncoming c body = (c', n, e)"
  shows "poll_ok c'" "semCur c' = semCur c" "rotor c' = rotor c" "adaptive c' = adaptive c"
proof -
  have "conn_ok d \<Longrightarrow> conn_ok (foldl (\<lambda>pc p. QueueIncoming pc p a) d ps)" for d a ps
    by (induction ps arbitrary: d) (simp_all add: QueueIncoming_ok)
  then show "poll_ok c'" "semCur c' = semCur c" "rotor c' = rotor c" "adaptive c' = adaptive c"
    using assms by (auto simp: processIncoming_def Let_def poll_ok_def split: prod.splits)
qed

lemma finish_poll_ok:
  assumes "poll_ok c"
  obtains c' where "finish_poll host ts start c result = Return c'" "poll_ok c'" "semCur c' = semCur c - 1"
proof (cases result)
  case (PollError e)
  have "rotor_ok (rotor c)" using assms by (simp add: poll_ok_def)
  then obtain r where r: "rotor_RecordQuotaError host (rotor c) (ts 5) (ts 6) = Return r" "rotor_ok r"
    using rotor_RecordQuotaError_ok [of "rotor c" host "ts 5" "ts 6"] by blast
  obtain b q where q: "quota_RecordQuotaError (quota c) (ts 1) (ts 2) (ts 3) (ts 4) = (b, q)" by force
  have "limiter_ok (MultiplicativeDecrease (rateLimit c) (ts 1) requestsPerSecondMulDec)"
    using limiter_do_ok [of "rateLimit c" "UseDecrease (ts 1)"] assms by (simp add: poll_ok_def)
  then show ?thesis
    using assms r q PollError adaptive_calls_ok(1) that
    by (cases "is_quota_error e") (auto simp: finish_poll_def semRelease_def poll_ok_def)
next
  case (PollBody body)
  obtain c1 n e where p: "processIncoming c body = (c1, n, e)" by (cases "processIncoming c body") auto
  note k = processIncoming_ok [OF assms p]
  obtain r where r: "rotor_RecordSuccess (rotor c1) = Return r" "rotor_ok r"
    using rotor_RecordSuccess_ok [of "rotor c1"] k by (auto simp: poll_ok_def)
  show ?thesis
    using k r PollBody p adaptive_calls_ok that by (cases e) (auto simp: finish_poll_def semRelease_def poll_ok_def)
qed

lemma poll_Close_ok:
  assumes "poll_ok c"
  obtains c' e where "poll_Close c = Return (c', e)" "poll_ok c'" "semCur c' = semCur c" "ctxDone c'" "queuePacketConn.closed (pconn c')"
proof -
  have c: "conn_ok (pconn c)" using assms by (simp add: poll_ok_def)
  obtain pc e where "Close (pconn c) = Return (pc, e)" "conn_ok pc" "queuePacketConn.closed pc" by (rule Close_closed [OF c])
  then show ?thesis using assms by (intro that [of "c\<lparr>ctxDone := True, pconn := pc\<rparr>" e]) (simp_all add: poll_Close_def poll_ok_def)
qed

lemma poll_step_ok:
  assumes "poll_step host w w'" and "world_ok w"
  shows "world_ok w'"
proof -
  have ok: "poll_ok (loop w)" "semCur (loop w) = int (length (flights w))" "semCur (loop w) \<le> 4" using assms(2) by (simp_all add: world_ok_def)
  from assms(1) show ?thesis
  proof (cases rule: poll_step.cases)
    case (gathers cancelled sch envs c payload)
    obtain c1 r where g: "gather cancelled sch envs (loop w) = Return (c1, r)" "poll_ok c1" "semCur c1 = semCur (loop w)"
      by (rule gather_ok [OF ok(1)])
    have "c = c1" using g(1) gathers(5) by simp
    then show ?thesis unfolding gathers(1) world_ok_def using g(2,3) ok by simp
  next
    case (stops cancelled sch envs c)
    obtain c1 r where g: "gather cancelled sch envs (loop w) = Return (c1, r)" "poll_ok c1" "semCur c1 = semCur (loop w)"
      by (rule gather_ok [OF ok(1)])
    have "c = c1" using g(1) stops(5) by simp
    then show ?thesis unfolding stops(1) world_ok_def using g(2,3) ok by simp
  next
    case (dispatches payload now t1 t2 c snap)
    then show ?thesis using ok dispatch_ok [OF ok(1) dispatches(3) ok(3)] by (simp add: world_ok_def)
  next
    case (skips payload now t1 t2 c)
    then show ?thesis using ok dispatch_ok [OF ok(1) skips(3) ok(3)] by (simp add: world_ok_def)
  next
    case (finishes i ts start result c)
    obtain c1 where f: "finish_poll host ts start (loop w) result = Return c1" "poll_ok c1" "semCur c1 = semCur (loop w) - 1"
      by (rule finish_poll_ok [OF ok(1)])
    have "c = c1" using f(1) finishes(3) by simp
    then show ?thesis unfolding finishes(1) world_ok_def using f(2,3) ok finishes(2) by simp
  next
    case (packets ops pc xs)
    have "conn_ok (pconn (loop w))" using ok(1) by (simp add: poll_ok_def)
    from conn_run_ok [OF this, of ops] packets(2) have "conn_ok pc" by auto
    then show ?thesis using ok packets(1) by (simp add: world_ok_def poll_ok_def)
  next
    case (shared r q)
    then show ?thesis using ok by (simp add: world_ok_def poll_ok_def)
  next
    case (closes c e)
    obtain c1 e1 where f: "poll_Close (loop w) = Return (c1, e1)" "poll_ok c1" "semCur c1 = semCur (loop w)"
      by (rule poll_Close_ok [OF ok(1)])
    have "c = c1" using f(1) closes(2) by simp
    then show ?thesis unfolding closes(1) world_ok_def using f(2,3) ok by simp
  qed
qed

interpretation polls: step_invariant "poll_step host" world_ok for host
  by unfold_locales (rule poll_step_ok)

lemma poll_reachable_ok:
  assumes "rotor_ok r" and "(poll_step host)\<^sup>*\<^sup>* (poll_start (NewPollingPacketConn remote cid q r t1 t2 localA)) w"
  shows "world_ok w"
  using assms(2)
proof (rule polls.reachable_inv)
  have "limiter_ok (poll_limiter t2 [])" by (rule poll_limiter_ok)
  then show "world_ok (poll_start (NewPollingPacketConn remote cid q r t1 t2 localA))"
    using assms(1) NewAdaptiveController_ok NewQueuePacketConn_ok
    by (simp add: world_ok_def poll_start_def poll_ok_def NewPollingPacketConn_def poll_limiter_def initPollDelay_def maxPollDelay_def second_def)
qed

text \<open>
  C12: Throughout the life of a polling connection, whatever the server and the cache answer, in
  whatever order polls finish: the semaphore counts exactly the polls in flight, of which there are
  never more than four; the poll rate stays between 2 and 12 per second; the idle delay stays between
  0.3 and 5 seconds; and neither the loop nor a poll that finishes can panic.
\<close>

theorem polling_invariant:
  assumes "(poll_step host)\<^sup>*\<^sup>* (poll_start (NewPollingPacketConn remote cid q (NewCacheRotor parse urls) t1 t2 localA)) w"
  shows "semCur (loop w) = int (length (flights w)) \<and> length (flights w) \<le> 4 \<and>
    2 \<le> GetRate (rateLimit (loop w)) \<and> GetRate (rateLimit (loop w)) \<le> 12 \<and>
    300000000 \<le> pollDelay (loop w) \<and> pollDelay (loop w) \<le> 5 * second \<and>
    (\<exists>x. gather cancelled sch envs (loop w) = Return x) \<and> (\<exists>x. finish_poll host ts start (loop w) result = Return x)"
proof -
  have "world_ok w" by (rule poll_reachable_ok [OF NewCacheRotor_ok assms])
  then have ok: "poll_ok (loop w)" "semCur (loop w) = int (length (flights w))" "semCur (loop w) \<le> 4" by (simp_all add: world_ok_def)
  have "\<exists>x. gather cancelled sch envs (loop w) = Return x" by (rule gather_ok [OF ok(1)]) blast
  moreover have "\<exists>x. finish_poll host ts start (loop w) result = Return x" by (rule finish_poll_ok [OF ok(1)]) blast
  ultimately show ?thesis
    using ok by (simp add: poll_ok_def limiter_ok_def GetRate_def initPollDelay_def maxPollDelay_def)
qed

section \<open>Closing\<close>

lemma gather_ctx:
  assumes "gather cancelled sch envs c = Return (c', r)"
  shows "ctxDone c' = ctxDone c" and "cancelled 0 \<Longrightarrow> r = None"
proof -
  show "ctxDone c' = ctxDone c" using assms by (auto simp: gather_def run_bind_Return Let_def split: prod.splits if_splits)
  have "cancelled 0 \<Longrightarrow> select_packet cancelled sch pc us out = Return (pc, Cancelled)" for pc us out by (simp add: select_packet_def)
  then show "cancelled 0 \<Longrightarrow> r = None" using assms by (auto simp: gather_def run_bind_Return Let_def split: prod.splits)
qed

lemma dispatch_ctx: "dispatch c payload now t1 t2 = (c', r) \<Longrightarrow> ctxDone c' = ctxDone c"
  by (auto simp: dispatch_def rate_control_def storeRate_def semAcquire_def Let_def split: prod.splits if_splits)

lemma finish_poll_ctx: "finish_poll host ts start c result = Return c' \<Longrightarrow> ctxDone c' = ctxDone c"
  by (auto simp: finish_poll_def run_bind_Return semRelease_def processIncoming_def Let_def split: prod.splits if_splits poll_result.splits)

text \<open>Polls that are or may still be started: those in flight, and the one of a payload that is already gathered.\<close>

definition pending :: "('a, 'u) pollWorld \<Rightarrow> nat" where
  "pending w = length (flights w) + (if gathered w = None then 0 else 1)"

lemma poll_step_closed:
  assumes "poll_step host w w'" and "ctxDone (loop w)"
  shows "ctxDone (loop w') \<and> pending w' \<le> pending w"
  using assms
proof (cases rule: poll_step.cases)
  case (closes c e)
  then show ?thesis by (auto simp: poll_Close_def run_bind_Return pending_def)
qed (auto simp: pending_def dest: gather_ctx dispatch_ctx finish_poll_ctx)

interpretation closing: step_bounded "poll_step host" "\<lambda>w. ctxDone (loop w)" pending for host
  by unfold_locales (auto dest: poll_step_closed)

text \<open>
  C13: Closing a polling connection ends its polling. From then on the loop gathers no payload any more: whatever happens
  later, the polls in flight are at most those that were in flight when it was closed and the one whose payload the loop had
  already gathered; and the next iteration of the loop is its last.
\<close>

theorem closed_stops_polling:
  assumes "poll_ok (loop w)" and "poll_Close (loop w) = Return (c, e)" and "(poll_step host)\<^sup>*\<^sup>* (w\<lparr>loop := c\<rparr>) w'"
  shows "queuePacketConn.closed (pconn c) \<and> length (flights w') \<le> length (flights w) + (if gathered w = None then 0 else 1) \<and>
    (\<forall>cancelled sch envs c' r. cancelled 0 = ctxDone (loop w') \<longrightarrow> gather cancelled sch envs (loop w') = Return (c', r) \<longrightarrow> r = None)"
proof -
  obtain c1 e1 where "poll_Close (loop w) = Return (c1, e1)" "ctxDone c1" "queuePacketConn.closed (pconn c1)" by (rule poll_Close_ok [OF assms(1)])
  then have c: "ctxDone c" "queuePacketConn.closed (pconn c)" using assms(2) by simp_all
  have "ctxDone (loop w') \<and> pending w' \<le> pending (w\<lparr>loop := c\<rparr>)"
    using closing.reachable_inv [OF assms(3)] closing.reachable_count [OF assms(3)] c(1) by simp
  then show ?thesis using c(2) gather_ctx(2) by (fastforce simp: pending_def split: if_splits)
qed

section \<open>What goes into a payload\<close>

text \<open>
  The packets of a payload, the one that is stashed and those that stay queued, from the list of the
  packets that wait; \<open>n\<close> is the length of the payload so far.
\<close>

fun filled :: "int \<Rightarrow> nat \<Rightarrow> bool \<Rightarrow> bytes list \<Rightarrow> bytes list \<times> bytes list \<times> bytes list" where
  "filled m n first [] = ([], [], [])"
| "filled m n first (p # ps) =
     (if p = [] then ([], [], ps)
      else if \<not> first \<and> m < int n + int (length p) then ([], [p], ps)
      else (let (taken, held, rest) = filled m (n + length (data_chunk p)) False ps in (p # taken, held, rest)))"

lemma WriteData_buffer: "length p < 2 ^ 20 \<Longrightarrow> fst (WriteData buffer_Write b p) = b @ data_chunk p"
  using buffer.WriteData_succeeds [of p b] by auto

lemma conn_recv_queue:
  assumes "conn_ok c" and "refs_of c a us out"
  obtains (empty) x where "outgoing c a = []" "conn_recv c out = (c, x)" "\<And>p. x \<noteq> Got p"
  | (packet) c' p ps where "outgoing c a = p # ps" "conn_recv c out = (c', Got p)" "conn_ok c'" "refs_of c' a us out"
      "outgoing c' = (outgoing c)(a := ps)" "stashed c' = stashed c" "recvQueue c' = recvQueue c"
proof -
  obtain r where r: "peers (remotes c) a = Some r" "rSendQueue r = out" using assms(2) by (auto simp: refs_of_def)
  have v: "live (chans (remotes c)) out queueSize" using peers_live(1) [OF _ r(1)] assms(1) r(2) by (simp add: conn_ok_def)
  show ?thesis
  proof (cases "outgoing c a")
    case Nil
    then have "conn_recv c out = (c, WouldBlock)"
      using r v by (simp add: conn_recv_def try_recv_def outgoing_def live_def)
    then show ?thesis using Nil by (intro empty [of WouldBlock]) simp_all
  next
    case (Cons p ps)
    obtain c' where c': "recv_case c out = Some (c', p)" "conn_ok c'" "outgoing c' = (outgoing c)(a := ps)"
      "stashed c' = stashed c" "recvQueue c' = recvQueue c" "refs_of c' a us out"
      by (rule take_queued [OF assms Cons])
    have "ch_buf (chans (remotes c) ! out) = p # ps" using Cons r by (simp add: outgoing_def)
    then have "conn_recv c out = (c', Got p)"
      using c'(1) v by (auto simp: recv_case_def conn_recv_def try_recv_def live_def)
    then show ?thesis using Cons c' by (intro packet [of p ps c'])
  qed
qed

text \<open>A packet that does not fit, or an empty one, ends the filling; one that fits is written, and the next one is taken from the queue.\<close>

lemma fill_payload_stops:
  assumes "p = [] \<or> \<not> first \<and> m < int (length payload) + int (length p)" and "outgoing c a = ps"
    and "filled m (length payload) first (p # ps) = (taken, held, rest)"
  shows "fill_payload [] m out c payload p first = Return (c, payload @ concat (map data_chunk taken), concat held)"
    and "(outgoing c)(a := rest) = outgoing c"
proof -
  have "taken = []" "concat held = p" "rest = ps" using assms(1,3) by (auto split: if_splits)
  moreover have "fill_payload [] m out c payload p first = Return (c, payload, p)" using assms(1) by (subst fill_payload.simps) auto
  ultimately show "fill_payload [] m out c payload p first = Return (c, payload @ concat (map data_chunk taken), concat held)"
    "(outgoing c)(a := rest) = outgoing c" using assms(2) by (simp_all add: fun_upd_idem)
qed

lemma filled_takes:
  assumes "p \<noteq> []" and "\<not> (\<not> first \<and> m < int n + int (length p))" and "filled m n first (p # ps) = (taken, held, rest)"
  obtains taken1 where "filled m (n + length (data_chunk p)) False ps = (taken1, held, rest)" "taken = p # taken1"
  using assms by (cases "filled m (n + length (data_chunk p)) False ps") auto

lemma fill_payload_quiet:
  assumes "conn_ok c" and "refs_of c a us out" and "outgoing c a = ps" and "\<forall>q \<in> set (p # ps). length q < 2 ^ 20"
    and "filled m (length payload) first (p # ps) = (taken, held, rest)"
  shows "\<exists>c'. fill_payload [] m out c payload p first = Return (c', payload @ concat (map data_chunk taken), concat held) \<and>
    conn_ok c' \<and> outgoing c' = (outgoing c)(a := rest) \<and> stashed c' = stashed c \<and> recvQueue c' = recvQueue c"
  using assms
proof (induction ps arbitrary: c p payload first taken)
  case Nil
  show ?case
  proof (cases "p = [] \<or> \<not> first \<and> m < int (length payload) + int (length p)")
    case True
    from fill_payload_stops [OF this Nil.prems(3,5)] show ?thesis using Nil.prems(1) by simp
  next
    case False
    obtain x where x: "conn_recv c out = (c, x)" "\<And>p. x \<noteq> Got p"
      by (rule conn_recv_queue [OF Nil.prems(1,2)]) (use Nil.prems(3) in simp_all)
    have e: "taken = [p]" "held = []" "rest = []" using False Nil.prems(5) by auto
    have "fill_payload [] m out c payload p first = Return (c, payload @ data_chunk p, [])"
      using False x Nil.prems(4) by (subst fill_payload.simps) (cases x; auto simp: WriteData_buffer Let_def)
    then show ?thesis using e Nil.prems(1,3) by (simp add: fun_upd_idem)
  qed
next
  case (Cons q ps)
  show ?case
  proof (cases "p = [] \<or> \<not> first \<and> m < int (length payload) + int (length p)")
    case True
    from fill_payload_stops [OF this Cons.prems(3,5)] show ?thesis using Cons.prems(1) by simp
  next
    case False
    obtain c1 where c1: "conn_recv c out = (c1, Got q)" "conn_ok c1" "refs_of c1 a us out"
      "outgoing c1 = (outgoing c)(a := ps)" "stashed c1 = stashed c" "recvQueue c1 = recvQueue c"
      by (rule conn_recv_queue [OF Cons.prems(1,2)]) (use Cons.prems(3) in auto)
    obtain taken1 where t1: "filled m (length (payload @ data_chunk p)) False (q # ps) = (taken1, held, rest)" "taken = p # taken1"
      by (rule filled_takes [OF _ _ Cons.prems(5)]) (use False in \<open>auto simp del: filled.simps\<close>)
    have "outgoing c1 a = ps" "\<forall>x \<in> set (q # ps). length x < 2 ^ 20" using Cons.prems(4) c1(4) by simp_all
    from Cons.IH [OF c1(2,3) this t1(1)] obtain c' where c': "fill_payload [] m out c1 (payload @ data_chunk p) q False =
        Return (c', (payload @ data_chunk p) @ concat (map data_chunk taken1), concat held)"
        "conn_ok c'" "outgoing c' = (outgoing c1)(a := rest)" "stashed c' = stashed c1" "recvQueue c' = recvQueue c1" by blast
    have "fill_payload [] m out c payload p first = fill_payload [] m out c1 (payload @ data_chunk p) q False"
      using False c1(1) Cons.prems(4) by (subst fill_payload.simps) (auto simp: WriteData_buffer)
    then show ?thesis using c' c1 t1(2) by auto
  qed
qed

lemma select_none:
  assumes "quiet sch" and "\<forall>k. \<not> cancelled k" and "conn_ok c" and "refs_of c a us out"
    and "stashed c a @ outgoing c a = []"
  shows "select_packet cancelled sch c us out = Return (c, TimerFired)"
  using assms recv_case_stash [OF assms(3,4)] recv_case_queue [OF assms(3,4)]
  by (simp add: select_packet_def recv_either_def Let_def)

lemma select_first:
  assumes "quiet sch" and "\<forall>k. \<not> cancelled k" and "conn_ok c" and "refs_of c a us out"
    and "stashed c a @ outgoing c a = p # ps"
  obtains c' where "select_packet cancelled sch c us out = Return (c', Packet p)" "conn_ok c'" "refs_of c' a us out"
    "stashed c' = (stashed c)(a := [])" "outgoing c' = (outgoing c)(a := ps)" "recvQueue c' = recvQueue c"
proof (cases "stashed c a")
  case (Cons q qs)
  then have q: "qs = []" "q = p" "outgoing c a = ps" using stashed_one [OF assms(3), of a] assms(5) by auto
  obtain c' where "recv_case c us = Some (c', q)" "conn_ok c'" "stashed c' = (stashed c)(a := qs)"
    "outgoing c' = outgoing c" "recvQueue c' = recvQueue c" "refs_of c' a us out"
    by (rule take_stashed [OF assms(3,4) Cons])
  then show ?thesis using q assms(1,2) by (intro that [of c']) (auto simp: select_packet_def)
next
  case Nil
  then have n: "recv_case c us = None" using recv_case_stash [OF assms(3,4)] by simp
  have o: "outgoing c a = p # ps" using Nil assms(5) by simp
  obtain c' where "recv_case c out = Some (c', p)" "conn_ok c'" "outgoing c' = (outgoing c)(a := ps)"
    "stashed c' = stashed c" "recvQueue c' = recvQueue c" "refs_of c' a us out"
    by (rule take_queued [OF assms(3,4) o])
  then show ?thesis using n Nil assms(1,2) by (intro that [of c']) (auto simp: select_packet_def recv_either_def)
qed

lemma filled_held: "filled m n first ps = (taken, held, rest) \<Longrightarrow> held = [] \<or> (\<exists>p. held = [p] \<and> p \<noteq> [])"
  by (induction m n first ps arbitrary: taken rule: filled.induct) (auto simp: Let_def split: if_splits prod.splits)

lemma filled_subset: "filled m n first ps = (taken, held, rest) \<Longrightarrow> set taken \<subseteq> set ps"
  by (induction m n first ps arbitrary: taken rule: filled.induct) (auto simp: Let_def split: if_splits prod.splits)

lemma gather_payload:
  assumes "poll_ok c" and "quiet sch" and "\<forall>k. \<not> cancelled k"
    and "\<forall>p \<in> set (stashed (pconn c) (remoteAddr c) @ outgoing (pconn c) (remoteAddr c)). length p < 2 ^ 20"
    and "filled (MaxPayload (adaptive c)) (length (clientID c)) True
      (stashed (pconn c) (remoteAddr c) @ outgoing (pconn c) (remoteAddr c)) = (taken, held, rest)"
  shows "\<exists>c'. gather cancelled sch [] c = Return (c', Some (clientID c @ concat (map data_chunk taken))) \<and> poll_ok c' \<and>
    stashed (pconn c') = (stashed (pconn c))(remoteAddr c := held) \<and>
    outgoing (pconn c') = (outgoing (pconn c))(remoteAddr c := rest) \<and> recvQueue (pconn c') = recvQueue (pconn c)"
proof -
  let ?a = "remoteAddr c" and ?m = "MaxPayload (adaptive c)"
  have ok: "conn_ok (pconn c)" using assms(1) by (simp add: poll_ok_def)
  obtain c1 c2 us out where q: "ConnUnstash (pconn c) ?a (clock sch 0) = Return (c1, us)"
    "OutgoingQueue c1 ?a (clock sch 1) = Return (c2, out)" "conn_ok c2" "same_packets (pconn c) c2" "refs_of c2 ?a us out"
    by (rule both_queues [OF ok])
  have e: "stashed c2 = stashed (pconn c)" "outgoing c2 = outgoing (pconn c)" "recvQueue c2 = recvQueue (pconn c)"
    using q(4) by (simp_all add: same_packets_def)
  note delay = nextPollDelay_bounds [of "pollDelay c"]
  show ?thesis
  proof (cases "stashed c2 ?a @ outgoing c2 ?a")
    case Nil
    then have "taken = []" "held = []" "rest = []" "stashed (pconn c) ?a = []" "outgoing (pconn c) ?a = []" using assms(5) e by simp_all
    then show ?thesis
      using q(1-3) select_none [OF assms(2,3) q(3,5) Nil] assms(1,2) delay e
      by (simp add: gather_def GetParams_def Let_def fill_payload.simps poll_ok_def fun_upd_idem)
  next
    case (Cons p ps)
    obtain c3 where s: "select_packet cancelled sch c2 us out = Return (c3, Packet p)" "conn_ok c3" "refs_of c3 ?a us out"
      "stashed c3 = (stashed c2)(?a := [])" "outgoing c3 = (outgoing c2)(?a := ps)" "recvQueue c3 = recvQueue c2"
      by (rule select_first [OF assms(2,3) q(3,5) Cons])
    have w: "stashed (pconn c) ?a @ outgoing (pconn c) ?a = p # ps" using Cons e by simp
    have "\<exists>c'. fill_payload [] ?m out c3 (clientID c) p True = Return (c', clientID c @ concat (map data_chunk taken), concat held) \<and>
      conn_ok c' \<and> outgoing c' = (outgoing c3)(?a := rest) \<and> stashed c' = stashed c3 \<and> recvQueue c' = recvQueue c3"
      by (rule fill_payload_quiet [OF s(2,3), where ps = ps]) (use s(5) assms(4,5) [unfolded w] in simp_all)
    then obtain c4 where f: "fill_payload [] ?m out c3 (clientID c) p True = Return (c4, clientID c @ concat (map data_chunk taken), concat held)"
      "conn_ok c4" "outgoing c4 = (outgoing c3)(?a := rest)" "stashed c4 = stashed c3" "recvQueue c4 = recvQueue c3" by blast
    from filled_held [OF assms(5)] show ?thesis
    proof
      assume "held = []"
      then show ?thesis
        using q(1,2) s f assms(1,2) delay e by (simp add: gather_def GetParams_def Let_def poll_ok_def)
    next
      assume "\<exists>h. held = [h] \<and> h \<noteq> []"
      then obtain h where h: "held = [h]" "h \<noteq> []" by blast
      have "stashed c4 ?a = []" using f(4) s(4) by simp
      with f(2) obtain c5 where c5: "ConnStash c4 h ?a (clock sch 2) = Return (c5, True)" "conn_ok c5"
        "stashed c5 = (stashed c4)(?a := [h])" "outgoing c5 = outgoing c4" "recvQueue c5 = recvQueue c4" by (rule ConnStash_empty)
      then show ?thesis
        using q(1,2) s f h assms(1,2) delay e by (simp add: gather_def GetParams_def Let_def poll_ok_def)
    qed
  qed
qed

lemma filled_complete:
  assumes "[] \<notin> set ps" and "\<forall>p \<in> set ps. length p < 2 ^ 20" and "filled m n first ps = (taken, held, rest)"
  shows "ps = taken @ held @ rest \<and> (first \<and> ps \<noteq> [] \<longrightarrow> taken \<noteq> []) \<and>
    (length taken > (if first then 1 else 0) \<longrightarrow> int n + int (length (concat (map data_chunk taken))) \<le> m + 3)"
  using assms
proof (induction ps arbitrary: n first taken)
  case (Cons p ps)
  show ?case
  proof (cases "\<not> first \<and> m < int n + int (length p)")
    case True
    with Cons.prems show ?thesis by auto
  next
    case False
    then obtain taken1 where t: "filled m (n + length (data_chunk p)) False ps = (taken1, held, rest)" "taken = p # taken1"
      using Cons.prems by (auto simp: Let_def split: prod.splits)
    have "length (data_chunk p) \<le> length p + 3" using Cons.prems(2) data_chunk_length [of p] by simp
    with Cons.IH [OF _ _ t(1)] Cons.prems(1,2) t(2) False show ?thesis by (cases taken1) auto
  qed
qed simp

text \<open>
  What a poll sends. Undisturbed, an iteration of the poll loop builds a payload of the client's
  identifier and the encapsulation of the packets that wait for the server, the stashed one first, in their order; it
  always takes the first packet, and takes more only as long as they fit the adaptive payload size (up to the three bytes
  of the last prefix); the packet that did not fit is stashed, and the others stay queued.
\<close>

theorem gather_bundles:
  assumes "poll_ok c" and "quiet sch" and "\<forall>k. \<not> cancelled k"
    and "ps = stashed (pconn c) (remoteAddr c) @ outgoing (pconn c) (remoteAddr c)"
    and "\<forall>p \<in> set ps. p \<noteq> [] \<and> length p < 2 ^ 20"
  shows "\<exists>c' taken held rest payload. gather cancelled sch [] c = Return (c', Some payload) \<and>
    payload = clientID c @ concat (map data_chunk taken) \<and> ps = taken @ held @ rest \<and>
    stashed (pconn c') = (stashed (pconn c))(remoteAddr c := held) \<and>
    outgoing (pconn c') = (outgoing (pconn c))(remoteAddr c := rest) \<and>
    (ps \<noteq> [] \<longrightarrow> taken \<noteq> []) \<and> (length taken > 1 \<longrightarrow> int (length payload) \<le> MaxPayload (adaptive c) + 3)"
proof -
  obtain taken held rest where f: "filled (MaxPayload (adaptive c)) (length (clientID c)) True ps = (taken, held, rest)"
    by (cases "filled (MaxPayload (adaptive c)) (length (clientID c)) True ps") auto
  have l: "\<forall>p \<in> set ps. length p < 2 ^ 20" "[] \<notin> set ps" using assms(5) by auto
  from gather_payload [OF assms(1-3) l(1) [unfolded assms(4)] f [unfolded assms(4)]]
  obtain c' where g: "gather cancelled sch [] c = Return (c', Some (clientID c @ concat (map data_chunk taken)))" "poll_ok c'"
    "stashed (pconn c') = (stashed (pconn c))(remoteAddr c := held)"
    "outgoing (pconn c') = (outgoing (pconn c))(remoteAddr c := rest)" "recvQueue (pconn c') = recvQueue (pconn c)" by blast
  note t = filled_complete [OF l(2,1) f]
  show ?thesis
  proof (intro exI conjI)
    show "gather cancelled sch [] c = Return (c', Some (clientID c @ concat (map data_chunk taken)))" by (rule g(1))
    show "clientID c @ concat (map data_chunk taken) = clientID c @ concat (map data_chunk taken)" by (rule refl)
    show "ps = taken @ held @ rest" using t by blast
    show "stashed (pconn c') = (stashed (pconn c))(remoteAddr c := held)" by (rule g(3))
    show "outgoing (pconn c') = (outgoing (pconn c))(remoteAddr c := rest)" by (rule g(4))
    show "ps \<noteq> [] \<longrightarrow> taken \<noteq> []" using t by blast
    show "length taken > 1 \<longrightarrow> int (length (clientID c @ concat (map data_chunk taken))) \<le> MaxPayload (adaptive c) + 3"
      using t by simp
  qed
qed

section \<open>A connection to evaluate\<close>

definition sample_conn :: "(bytes, bytes) PollingPacketConn" where
  "sample_conn = NewPollingPacketConn (str ''server'') (replicate 8 7) NewQuotaManager (NewCacheRotor (\<lambda>_. Inr [1]) [str ''cache'']) 0 0 (replicate 8 7)"

lemma sample_conn_ok: "poll_ok sample_conn"
proof -
  have "limiter_ok (poll_limiter 0 [])" by (rule poll_limiter_ok)
  then show ?thesis
    by (simp add: NewAdaptiveController_ok NewQueuePacketConn_ok NewCacheRotor_ok sample_conn_def poll_ok_def NewPollingPacketConn_def poll_limiter_def initPollDelay_def maxPollDelay_def second_def)
qed

lemma sample_conn_simps [simp]:
  "remoteAddr sample_conn = str ''server''" "clientID sample_conn = replicate 8 7" "stashed (pconn sample_conn) x = []"
  "outgoing (pconn sample_conn) x = []" "semCur sample_conn = 0"
  by (simp_all add: sample_conn_def NewPollingPacketConn_def stashed_def outgoing_def NewQueuePacketConn_def peers_def NewRemoteMap_def)

definition sample_sched :: "bytes sched" where
  "sample_sched = \<lparr>others = (\<lambda>_. []), clock = (\<lambda>_. 1), pick = (\<lambda>_. True)\<rparr>"

lemma sample_sched_quiet [simp]: "quiet sample_sched"
  by (simp add: sample_sched_def quiet_def)

text \<open>The same connection with a packet that waits for the server.\<close>

lemma sample_waiting:
  obtains c :: "(bytes, bytes) PollingPacketConn" where "poll_ok c" "remoteAddr c = str ''server''" "clientID c = replicate 8 7" "adaptive c = adaptive sample_conn"
    "semCur c = 0" "stashed (pconn c) = (stashed (pconn sample_conn))(str ''server'' := [[1, 2]])" "outgoing (pconn c) = outgoing (pconn sample_conn)"
proof -
  have "conn_ok (pconn sample_conn)" using sample_conn_ok by (simp add: poll_ok_def)
  then obtain pc where "conn_ok pc" "stashed pc = (stashed (pconn sample_conn))(str ''server'' := [[1, 2]])"
    "outgoing pc = outgoing (pconn sample_conn)" by (rule ConnStash_empty [where a = "str ''server''" and p = "[1, 2]"]) simp_all
  then show ?thesis using sample_conn_ok by (intro that [of "sample_conn\<lparr>pconn := pc\<rparr>"]) (simp_all add: poll_ok_def)
qed

theorem polling_invariant_witness:
  "\<exists>w. (poll_step (\<lambda>_. []))\<^sup>*\<^sup>* (poll_start sample_conn) w \<and> gathered w = Some (replicate 8 7) \<and> length (flights w) \<le> 4"
proof -
  obtain c where "gather (\<lambda>_. False) sample_sched [] sample_conn = Return (c, Some (replicate 8 7 @ concat (map data_chunk [])))"
    using gather_payload [OF sample_conn_ok sample_sched_quiet, of "\<lambda>_. False" "[]" "[]" "[]"] by auto
  then have "poll_step (\<lambda>_. []) (poll_start sample_conn) ((poll_start sample_conn)\<lparr>loop := c, gathered := Some (replicate 8 7)\<rparr>)"
    by (intro poll_step.gathers [where cancelled = "\<lambda>_. False" and sch = sample_sched and envs = "[]"])
      (simp_all add: poll_start_def sample_conn_def NewPollingPacketConn_def)
  then obtain w where w: "(poll_step (\<lambda>_. []))\<^sup>*\<^sup>* (poll_start sample_conn) w" "gathered w = Some (replicate 8 7)"
    using that [OF r_into_rtranclp] by simp
  from polling_invariant [OF w(1) [unfolded sample_conn_def]] w show ?thesis by blast
qed

theorem closed_stops_polling_witness:
  "\<exists>c e. poll_Close sample_conn = Return (c, e) \<and> queuePacketConn.closed (pconn c)"
proof -
  obtain c e where c: "poll_Close sample_conn = Return (c, e)" by (rule poll_Close_ok [OF sample_conn_ok])
  from closed_stops_polling [where w = "poll_start sample_conn" and host = "\<lambda>_. []", OF _ _ rtranclp.rtrancl_refl] c sample_conn_ok
  show ?thesis by (force simp: poll_start_def)
qed

theorem gather_bundles_witness:
  "\<exists>(c :: (bytes, bytes) PollingPacketConn) c'. stashed (pconn c) (remoteAddr c) = [[1, 2]] \<and>
     gather (\<lambda>_. False) sample_sched [] c = Return (c', Some (replicate 8 7 @ data_chunk [1, 2])) \<and> stashed (pconn c') (remoteAddr c) = []"
proof -
  obtain c :: "(bytes, bytes) PollingPacketConn" where c: "poll_ok c" "remoteAddr c = str ''server''" "clientID c = replicate 8 7"
    "stashed (pconn c) = (stashed (pconn sample_conn))(str ''server'' := [[1, 2]])" "outgoing (pconn c) = outgoing (pconn sample_conn)"
    by (rule sample_waiting)
  have "\<exists>c' taken held rest payload. gather (\<lambda>_. False) sample_sched [] c = Return (c', Some payload) \<and>
    payload = clientID c @ concat (map data_chunk taken) \<and> [[1, 2]] = taken @ held @ rest \<and>
    stashed (pconn c') = (stashed (pconn c))(remoteAddr c := held) \<and>
    outgoing (pconn c') = (outgoing (pconn c))(remoteAddr c := rest) \<and>
    ([[1, 2 :: byte]] \<noteq> [] \<longrightarrow> taken \<noteq> []) \<and> (length taken > 1 \<longrightarrow> int (length payload) \<le> MaxPayload (adaptive c) + 3)"
    by (rule gather_bundles [OF c(1)]) (simp_all add: c)
  then obtain c' taken held rest payload where g: "gather (\<lambda>_. False) sample_sched [] c = Return (c', Some payload)"
    "[[1, 2]] = taken @ held @ rest" "[[1, 2 :: byte]] \<noteq> [] \<longrightarrow> taken \<noteq> []" "payload = clientID c @ concat (map data_chunk taken)"
    "stashed (pconn c') = (stashed (pconn c))(remoteAddr c := held)" by (elim exE conjE) (rule that)
  from g(2,3) have t: "taken = [[1, 2]]" "held = []" by (auto simp: Cons_eq_append_conv)
  have "stashed (pconn c) (remoteAddr c) = [[1, 2]]" "stashed (pconn c') (remoteAddr c) = []" using c(2,4) g(5) t by simp_all
  moreover have "payload = replicate 8 7 @ data_chunk [1, 2]" using g(4) t(1) c(3) by simp
  ultimately show ?thesis using g(1) by blast
qed

section \<open>The rate\<close>

lemma slowRate_bounds: "0 < quotaSlowRate" "quotaSlowRate < 2"
proof -
  have "rnd (7 / 100) \<le> 1" using rnd_mono [of "7 / 100" 1] rnd_of_int [of 1] by simp
  then show "quotaSlowRate < 2" by (simp add: quotaSlowRate_def)
  show "0 < quotaSlowRate" by (simp add: quotaSlowRate_def) code_simp
qed

text \<open>
  C14: The rate an iteration of the poll loop runs at. Out of slow mode it is the larger of the present rate and the adaptive
  target. In slow mode the loop asks for \<open>quotaSlowRate\<close>, one request in fourteen seconds, but
  \<open>SetRate\<close> clamps what it is given to the adaptive range: the rate in slow mode is 2 requests per second.
\<close>

theorem rate_control_rate:
  assumes "poll_ok c"
  shows "GetRate (rateLimit (rate_control c t)) =
      (if fst (IsSlowMode (quota c) t) then 2 else max (GetRate (rateLimit c)) (TargetRate (adaptive c))) \<and>
    CurrentRate (rate_control c t) = GetRate (rateLimit (rate_control c t)) \<and>
    quotaSlowRate < GetRate (rateLimit (rate_control c t))"
proof -
  have "2 \<le> rl_rate (rateLimit c)" "2 \<le> TargetRate (adaptive c)" "TargetRate (adaptive c) \<le> 8"
    using assms by (simp_all add: poll_ok_def limiter_ok_def adaptive_ok_def adp_consts)
  then show ?thesis using slowRate_bounds
    by (cases "IsSlowMode (quota c) t")
      (auto simp: rate_control_def Let_def GetParams_def GetRate_def SetRate_def clampFloat_def adp_consts storeRate_def
        CurrentRate_def minAlwaysRate_def max_def)
qed

theorem rate_control_rate_witness:
  "GetRate (rateLimit (rate_control (sample_conn\<lparr>quota := NewQuotaManager\<lparr>slowUntil := 100\<rparr>\<rparr>) 50)) = 2"
proof -
  have "poll_ok (sample_conn\<lparr>quota := NewQuotaManager\<lparr>slowUntil := 100\<rparr>\<rparr>)" using sample_conn_ok by (simp add: poll_ok_def)
  from rate_control_rate [OF this, of 50] show ?thesis by (simp add: IsSlowMode_def IsZero_def)
qed

section \<open>Packets of a poll that does not happen\<close>

lemma dispatch_full:
  fixes c :: "('a, 'u) PollingPacketConn"
  assumes "adaptive_ok (adaptive c)" and "Concurrency (adaptive c) \<le> semCur c"
  obtains c' where "dispatch c payload now t1 t2 = (c', None)"
proof -
  have "1 \<le> Concurrency (adaptive c)" using assms(1) by (simp add: adaptive_ok_def adp_consts)
  then have "semAcquire d t \<noteq> (True, x)" if "adaptive d = adaptive c" "semCur d = semCur c" for d x :: "('a, 'u) PollingPacketConn" and t
    using assms(2) that by (auto simp: semAcquire_def Let_def GetParams_def split: prod.splits)
  moreover have "adaptive (rate_control c t1) = adaptive c" by (auto simp: rate_control_def Let_def storeRate_def split: prod.splits)
  ultimately have "snd (dispatch c payload now t1 t2) = None" by (auto simp: dispatch_def Let_def split: prod.splits)
  then show ?thesis using that by (cases "dispatch c payload now t1 t2") auto
qed

lemma gather_keeps:
  "gather cancelled sch envs c = Return (c', r) \<Longrightarrow> adaptive c' = adaptive c \<and> remoteAddr c' = remoteAddr c \<and> clientID c' = clientID c"
  by (auto simp: gather_def run_bind_Return Let_def split: prod.splits if_splits)

lemma dispatch_pconn: "dispatch c payload now t1 t2 = (c', r) \<Longrightarrow> pconn c' = pconn c"
  by (auto simp: dispatch_def rate_control_def storeRate_def semAcquire_def Let_def split: prod.splits if_splits)

text \<open>
  C15: An iteration that is rate-limited, or finds the semaphore full, has already taken its packets
  out of the queue, and does not put them back: of the packets that waited, those of the payload are
  gone, and only the stashed one and the ones still queued are left. (The reliable protocol above
  sends them again.)
\<close>

theorem skipped_poll_drops:
  assumes "poll_ok c" and "quiet sch" and "\<forall>k. \<not> cancelled k"
    and "ps = stashed (pconn c) (remoteAddr c) @ outgoing (pconn c) (remoteAddr c)"
    and "\<forall>p \<in> set ps. p \<noteq> [] \<and> length p < 2 ^ 20" and "ps \<noteq> []"
    and "gather cancelled sch [] c = Return (c1, Some payload)" and "dispatch c1 payload now t1 t2 = (c2, None)"
  shows "\<exists>taken. taken \<noteq> [] \<and> payload = clientID c @ concat (map data_chunk taken) \<and>
    ps = taken @ stashed (pconn c2) (remoteAddr c) @ outgoing (pconn c2) (remoteAddr c)"
proof -
  obtain taken held rest where f: "filled (MaxPayload (adaptive c)) (length (clientID c)) True ps = (taken, held, rest)"
    by (cases "filled (MaxPayload (adaptive c)) (length (clientID c)) True ps") auto
  have l: "\<forall>p \<in> set ps. length p < 2 ^ 20" "[] \<notin> set ps" using assms(5) by auto
  from gather_payload [OF assms(1-3) l(1) [unfolded assms(4)] f [unfolded assms(4)]] assms(7)
  have "payload = clientID c @ concat (map data_chunk taken)"
    "stashed (pconn c1) = (stashed (pconn c))(remoteAddr c := held)"
    "outgoing (pconn c1) = (outgoing (pconn c))(remoteAddr c := rest)" by auto
  with filled_complete [OF l(2,1) f] dispatch_pconn [OF assms(8)] assms(6) show ?thesis by (intro exI [of _ taken]) simp
qed

theorem skipped_poll_drops_witness:
  "\<exists>(c :: (bytes, bytes) PollingPacketConn) c1 c2. stashed (pconn c) (remoteAddr c) = [[1, 2]] \<and>
     gather (\<lambda>_. False) sample_sched [] c = Return (c1, Some (clientID c @ data_chunk [1, 2])) \<and>
     dispatch c1 (clientID c @ data_chunk [1, 2]) 0 0 0 = (c2, None) \<and>
     stashed (pconn c2) (remoteAddr c) = [] \<and> outgoing (pconn c2) (remoteAddr c) = []"
proof -
  obtain c0 :: "(bytes, bytes) PollingPacketConn" where c0: "poll_ok c0" "remoteAddr c0 = str ''server''"
    "stashed (pconn c0) = (stashed (pconn sample_conn))(str ''server'' := [[1, 2]])" "outgoing (pconn c0) = outgoing (pconn sample_conn)"
    by (rule sample_waiting)
  define c where "c = c0\<lparr>semCur := 4\<rparr>"
  have c: "poll_ok c" "stashed (pconn c) (remoteAddr c) = [[1, 2]]" "outgoing (pconn c) (remoteAddr c) = []"
    using c0 by (simp_all add: c_def poll_ok_def)
  have "filled (MaxPayload (adaptive c)) (length (clientID c)) True [[1, 2]] = ([[1, 2]], [], [])" by simp
  with gather_payload [OF c(1), of sample_sched "\<lambda>_. False" "[[1, 2]]" "[]" "[]"] c
  obtain c1 where g: "gather (\<lambda>_. False) sample_sched [] c = Return (c1, Some (clientID c @ data_chunk [1, 2]))" by auto
  have "semCur c1 = 4" by (rule gather_ok [OF c(1), of "\<lambda>_. False" sample_sched "[]"]) (use g in \<open>simp add: c_def\<close>)
  moreover have "adaptive c1 = adaptive c" using gather_keeps [OF g] by blast
  moreover have "adaptive_ok (adaptive c)" using c(1) by (simp add: poll_ok_def)
  ultimately have "adaptive_ok (adaptive c1)" "Concurrency (adaptive c1) \<le> semCur c1" by (simp_all add: adaptive_ok_def adp_consts)
  then obtain c2 where d: "dispatch c1 (clientID c @ data_chunk [1, 2]) 0 0 0 = (c2, None)" by (rule dispatch_full)
  have "\<exists>taken. taken \<noteq> [] \<and> clientID c @ data_chunk [1, 2] = clientID c @ concat (map data_chunk taken) \<and>
    [[1, 2]] = taken @ stashed (pconn c2) (remoteAddr c) @ outgoing (pconn c2) (remoteAddr c)"
    by (rule skipped_poll_drops [OF c(1) _ _ _ _ _ g d]) (simp_all add: c)
  then have "stashed (pconn c2) (remoteAddr c) = []" "outgoing (pconn c2) (remoteAddr c) = []" by (auto simp: Cons_eq_append_conv)
  with c g d show ?thesis by blast
qed

section \<open>Processing an answer\<close>

lemma processIncoming_stream:
  assumes "packet_stream ps (take maxResponseBody s)"
  shows "processIncoming c (eof_reader s) =
    (c\<lparr>pconn := foldl (\<lambda>pc p. QueueIncoming pc p (remoteAddr c)) (pconn c) ps\<rparr>, length (concat ps),
     if length s < maxResponseBody then None else Some (ErrorText ''response body exceeded 1 MB limit''))"
proof -
  have l: "LimitReader (eof_reader s) maxResponseBody = eof_reader (take maxResponseBody s)" by (simp add: LimitReader_def)
  note r = ReadData_all_packets [OF assms, of EOF]
  show ?thesis unfolding processIncoming_def l Let_def r prod.case by (auto simp: length_concat min_def)
qed

text \<open>
  A client that receives the encapsulation of packets, with any padding between them, queues exactly these packets for
  reading, in their order, and reports how many bytes they have; if the body has 1 MB or more,
  and its first 1 MB is such an encapsulation, it queues the packets of the first 1 MB and reports an error
  (also for a body of exactly 1 MB, which does not exceed the limit).
\<close>

theorem processIncoming_packets:
  assumes "packet_stream ps (take maxResponseBody s)"
  shows "processIncoming c (eof_reader s) =
    (c\<lparr>pconn := foldl (\<lambda>pc p. QueueIncoming pc p (remoteAddr c)) (pconn c) ps\<rparr>, length (concat ps),
     if length s < maxResponseBody then None else Some (ErrorText ''response body exceeded 1 MB limit''))"
  using assms by (rule processIncoming_stream)

theorem processIncoming_packets_witness:
  "processIncoming sample_conn (eof_reader (data_chunk [5, 6] @ data_chunk [7])) =
    (sample_conn\<lparr>pconn := QueueIncoming (QueueIncoming (pconn sample_conn) [5, 6] (str ''server'')) [7] (str ''server'')\<rparr>, 3, None)"
proof -
  let ?s = "data_chunk [5, 6] @ data_chunk [7 :: byte]"
  have l: "length ?s < maxResponseBody" using data_chunk_length [of "[5, 6]"] data_chunk_length [of "[7]"] by (simp add: maxResponseBody_def)
  have "packet_stream [[5, 6], [7]] ?s"
    using packet_stream_chunks [of "[[5, 6], [7]]"] by force
  with l have "packet_stream [[5, 6], [7]] (take maxResponseBody ?s)" by simp
  from processIncoming_packets [OF this, of sample_conn] l show ?thesis by simp
qed

end
