(* ===== verification/Noise_Loop.thy ===== *)
theory Noise_Loop
  imports Noise_Session Queue_Packet_Conn
begin

text \<open>
  The Noise layer of the server, \<^verbatim>\<open>noiseLoop\<close> of champa-server/main.go, with \<^verbatim>\<open>ReadMessageFrom\<close> of
  noise/noise.go: it sits between the packet connection of the HTTP handler (\<open>noiseConn\<close>) and the one of
  KCP (\<open>plainConn\<close>), answers handshakes, decrypts what clients send and runs, for every session, a
  goroutine that encrypts what KCP sends.

  Sessions are shared between the map and the goroutines, so they live in a store and are named by
  their index; session \<open>j\<close> is the one of goroutine \<open>j\<close>. The goroutines, the main loop, the HTTP handler
  and KCP take turns in any order. \<open>temporary\<close> is the \<^verbatim>\<open>Temporary\<close> method of network errors.
\<close>

section \<open>Messages\<close>

definition MsgTypeHandshakeInit :: byte where "MsgTypeHandshakeInit = 1"
definition MsgTypeHandshakeResp :: byte where "MsgTypeHandshakeResp = 2"
definition MsgTypeTransport :: byte where "MsgTypeTransport = 4"

lemma ReadFrom_shortens:
  "ReadFrom c n pick = Return (Some (c', Inr d)) \<Longrightarrow> length (ch_buf (recvQueue c')) < length (ch_buf (recvQueue c))"
  by (auto simp: ReadFrom_def ReadFrom_wait_def run_bind_Return split: if_splits list.splits)

text \<open>\<open>None\<close> if the connection has nothing (more) to read; empty packets are skipped.\<close>

function ReadMessageFrom ::
  "'a queuePacketConn \<Rightarrow> bool \<Rightarrow> ('a queuePacketConn \<times> (goerror + byte \<times> bytes \<times> 'a) option) run" where
  "ReadMessageFrom c pick =
     (case ReadFrom c 1500 pick of
        Panic s \<Rightarrow> Panic s
      | Return None \<Rightarrow> Return (c, None)
      | Return (Some (c', Inl e)) \<Rightarrow> Return (c', Some (Inl e))
      | Return (Some (c', Inr (buf, addr))) \<Rightarrow>
          if length buf \<ge> 1 then Return (c', Some (Inr (hd buf, tl buf, addr)))
          else ReadMessageFrom c' pick)"
  by pat_completeness auto
termination
  by (relation "measure (\<lambda>(c, _). length (ch_buf (recvQueue c)))") (auto dest: ReadFrom_shortens)

declare ReadMessageFrom.simps [simp del]

section \<open>State\<close>

datatype 'a sender =
    Starting 'a
  | Sending 'a nat
  | Finished 'a

record ('cs, 'a) noiseServer =
  noiseConn :: "'a queuePacketConn"
  plainConn :: "'a queuePacketConn"
  sessions :: "'a \<Rightarrow> nat option"
  sess_store :: "'cs session list"
  senders :: "'a sender list"
  halted :: "goerror option"

definition noise_start :: "'a queuePacketConn \<Rightarrow> 'a queuePacketConn \<Rightarrow> ('cs, 'a) noiseServer" where
  "noise_start nc pc =
     \<lparr>noiseConn = nc, plainConn = pc, sessions = (\<lambda>_. None), sess_store = [], senders = [], halted = None\<rparr>"

section \<open>The main loop\<close>

text \<open>
  What an iteration does with a message. Besides the new state, the packet it passes to KCP, if any,
  with the session and the nonce it came under.
\<close>

type_synonym delivery = "nat \<times> 64 word \<times> bytes"

definition handle_message ::
  "('cs, 'hs) noise_lib \<Rightarrow> (goerror \<Rightarrow> bool) \<Rightarrow> bytes \<Rightarrow> int \<Rightarrow> ('cs, 'a) noiseServer \<Rightarrow> byte \<Rightarrow> bytes \<Rightarrow> 'a \<Rightarrow>
   (('cs, 'a) noiseServer \<times> delivery list) run" where
  "handle_message L temporary privkey now s msgType msg addr =
     (if msgType = MsgTypeHandshakeInit then
        (if sessions s addr \<noteq> None then Return (s, [])
         else
           run_bind (AcceptHandshake L [MsgTypeHandshakeResp] msg privkey) (\<lambda>r.
           case r of
             Inl e \<Rightarrow> Return (s, [])
           | Inr (sess, p) \<Rightarrow>
               run_bind (WriteTo (noiseConn s) p addr now) (\<lambda>(nc, res).
               let s = s\<lparr>noiseConn := nc\<rparr> in
               case res of
                 Inl e \<Rightarrow> Return (if temporary e then s else s\<lparr>halted := Some e\<rparr>, [])
               | Inr _ \<Rightarrow>
                   Return (s\<lparr>sessions := (sessions s)(addr \<mapsto> length (sess_store s)),
                             sess_store := sess_store s @ [sess],
                             senders := senders s @ [Starting addr]\<rparr>, []))))
      else if msgType = MsgTypeTransport then
        (case sessions s addr of
           None \<Rightarrow> Return (s, [])
         | Some j \<Rightarrow>
             (case Decrypt L (sess_store s ! j) [] msg of
                (sess, Inl e) \<Rightarrow> Return (s\<lparr>sess_store := (sess_store s)[j := sess]\<rparr>, [])
              | (sess, Inr p) \<Rightarrow>
                  Return (s\<lparr>sess_store := (sess_store s)[j := sess], plainConn := QueueIncoming (plainConn s) p addr\<rparr>,
                          [(j, Uint64 (take 8 msg), p)])))
      else Return (s, []))"

text \<open>One iteration of the loop; while there is nothing to read it waits.\<close>

definition noise_iteration ::
  "('cs, 'hs) noise_lib \<Rightarrow> (goerror \<Rightarrow> bool) \<Rightarrow> bytes \<Rightarrow> bool \<Rightarrow> int \<Rightarrow> ('cs, 'a) noiseServer \<Rightarrow>
   (('cs, 'a) noiseServer \<times> delivery list) run" where
  "noise_iteration L temporary privkey pick now s =
     run_bind (ReadMessageFrom (noiseConn s) pick) (\<lambda>(nc, res).
     let s = s\<lparr>noiseConn := nc\<rparr> in
     case res of
       None \<Rightarrow> Return (s, [])
     | Some (Inl e) \<Rightarrow> Return (if temporary e then s else s\<lparr>halted := Some e\<rparr>, [])
     | Some (Inr (msgType, msg, addr)) \<Rightarrow> handle_message L temporary privkey now s msgType msg addr)"

section \<open>The sending goroutines\<close>

definition finish_sender :: "('cs, 'a) noiseServer \<Rightarrow> nat \<Rightarrow> 'a \<Rightarrow> ('cs, 'a) noiseServer" where
  "finish_sender s j addr = s\<lparr>sessions := (sessions s)(addr := None), senders := (senders s)[j := Finished addr]\<rparr>"

definition sender_step ::
  "('cs, 'hs) noise_lib \<Rightarrow> (goerror \<Rightarrow> bool) \<Rightarrow> int \<Rightarrow> ('cs, 'a) noiseServer \<Rightarrow> nat \<Rightarrow> ('cs, 'a) noiseServer run" where
  "sender_step L temporary now s j =
     (case senders s ! j of
        Finished addr \<Rightarrow> Return s
      | Starting addr \<Rightarrow>
          run_bind (OutgoingQueue (plainConn s) addr now) (\<lambda>(pc, q).
          Return (s\<lparr>plainConn := pc, senders := (senders s)[j := Sending addr q]\<rparr>))
      | Sending addr q \<Rightarrow>
          (case try_recv (chans (remotes (plainConn s))) q of
             (_, WouldBlock) \<Rightarrow> Return s
           | (_, GotClosed) \<Rightarrow> Return (finish_sender s j addr)
           | (cs, Got p) \<Rightarrow>
               (let s = s\<lparr>plainConn := (plainConn s)\<lparr>remotes := (remotes (plainConn s))\<lparr>chans := cs\<rparr>\<rparr>\<rparr>;
                    (sess, r) = Encrypt L (sess_store s ! j) [MsgTypeTransport] p;
                    s = s\<lparr>sess_store := (sess_store s)[j := sess]\<rparr>
                in case r of
                     Inl e \<Rightarrow> Return (finish_sender s j addr)
                   | Inr buf \<Rightarrow>
                       run_bind (WriteTo (noiseConn s) buf addr now) (\<lambda>(nc, res).
                       let s = s\<lparr>noiseConn := nc\<rparr> in
                       case res of
                         Inl e \<Rightarrow> Return (if temporary e then s else finish_sender s j addr)
                       | Inr _ \<Rightarrow> Return s))))"

section \<open>Executions\<close>

inductive noise_step ::
  "('cs, 'hs) noise_lib \<Rightarrow> (goerror \<Rightarrow> bool) \<Rightarrow> bytes \<Rightarrow> ('cs, 'a) noiseServer \<Rightarrow> delivery list \<Rightarrow> ('cs, 'a) noiseServer \<Rightarrow> bool"
  for L temporary privkey where
  main: "halted s = None \<Longrightarrow> noise_iteration L temporary privkey pick now s = Return (s', ds) \<Longrightarrow>
         noise_step L temporary privkey s ds s'"
| sender: "j < length (senders s) \<Longrightarrow> sender_step L temporary now s j = Return s' \<Longrightarrow> noise_step L temporary privkey s [] s'"
| http: "conn_run (noiseConn s) ops = Return (c, xs) \<Longrightarrow> noise_step L temporary privkey s [] (s\<lparr>noiseConn := c\<rparr>)"
| kcp: "conn_run (plainConn s) ops = Return (c, xs) \<Longrightarrow> noise_step L temporary privkey s [] (s\<lparr>plainConn := c\<rparr>)"

inductive noise_exec ::
  "('cs, 'hs) noise_lib \<Rightarrow> (goerror \<Rightarrow> bool) \<Rightarrow> bytes \<Rightarrow> ('cs, 'a) noiseServer \<Rightarrow> delivery list \<Rightarrow> ('cs, 'a) noiseServer \<Rightarrow> bool"
  for L temporary privkey where
  none: "noise_exec L temporary privkey s [] s"
| more: "noise_exec L temporary privkey s ds s' \<Longrightarrow> noise_step L temporary privkey s' es s'' \<Longrightarrow>
         noise_exec L temporary privkey s (ds @ es) s''"

section \<open>Invariant\<close>

primrec sender_addr :: "'a sender \<Rightarrow> 'a" where
  "sender_addr (Starting a) = a"
| "sender_addr (Sending a q) = a"
| "sender_addr (Finished a) = a"

primrec active :: "'a sender \<Rightarrow> bool" where
  "active (Starting a) = True"
| "active (Sending a q) = True"
| "active (Finished a) = False"

text \<open>The map of sessions lists exactly the goroutines that run, by their address.\<close>

definition linked :: "('a \<Rightarrow> nat option) \<Rightarrow> 'a sender list \<Rightarrow> bool" where
  "linked f ss \<longleftrightarrow> (\<forall>a j. f a = Some j \<longleftrightarrow> j < length ss \<and> active (ss ! j) \<and> sender_addr (ss ! j) = a)"

lemma linkedD: "linked f ss \<Longrightarrow> f a = Some j \<Longrightarrow> j < length ss \<and> active (ss ! j) \<and> sender_addr (ss ! j) = a"
  by (simp add: linked_def)

lemma linkedI: "linked f ss \<Longrightarrow> j < length ss \<Longrightarrow> active (ss ! j) \<Longrightarrow> f (sender_addr (ss ! j)) = Some j"
  by (simp add: linked_def)

lemma linked_start:
  assumes "linked f ss" and "f a = None"
  shows "linked (f(a \<mapsto> length ss)) (ss @ [Starting a])"
  unfolding linked_def
proof (intro allI)
  fix b j
  show "(f(a \<mapsto> length ss)) b = Some j \<longleftrightarrow>
      j < length (ss @ [Starting a]) \<and> active ((ss @ [Starting a]) ! j) \<and> sender_addr ((ss @ [Starting a]) ! j) = b"
  proof (cases "j < length ss")
    case True
    then show ?thesis using assms(2) linkedI [OF assms(1) True] linkedD [OF assms(1), of b j] by (auto simp: nth_append)
  next
    case False
    then show ?thesis using linkedD [OF assms(1), of b j] by (auto simp: nth_append less_Suc_eq)
  qed
qed

lemma linked_finish:
  assumes "linked f ss" and "j < length ss" and "active (ss ! j)"
  shows "linked (f(sender_addr (ss ! j) := None)) (ss[j := Finished (sender_addr (ss ! j))])"
  unfolding linked_def
proof (intro allI)
  fix b i
  have k: "f (sender_addr (ss ! j)) = Some j" using linkedI [OF assms] .
  show "(f(sender_addr (ss ! j) := None)) b = Some i \<longleftrightarrow>
      i < length (ss[j := Finished (sender_addr (ss ! j))]) \<and> active (ss[j := Finished (sender_addr (ss ! j))] ! i) \<and>
      sender_addr (ss[j := Finished (sender_addr (ss ! j))] ! i) = b"
  proof (cases "i = j")
    case True
    then show ?thesis using assms(2) k linkedD [OF assms(1), of b j] by auto
  next
    case False
    then show ?thesis using k linkedD [OF assms(1), of b i] linkedI [OF assms(1), of i] by auto
  qed
qed

lemma linked_change:
  assumes "linked f ss" and "j < length ss" and "active x = active (ss ! j)" and "sender_addr x = sender_addr (ss ! j)"
  shows "linked f (ss[j := x])"
  using assms by (auto simp: linked_def nth_list_update)

definition noise_ok :: "('cs, 'a) noiseServer \<Rightarrow> bool" where
  "noise_ok s \<longleftrightarrow> conn_ok (noiseConn s) \<and> conn_ok (plainConn s) \<and> length (senders s) = length (sess_store s) \<and>
     linked (sessions s) (senders s)"

lemma noise_start_ok: "conn_ok nc \<Longrightarrow> conn_ok pc \<Longrightarrow> noise_ok (noise_start nc pc)"
  by (simp add: noise_ok_def noise_start_def linked_def)

lemma ReadMessageFrom_ok:
  "conn_ok c \<Longrightarrow> \<exists>c' res. ReadMessageFrom c pick = Return (c', res) \<and> conn_ok c'"
proof (induction c pick rule: ReadMessageFrom.induct)
  case (1 c pick)
  from 1(2) show ?case
  proof (cases rule: ReadFrom_cases [where n = 1500 and pick = pick])
    case (packet p a ps)
    let ?c = "c\<lparr>recvQueue := (recvQueue c)\<lparr>ch_buf := ps\<rparr>\<rparr>"
    have "conn_ok ?c" using 1(2) packet by (auto simp: conn_ok_def)
    then show ?thesis using packet 1(1) [OF packet(3) refl refl] by (subst ReadMessageFrom.simps) auto
  qed (use 1(2) in \<open>simp_all add: ReadMessageFrom.simps [of c]\<close>)
qed

lemma WriteTo_ok:
  assumes "conn_ok c"
  obtains c' res where "WriteTo c p a t = Return (c', res)" "conn_ok c'"
  using conn_step_ok [OF assms, of "WriteOp p a t"] by (auto simp: run_bind_Return)

lemma handle_message_cases:
  assumes "handle_message L temporary privkey now s t msg addr = Return (s', ds)"
  obtains (keep) "s' = s" "ds = []"
  | (failed) p nc e where "WriteTo (noiseConn s) p addr now = Return (nc, Inl e)" "ds = []"
      "s' = s\<lparr>noiseConn := nc\<rparr> \<or> s' = s\<lparr>noiseConn := nc, halted := Some e\<rparr>"
  | (started) sess p nc n where "t = MsgTypeHandshakeInit" "sessions s addr = None" "ds = []"
      "AcceptHandshake L [MsgTypeHandshakeResp] msg privkey = Return (Inr (sess, p))"
      "WriteTo (noiseConn s) p addr now = Return (nc, Inr n)"
      "s' = s\<lparr>noiseConn := nc, sessions := (sessions s)(addr \<mapsto> length (sess_store s)),
             sess_store := sess_store s @ [sess], senders := senders s @ [Starting addr]\<rparr>"
  | (rejected) j sess e where "t = MsgTypeTransport" "sessions s addr = Some j" "Decrypt L (sess_store s ! j) [] msg = (sess, Inl e)"
      "s' = s\<lparr>sess_store := (sess_store s)[j := sess]\<rparr>" "ds = []"
  | (delivered) j sess p where "t = MsgTypeTransport" "sessions s addr = Some j" "Decrypt L (sess_store s ! j) [] msg = (sess, Inr p)"
      "s' = s\<lparr>sess_store := (sess_store s)[j := sess], plainConn := QueueIncoming (plainConn s) p addr\<rparr>"
      "ds = [(j, Uint64 (take 8 msg), p)]"
proof -
  consider "t = MsgTypeHandshakeInit" "sessions s addr = None" | "t = MsgTypeHandshakeInit" "sessions s addr \<noteq> None"
    | "t = MsgTypeTransport" "t \<noteq> MsgTypeHandshakeInit" | "t \<noteq> MsgTypeTransport" "t \<noteq> MsgTypeHandshakeInit" by blast
  then show ?thesis
  proof cases
    case 1
    then obtain r where r: "AcceptHandshake L [MsgTypeHandshakeResp] msg privkey = Return r"
      using assms by (auto simp: handle_message_def run_bind_Return)
    show ?thesis
    proof (cases r)
      case (Inl e)
      then show ?thesis using assms 1 r by (intro keep) (auto simp: handle_message_def)
    next
      case (Inr q)
      then obtain sess p where q: "r = Inr (sess, p)" by (cases q) auto
      then obtain nc res where w: "WriteTo (noiseConn s) p addr now = Return (nc, res)"
        using assms 1 r by (auto simp: handle_message_def run_bind_Return)
      show ?thesis
      proof (cases res)
        case (Inl e)
        then show ?thesis using assms 1 r q w
          by (intro failed [of p nc e]) (auto simp: handle_message_def Let_def split: if_splits)
      next
        case (Inr n)
        then show ?thesis using assms 1 r q w
          by (intro started [of sess p nc n]) (auto simp: handle_message_def Let_def)
      qed
    qed
  next
    case 3
    show ?thesis
    proof (cases "sessions s addr")
      case None
      then show ?thesis using assms 3 by (intro keep) (auto simp: handle_message_def)
    next
      case (Some j)
      obtain sess r where d: "Decrypt L (sess_store s ! j) [] msg = (sess, r)" by force
      show ?thesis
      proof (cases r)
        case (Inl e)
        then show ?thesis using assms 3 Some d by (intro rejected [of j sess e]) (auto simp: handle_message_def)
      next
        case (Inr p)
        then show ?thesis using assms 3 Some d by (intro delivered [of j sess p]) (auto simp: handle_message_def)
      qed
    qed
  qed (use assms in \<open>auto intro: keep simp: handle_message_def split: if_splits\<close>)
qed

lemma WriteTo_Return_ok: "conn_ok c \<Longrightarrow> WriteTo c p a t = Return (c', res) \<Longrightarrow> conn_ok c'"
  by (erule WriteTo_ok [where p = p and a = a and t = t]) simp

lemma handle_message_ok:
  assumes "noise_ok s" and "handle_message L temporary privkey now s t msg addr = Return (s', ds)"
  shows "noise_ok s'"
  using assms(2)
proof (cases rule: handle_message_cases)
  case (failed p nc e)
  then show ?thesis using assms(1) WriteTo_Return_ok [OF _ failed(1)] by (auto simp: noise_ok_def)
next
  case (started sess p nc n)
  have "conn_ok nc" using assms(1) WriteTo_Return_ok [OF _ started(5)] by (simp add: noise_ok_def)
  then show ?thesis using assms(1) started(2)
    by (simp add: noise_ok_def started(6)) (metis linked_start)
qed (use assms(1) in \<open>auto simp: noise_ok_def QueueIncoming_ok\<close>)

lemma noise_iteration_cases:
  assumes "noise_ok s" and "noise_iteration L temporary privkey pick now s = Return (s', ds)"
  obtains (wait) nc where "conn_ok nc" "s' = s\<lparr>noiseConn := nc\<rparr>" "ds = []"
  | (stop) nc e where "conn_ok nc" "s' = s\<lparr>noiseConn := nc, halted := Some e\<rparr>" "ds = []"
  | (message) nc t msg addr where "conn_ok nc" "ReadMessageFrom (noiseConn s) pick = Return (nc, Some (Inr (t, msg, addr)))"
      "handle_message L temporary privkey now (s\<lparr>noiseConn := nc\<rparr>) t msg addr = Return (s', ds)"
proof -
  obtain nc res where r: "ReadMessageFrom (noiseConn s) pick = Return (nc, res)" "conn_ok nc"
    using ReadMessageFrom_ok assms(1) by (metis noise_ok_def)
  consider "res = None" | e where "res = Some (Inl e)" | t msg addr where "res = Some (Inr (t, msg, addr))"
    by (cases res) (auto, metis prod_cases3 sumE)
  then show ?thesis
  proof cases
    case 1
    then show ?thesis using assms(2) r by (intro wait [of nc]) (auto simp: noise_iteration_def Let_def)
  next
    case (2 e)
    then show ?thesis using assms(2) r stop [of nc e] wait [of nc]
      by (cases "temporary e") (auto simp: noise_iteration_def Let_def)
  next
    case (3 t msg addr)
    then show ?thesis using assms(2) r by (intro message [of nc t msg addr]) (auto simp: noise_iteration_def Let_def)
  qed
qed

lemma noise_iteration_ok:
  assumes "noise_ok s" and "noise_iteration L temporary privkey pick now s = Return (s', ds)"
  shows "noise_ok s'"
  using assms
proof (cases rule: noise_iteration_cases)
  case (message nc t msg addr)
  have "noise_ok (s\<lparr>noiseConn := nc\<rparr>)" using assms(1) message(1) by (simp add: noise_ok_def)
  then show ?thesis using message(3) by (rule handle_message_ok)
qed (use assms(1) in \<open>simp_all add: noise_ok_def\<close>)

lemma finish_sender_ok:
  assumes "noise_ok s" and "j < length (senders s)" and "active (senders s ! j)" and "sender_addr (senders s ! j) = a"
  shows "noise_ok (finish_sender s j a)"
  using assms linked_finish [of "sessions s" "senders s" j] by (simp add: noise_ok_def finish_sender_def)

text \<open>What a goroutine changes: its session's sending side, the connections, and its own entry.\<close>

lemma sender_step_cases:
  assumes "noise_ok s" and "j < length (senders s)"
  obtains (keep) "sender_step L temporary now s j = Return s"
  | (queue) a pc q where "senders s ! j = Starting a" "conn_ok pc"
      "sender_step L temporary now s j = Return (s\<lparr>plainConn := pc, senders := (senders s)[j := Sending a q]\<rparr>)"
  | (closed) a where "active (senders s ! j)" "sender_addr (senders s ! j) = a"
      "sender_step L temporary now s j = Return (finish_sender s j a)"
  | (packet) a q p pc sess s1 nc where "senders s ! j = Sending a q" "conn_ok pc" "conn_ok nc"
      "s1 = s\<lparr>plainConn := pc, sess_store := (sess_store s)[j := sess], noiseConn := nc\<rparr>"
      "sess = fst (Encrypt L (sess_store s ! j) [MsgTypeTransport] p)"
      "sender_step L temporary now s j = Return s1 \<or> sender_step L temporary now s j = Return (finish_sender s1 j a)"
proof -
  have ok: "conn_ok (noiseConn s)" "conn_ok (plainConn s)" using assms(1) by (simp_all add: noise_ok_def)
  show ?thesis
  proof (cases "senders s ! j")
    case (Starting a)
    have "rm_ok (remotes (plainConn s))" using ok by (simp add: conn_ok_def)
    then obtain m r where "Lookup (remotes (plainConn s)) a now = Return (m, r)" "rm_ok m" by (rule Lookup_ok)
    then show ?thesis using Starting ok
      by (intro queue [of a "(plainConn s)\<lparr>remotes := m\<rparr>" "rSendQueue r"])
        (simp_all add: sender_step_def OutgoingQueue_def SendQueue_def conn_ok_def)
  next
    case (Finished a)
    then show ?thesis by (intro keep) (simp add: sender_step_def)
  next
    case (Sending a q)
    obtain cs x where r: "try_recv (chans (remotes (plainConn s))) q = (cs, x)" by force
    show ?thesis
    proof (cases x)
      case (Got p)
      define pc where "pc = (plainConn s)\<lparr>remotes := (remotes (plainConn s))\<lparr>chans := cs\<rparr>\<rparr>"
      have pc: "conn_ok pc" using ok rm_ok_recv [of "remotes (plainConn s)" q] r by (simp add: pc_def conn_ok_def)
      obtain sess res where e: "Encrypt L (sess_store s ! j) [MsgTypeTransport] p = (sess, res)" by force
      show ?thesis
      proof (cases res)
        case (Inl er)
        have "sender_step L temporary now s j =
            Return (finish_sender (s\<lparr>plainConn := pc, sess_store := (sess_store s)[j := sess], noiseConn := noiseConn s\<rparr>) j a)"
          using Sending r Got e Inl by (simp add: sender_step_def pc_def)
        then show ?thesis using Sending pc ok e by (intro packet [of a q pc "noiseConn s" _ sess p]) auto
      next
        case (Inr buf)
        obtain nc wr where w: "WriteTo (noiseConn s) buf a now = Return (nc, wr)" "conn_ok nc" by (rule WriteTo_ok [OF ok(1)])
        have "sender_step L temporary now s j =
            Return (case wr of Inl er \<Rightarrow> if temporary er then s\<lparr>plainConn := pc, sess_store := (sess_store s)[j := sess], noiseConn := nc\<rparr>
                               else finish_sender (s\<lparr>plainConn := pc, sess_store := (sess_store s)[j := sess], noiseConn := nc\<rparr>) j a
                    | Inr _ \<Rightarrow> s\<lparr>plainConn := pc, sess_store := (sess_store s)[j := sess], noiseConn := nc\<rparr>)"
          using Sending r Got e Inr w by (simp add: sender_step_def pc_def split: sum.splits)
        then show ?thesis using Sending pc w e by (intro packet [of a q pc nc _ sess p]) (auto split: sum.splits)
      qed
    next
      case GotClosed
      then show ?thesis using Sending r by (intro closed [of a]) (simp_all add: sender_step_def)
    next
      case WouldBlock
      then show ?thesis using Sending r by (intro keep) (simp add: sender_step_def)
    qed
  qed
qed

lemma sender_step_ok:
  assumes "noise_ok s" and "j < length (senders s)"
  shows "\<exists>s'. sender_step L temporary now s j = Return s' \<and> noise_ok s'"
  using assms
proof (cases rule: sender_step_cases [where L = L and temporary = temporary and now = now])
  case (queue a pc q)
  have "linked (sessions s) ((senders s)[j := Sending a q])"
    using assms queue(1) by (intro linked_change) (simp_all add: noise_ok_def)
  then show ?thesis using assms(1) queue by (simp add: noise_ok_def)
next
  case (closed a)
  then show ?thesis using finish_sender_ok [OF assms] by simp
next
  case (packet a q p pc sess s1 nc)
  have ok: "noise_ok s1" using assms(1) packet(2-4) by (simp add: noise_ok_def)
  have "noise_ok (finish_sender s1 j a)" using assms(2) packet(1,4) by (intro finish_sender_ok [OF ok]) simp_all
  with ok packet(6) show ?thesis by auto
qed (use assms in simp_all)

section \<open>Sessions and goroutines\<close>

lemma noise_step_ok:
  assumes "noise_step L temporary privkey s ds s'" and "noise_ok s"
  shows "noise_ok s'"
  using assms
proof (cases rule: noise_step.cases)
  case (main pick now)
  then show ?thesis using noise_iteration_ok [OF assms(2)] by blast
next
  case (sender j now)
  then show ?thesis using sender_step_ok [OF assms(2), of j L temporary now] by auto
next
  case (http ops c xs)
  then show ?thesis using assms(2) conn_run_ok [of "noiseConn s" ops] by (auto simp: noise_ok_def)
next
  case (kcp ops c xs)
  then show ?thesis using assms(2) conn_run_ok [of "plainConn s" ops] by (auto simp: noise_ok_def)
qed

lemma noise_exec_ok: "noise_exec L temporary privkey s ds s' \<Longrightarrow> noise_ok s \<Longrightarrow> noise_ok s'"
  by (induction rule: noise_exec.induct) (auto dest: noise_step_ok)

text \<open>
  C8: In every execution, the map of sessions and the sending goroutines agree: a client has a
  session exactly while the goroutine of that session runs, so no client ever has two goroutines that
  send on its behalf, and a goroutine that ends removes its own session and no other.
\<close>

theorem noise_one_sender:
  assumes "noise_exec L temporary privkey (noise_start (NewQueuePacketConn x) (NewQueuePacketConn y)) ds s"
  shows "(\<forall>a j. sessions s a = Some j \<longleftrightarrow> j < length (senders s) \<and> active (senders s ! j) \<and> sender_addr (senders s ! j) = a) \<and>
    (\<forall>i j. i < length (senders s) \<longrightarrow> j < length (senders s) \<longrightarrow> active (senders s ! i) \<longrightarrow> active (senders s ! j) \<longrightarrow>
       sender_addr (senders s ! i) = sender_addr (senders s ! j) \<longrightarrow> i = j)"
proof -
  have "noise_ok s" by (rule noise_exec_ok [OF assms noise_start_ok [OF NewQueuePacketConn_ok NewQueuePacketConn_ok]])
  then have l: "linked (sessions s) (senders s)" by (simp add: noise_ok_def)
  have one: "i = j" if "i < length (senders s)" "j < length (senders s)" "active (senders s ! i)" "active (senders s ! j)"
      "sender_addr (senders s ! i) = sender_addr (senders s ! j)" for i j
  proof -
    have "Some i = sessions s (sender_addr (senders s ! i))" using linkedI [OF l that(1,3)] by (rule sym)
    also have "\<dots> = Some j" unfolding that(5) by (rule linkedI [OF l that(2,4)])
    finally show "i = j" by (rule option.inject [THEN iffD1])
  qed
  show ?thesis by (rule conjI [OF l [unfolded linked_def]]) (intro allI impI, rule one)
qed

section \<open>No packet is delivered twice\<close>

definition used_nonces :: "delivery list \<Rightarrow> nat \<Rightarrow> nat set" where
  "used_nonces ds j = {unat n |n p. (j, n, p) \<in> set ds}"

lemma used_nonces_simps [simp]:
  "used_nonces [] j = {}" "used_nonces (ds @ es) j = used_nonces ds j \<union> used_nonces es j"
  "used_nonces [(i, n, p)] j = (if i = j then {unat n} else {})"
  by (auto simp: used_nonces_def)

definition windows_ok :: "('cs, 'a) noiseServer \<Rightarrow> delivery list \<Rightarrow> bool" where
  "windows_ok s ds \<longleftrightarrow>
     (\<forall>j < length (sess_store s). window_of (replay (sess_store s ! j)) (used_nonces ds j)) \<and>
     (\<forall>d \<in> set ds. fst d < length (sess_store s)) \<and>
     distinct (map (\<lambda>(j, n, p). (j, n)) ds)"

lemma windows_ok_conns [simp]:
  "windows_ok (s\<lparr>noiseConn := c\<rparr>) ds = windows_ok s ds" "windows_ok (s\<lparr>plainConn := c\<rparr>) ds = windows_ok s ds"
  "windows_ok (s\<lparr>halted := h\<rparr>) ds = windows_ok s ds" "windows_ok (s\<lparr>senders := x\<rparr>) ds = windows_ok s ds"
  "windows_ok (finish_sender s j a) ds = windows_ok s ds"
  by (simp_all add: windows_ok_def finish_sender_def)

lemma windows_ok_same:
  assumes "windows_ok s ds" and "replay sess = replay (sess_store s ! j)"
  shows "windows_ok (s\<lparr>sess_store := (sess_store s)[j := sess]\<rparr>) ds"
proof -
  have "replay ((sess_store s)[j := sess] ! i) = replay (sess_store s ! i)" if "i < length (sess_store s)" for i
    using assms(2) that by (cases "i = j") simp_all
  then show ?thesis using assms(1) by (simp add: windows_ok_def)
qed

lemma Decrypt_window:
  assumes "Decrypt L sess [] msg = (sess', Inr p)" and "window_of (replay sess) U"
  shows "unat (Uint64 (take 8 msg)) \<notin> U \<and> window_of (replay sess') (insert (unat (Uint64 (take 8 msg))) U)"
proof (cases rule: Decrypt_cases [where L = L and s = sess and out = "[]" and msg = msg])
  case (fresh cs' rw q)
  from fresh(2) have "acceptable U (unat (Uint64 (take 8 msg)))" "window_of rw (insert (unat (Uint64 (take 8 msg))) U)"
    using window.check_iff [OF assms(2), of "Uint64 (take 8 msg)"] window.check_True [OF assms(2), of "Uint64 (take 8 msg)"] by simp_all
  then show ?thesis using assms(1) fresh by (auto simp: acceptable_def)
qed (use assms(1) in simp_all)

lemma AcceptHandshake_window: "AcceptHandshake L out msg privkey = Return (Inr (sess, p)) \<Longrightarrow> replay sess = emptyWindow"
  by (auto simp: AcceptHandshake_def split: run.splits sum.splits prod.splits if_splits)

lemma used_fresh: "\<forall>d \<in> set ds. fst d < n \<Longrightarrow> used_nonces ds n = {}"
  by (auto simp: used_nonces_def)

lemma handle_message_windows:
  assumes "noise_ok s" and "handle_message L temporary privkey now s t msg addr = Return (s', es)" and "windows_ok s ds"
  shows "windows_ok s' (ds @ es)"
  using assms(2)
proof (cases rule: handle_message_cases)
  case (started sess p nc n)
  have "replay sess = emptyWindow" using started(4) by (rule AcceptHandshake_window)
  moreover have "used_nonces ds (length (sess_store s)) = {}" using assms(3) by (intro used_fresh) (simp add: windows_ok_def)
  ultimately show ?thesis using assms(3) window_of_empty
    by (auto simp: windows_ok_def started(3,6) nth_append less_Suc_eq)
next
  case (rejected j sess e)
  have "replay sess = replay (sess_store s ! j)" using rejected(3) by (rule Decrypt_error_keeps_window)
  from windows_ok_same [OF assms(3) this] rejected(4,5) show ?thesis by simp
next
  case (delivered j sess p)
  have j: "j < length (sess_store s)"
    using assms(1) linkedD [of "sessions s" "senders s" addr j] delivered(2) by (auto simp: noise_ok_def)
  let ?n = "Uint64 (take 8 msg)"
  have "window_of (replay (sess_store s ! j)) (used_nonces ds j)" using assms(3) j by (simp add: windows_ok_def)
  from Decrypt_window [OF delivered(3) this]
  have w: "unat ?n \<notin> used_nonces ds j" "window_of (replay sess) (insert (unat ?n) (used_nonces ds j))" by simp_all
  have "(j, ?n) \<notin> (\<lambda>(j, n, p). (j, n)) ` set ds" using w(1) by (auto simp: used_nonces_def)
  then show ?thesis using assms(3) w(2) j
    by (auto simp: windows_ok_def delivered(4,5) nth_list_update)
qed (use assms(3) in auto)

lemma noise_step_windows:
  assumes "noise_step L temporary privkey s es s'" and "noise_ok s" and "windows_ok s ds"
  shows "windows_ok s' (ds @ es)"
  using assms(1)
proof (cases rule: noise_step.cases)
  case (main pick now)
  from assms(2) main(2) show ?thesis
  proof (cases rule: noise_iteration_cases)
    case (message nc t msg addr)
    have "noise_ok (s\<lparr>noiseConn := nc\<rparr>)" using assms(2) message(1) by (simp add: noise_ok_def)
    from handle_message_windows [OF this message(3)] assms(3) show ?thesis by simp
  qed (use assms(3) in simp_all)
next
  case (sender j now)
  from assms(2) sender(2) show ?thesis
  proof (cases rule: sender_step_cases [where L = L and temporary = temporary and now = now])
    case (packet a q p pc sess s1 nc)
    have "replay sess = replay (sess_store s ! j)" unfolding packet(5) by (simp add: Encrypt_def Let_def split: prod.splits)
    then have "windows_ok (s\<lparr>sess_store := (sess_store s)[j := sess]\<rparr>) ds" by (rule windows_ok_same [OF assms(3)])
    then have "windows_ok s1 ds" by (simp add: packet(4) windows_ok_def)
    then show ?thesis using packet(6) sender(1,3) by auto
  qed (use assms(3) sender in auto)
qed (use assms(3) in simp_all)

lemma noise_exec_windows:
  "noise_exec L temporary privkey s ds s' \<Longrightarrow> noise_ok s \<Longrightarrow> windows_ok s [] \<Longrightarrow> windows_ok s' ds"
  by (induction rule: noise_exec.induct) (auto intro: noise_step_windows noise_exec_ok)

text \<open>
  C7: No client packet reaches KCP twice: whatever messages arrive, and however handshakes, expiries
  and goroutines interleave, no session delivers two packets under the same nonce.
\<close>

theorem noise_no_replay:
  assumes "noise_exec L temporary privkey (noise_start (NewQueuePacketConn x) (NewQueuePacketConn y)) ds s"
  shows "distinct (map (\<lambda>(j, n, p). (j, n)) ds)"
  using noise_exec_windows [OF assms noise_start_ok [OF NewQueuePacketConn_ok NewQueuePacketConn_ok]]
  by (simp add: windows_ok_def) (simp add: noise_start_def)

section \<open>The loop runs as long as its connection\<close>

lemma ReadMessageFrom_open:
  "conn_ok c \<Longrightarrow> \<not> closed c \<Longrightarrow>
   \<exists>c' res. ReadMessageFrom c pick = Return (c', res) \<and> \<not> closed c' \<and> (\<forall>e. res \<noteq> Some (Inl e))"
proof (induction c pick rule: ReadMessageFrom.induct)
  case (1 c pick)
  from 1(2) show ?case
  proof (cases rule: ReadFrom_cases [where n = 1500 and pick = pick])
    case (packet p a ps)
    let ?c = "c\<lparr>recvQueue := (recvQueue c)\<lparr>ch_buf := ps\<rparr>\<rparr>"
    have "conn_ok ?c" using 1(2) packet by (auto simp: conn_ok_def)
    then show ?thesis using packet 1(1) [OF packet(3) refl refl] by (subst ReadMessageFrom.simps) auto
  qed (use 1(3) in \<open>simp_all add: ReadMessageFrom.simps [of c]\<close>)
qed

lemma WriteTo_open_Return:
  assumes "conn_ok c" and "\<not> closed c"
  obtains c' where "WriteTo c p a t = Return (c', Inr (length p))" "\<not> closed c'" "conn_ok c'"
  using WriteTo_open [OF assms, where addr = a and now = t and p = p] WriteTo_frame [of c p a t] assms(2)
    WriteTo_Return_ok [OF assms(1), of p a t] by metis

lemma AcceptHandshake_returns: "X25519_base L privkey = Inr pub \<Longrightarrow> \<exists>r. AcceptHandshake L out msg privkey = Return r"
  by (simp add: AcceptHandshake_def PubkeyFromPrivkey_def)

lemma handle_message_open:
  assumes "X25519_base L privkey = Inr pub" and "noise_ok s" and "\<not> closed (noiseConn s)" and "halted s = None"
  shows "\<exists>s' es. handle_message L temporary privkey now s t msg addr = Return (s', es) \<and> halted s' = None \<and> \<not> closed (noiseConn s')"
proof -
  obtain r where r: "AcceptHandshake L [MsgTypeHandshakeResp] msg privkey = Return r"
    using AcceptHandshake_returns [OF assms(1)] by blast
  have ok: "conn_ok (noiseConn s)" using assms(2) by (simp add: noise_ok_def)
  show ?thesis
  proof (cases r)
    case (Inl e)
    then show ?thesis using r assms(3,4) by (auto simp: handle_message_def split: option.splits prod.splits sum.splits)
  next
    case (Inr q)
    obtain sess p where q: "q = (sess, p)" by force
    obtain nc where "WriteTo (noiseConn s) p addr now = Return (nc, Inr (length p))" "\<not> closed nc"
      by (rule WriteTo_open_Return [OF ok assms(3)])
    then show ?thesis using r Inr q assms(3,4)
      by (auto simp: handle_message_def split: option.splits prod.splits sum.splits)
  qed
qed

text \<open>
  C9: The main loop never gets stuck: given a private key that has a public key, after any execution
  an iteration on a connection that is still open returns without a panic and does not end the loop;
  it goes on until the connection is closed.
\<close>

theorem noise_loop_progress:
  assumes "noise_exec L temporary privkey (noise_start (NewQueuePacketConn x) (NewQueuePacketConn y)) ds s"
    and "X25519_base L privkey = Inr pub" and "halted s = None" and "\<not> closed (noiseConn s)"
  shows "\<exists>s' es. noise_iteration L temporary privkey pick now s = Return (s', es) \<and>
    halted s' = None \<and> \<not> closed (noiseConn s')"
proof -
  have ok: "noise_ok s" "conn_ok (noiseConn s)"
    using noise_exec_ok [OF assms(1) noise_start_ok [OF NewQueuePacketConn_ok NewQueuePacketConn_ok]] by (auto simp: noise_ok_def)
  obtain nc res where r: "ReadMessageFrom (noiseConn s) pick = Return (nc, res)" "\<not> closed nc" "\<forall>e. res \<noteq> Some (Inl e)"
    using ReadMessageFrom_open [OF ok(2) assms(4)] by blast
  have nc: "conn_ok nc" using ReadMessageFrom_ok [OF ok(2), of pick] r(1) by auto
  show ?thesis
  proof (cases res)
    case None
    then show ?thesis using r(1,2) assms(3) by (simp add: noise_iteration_def)
  next
    case (Some m)
    then obtain t msg addr where m: "res = Some (Inr (t, msg, addr))" using r(3) by (cases m) auto
    have "noise_ok (s\<lparr>noiseConn := nc\<rparr>)" using ok nc by (simp add: noise_ok_def)
    from handle_message_open [OF assms(2) this] r(2) assms(3) show ?thesis
      using r(1) m by (simp add: noise_iteration_def)
  qed
qed

section \<open>Packets of a session reach KCP\<close>

lemma ReadMessageFrom_head:
  assumes "\<not> closed c" and "ch_buf (recvQueue c) = (b # m, a) # ps" and "length m < 1500"
  shows "ReadMessageFrom c pick = Return (c\<lparr>recvQueue := (recvQueue c)\<lparr>ch_buf := ps\<rparr>\<rparr>, Some (Inr (b, m, a)))"
proof -
  have "take 1500 (b # m) = b # m" using assms(3) by simp
  then show ?thesis using assms(1,2) by (simp add: ReadMessageFrom.simps [of c] ReadFrom_def ReadFrom_wait_def del: take_Cons_numeral)
qed

lemma noise_exec_first:
  assumes "noise_step L temporary privkey s es s1" and "noise_exec L temporary privkey s1 ds s'"
  shows "noise_exec L temporary privkey s (es @ ds) s'"
  using assms(2,1)
proof (induction rule: noise_exec.induct)
  case (none s1)
  then show ?case using noise_exec.more [OF noise_exec.none none] by simp
next
  case (more s1 ds s2 fs s3)
  from noise_exec.more [OF more.IH [OF more.prems] more.hyps(2)] show ?case by simp
qed

lemma transport_step:
  assumes "noise_ok s" and "halted s = None" and "\<not> closed (noiseConn s)" and "sessions s a = Some j"
    and "ch_buf (recvQueue (noiseConn s)) = (MsgTypeTransport # m, a) # qs" and "length m < 1500"
  obtains s1 where
    "noise_step L temporary privkey s (case Decrypt L (sess_store s ! j) [] m of (_, Inl e) \<Rightarrow> [] | (_, Inr p) \<Rightarrow> [(j, Uint64 (take 8 m), p)]) s1"
    "noise_ok s1" "halted s1 = None" "\<not> closed (noiseConn s1)" "sessions s1 a = Some j"
    "ch_buf (recvQueue (noiseConn s1)) = qs" "sess_store s1 ! j = fst (Decrypt L (sess_store s ! j) [] m)"
    "plainConn s1 = (case Decrypt L (sess_store s ! j) [] m of (_, Inl e) \<Rightarrow> plainConn s | (_, Inr p) \<Rightarrow> QueueIncoming (plainConn s) p a)"
proof -
  have j: "j < length (sess_store s)"
    using assms(1) linkedD [of "sessions s" "senders s" a j] assms(4) by (auto simp: noise_ok_def)
  let ?nc = "(noiseConn s)\<lparr>recvQueue := (recvQueue (noiseConn s))\<lparr>ch_buf := qs\<rparr>\<rparr>"
  obtain sess res where d: "Decrypt L (sess_store s ! j) [] m = (sess, res)" by force
  define s1 where "s1 = (case res of
      Inl e \<Rightarrow> s\<lparr>noiseConn := ?nc, sess_store := (sess_store s)[j := sess]\<rparr>
    | Inr p \<Rightarrow> s\<lparr>noiseConn := ?nc, sess_store := (sess_store s)[j := sess], plainConn := QueueIncoming (plainConn s) p a\<rparr>)"
  define es where "es = (case res of Inl e \<Rightarrow> [] | Inr p \<Rightarrow> [(j, Uint64 (take 8 m), p)])"
  have it: "noise_iteration L temporary privkey True 0 s = Return (s1, es)"
    using ReadMessageFrom_head [OF assms(3,5,6), of True] assms(4) d
    by (simp add: noise_iteration_def handle_message_def Let_def s1_def es_def MsgTypeHandshakeInit_def MsgTypeTransport_def split: sum.splits)
  show ?thesis
  proof (rule that)
    show "noise_step L temporary privkey s (case Decrypt L (sess_store s ! j) [] m of (_, Inl e) \<Rightarrow> [] | (_, Inr p) \<Rightarrow> [(j, Uint64 (take 8 m), p)]) s1"
      using noise_step.main [OF assms(2) it] by (simp add: d es_def)
    show "noise_ok s1" by (rule noise_iteration_ok [OF assms(1) it])
  qed (use assms(2-4) j d in \<open>simp_all add: s1_def split: sum.splits\<close>)
qed

lemma transport_run:
  assumes "noise_ok s" and "halted s = None" and "\<not> closed (noiseConn s)" and "sessions s a = Some j"
    and "ch_buf (recvQueue (noiseConn s)) = map (\<lambda>m. (MsgTypeTransport # m, a)) ms @ ps"
    and "\<forall>m \<in> set ms. length m < 1500"
  shows "\<exists>s'. noise_exec L temporary privkey s (map (\<lambda>(n, p). (j, n, p)) (decrypt_run L (sess_store s ! j) ms)) s' \<and>
    plainConn s' = foldl (\<lambda>c (n, p). QueueIncoming c p a) (plainConn s) (decrypt_run L (sess_store s ! j) ms) \<and>
    ch_buf (recvQueue (noiseConn s')) = ps"
  using assms
proof (induction ms arbitrary: s)
  case Nil
  then show ?case using noise_exec.none [of L temporary privkey s] by auto
next
  case (Cons m ms)
  obtain s1 where s1:
    "noise_step L temporary privkey s (case Decrypt L (sess_store s ! j) [] m of (_, Inl e) \<Rightarrow> [] | (_, Inr p) \<Rightarrow> [(j, Uint64 (take 8 m), p)]) s1"
    "noise_ok s1" "halted s1 = None" "\<not> closed (noiseConn s1)" "sessions s1 a = Some j"
    "ch_buf (recvQueue (noiseConn s1)) = map (\<lambda>m. (MsgTypeTransport # m, a)) ms @ ps" "sess_store s1 ! j = fst (Decrypt L (sess_store s ! j) [] m)"
    "plainConn s1 = (case Decrypt L (sess_store s ! j) [] m of (_, Inl e) \<Rightarrow> plainConn s | (_, Inr p) \<Rightarrow> QueueIncoming (plainConn s) p a)"
    by (rule transport_step [OF Cons.prems(1-4), of m "map (\<lambda>m. (MsgTypeTransport # m, a)) ms @ ps"]) (use Cons.prems(5,6) in simp_all)
  obtain s' where s': "noise_exec L temporary privkey s1 (map (\<lambda>(n, p). (j, n, p)) (decrypt_run L (sess_store s1 ! j) ms)) s'"
    "plainConn s' = foldl (\<lambda>c (n, p). QueueIncoming c p a) (plainConn s1) (decrypt_run L (sess_store s1 ! j) ms)"
    "ch_buf (recvQueue (noiseConn s')) = ps"
    using Cons.IH [OF s1(2-6)] Cons.prems(6) by auto
  obtain sess res where d: "Decrypt L (sess_store s ! j) [] m = (sess, res)" by force
  from noise_exec_first [OF s1(1) s'(1)] s'(2,3) s1(7,8) d show ?case
    by (intro exI [of _ s']) (cases res; simp)
qed

text \<open>
  What a client with a session sends is decrypted and handed to KCP in order: when transport messages
  of one client are at the head of the queue, the main loop passes exactly the packets that the
  session accepts (\<open>decrypt_run\<close>) to KCP, under that client's address.
\<close>

theorem noise_delivers:
  assumes "noise_ok s" and "halted s = None" and "\<not> closed (noiseConn s)" and "sessions s a = Some j"
    and "ch_buf (recvQueue (noiseConn s)) = map (\<lambda>m. (MsgTypeTransport # m, a)) ms @ ps"
    and "\<forall>m \<in> set ms. length m < 1500"
  shows "\<exists>s'. noise_exec L temporary privkey s (map (\<lambda>(n, p). (j, n, p)) (decrypt_run L (sess_store s ! j) ms)) s' \<and>
    plainConn s' = foldl (\<lambda>c (n, p). QueueIncoming c p a) (plainConn s) (decrypt_run L (sess_store s ! j) ms) \<and>
    ch_buf (recvQueue (noiseConn s')) = ps"
  by (rule transport_run [OF assms])

section \<open>Witnesses\<close>

text \<open>
  An execution with the toy cipher: client \<open>[9]\<close> makes a handshake and sends the same transport message
  twice; it is delivered once.
\<close>

definition xor_start :: "(byte \<times> 64 word, bytes) noiseServer" where
  "xor_start = noise_start (NewQueuePacketConn []) (NewQueuePacketConn [])"

definition xor_msg :: bytes where
  "xor_msg = PutUint64 0 @ [3]"

lemma xor_execution:
  "\<exists>s. noise_exec xor_lib (\<lambda>_. False) [5] xor_start [(0, 0, [4])] s"
proof -
  let ?step = "noise_step xor_lib (\<lambda>_. False) [5]" and ?exec = "noise_exec xor_lib (\<lambda>_. False) [5]"
  let ?c1 = "QueueIncoming (NewQueuePacketConn ([] :: bytes)) [1, 7] [9]"
  let ?s1 = "xor_start\<lparr>noiseConn := ?c1\<rparr>"
  have c1: "conn_ok ?c1" "\<not> closed ?c1" "ch_buf (recvQueue ?c1) = [(1 # [7], [9])]"
    using QueueIncoming_ok [OF NewQueuePacketConn_ok] by (simp_all add: QueueIncoming_def NewQueuePacketConn_def queueSize_def)
  have "conn_run (noiseConn xor_start) [IncomingOp [1, 7] [9]] = Return (?c1, [])"
    by (simp add: xor_start_def noise_start_def)
  then have st1: "?step xor_start [] ?s1" by (rule noise_step.http)
  let ?c2 = "?c1\<lparr>recvQueue := (recvQueue ?c1)\<lparr>ch_buf := []\<rparr>\<rparr>"
  have rd: "ReadMessageFrom ?c1 True = Return (?c2, Some (Inr (1, [7], [9])))"
    by (rule ReadMessageFrom_head [OF c1(2,3)]) simp
  have c2: "conn_ok ?c2" "\<not> closed ?c2" using c1 by (simp_all add: conn_ok_def)
  define sess :: "(byte \<times> 64 word) session" where "sess = \<lparr>recv = (7, 0), send = (8, 0), replay = emptyWindow\<rparr>"
  have ac: "AcceptHandshake xor_lib [2] [7] [5] = Return (Inr (sess, [2, 7]))"
    by (simp add: AcceptHandshake_def PubkeyFromPrivkey_def xor_lib_def sess_def)
  obtain c3 where w: "WriteTo ?c2 [2, 7] [9] 0 = Return (c3, Inr (length [2, 7 :: byte]))" "\<not> closed c3" "conn_ok c3"
    by (rule WriteTo_open_Return [OF c2])
  have q3: "recvQueue c3 = recvQueue ?c2" using WriteTo_frame [OF w(1)] by simp
  let ?s2 = "xor_start\<lparr>noiseConn := c3, sessions := [[9] \<mapsto> 0], sess_store := [sess], senders := [Starting [9]]\<rparr>"
  have it: "noise_iteration xor_lib (\<lambda>_. False) [5] True 0 ?s1 = Return (?s2, [])"
    using rd ac w(1)
    by (simp add: noise_iteration_def handle_message_def MsgTypeHandshakeInit_def MsgTypeHandshakeResp_def xor_start_def noise_start_def)
  have "halted ?s1 = None" by (simp add: xor_start_def noise_start_def)
  then have st2: "?step ?s1 [] ?s2" using it by (rule noise_step.main)
  let ?c4 = "QueueIncoming (QueueIncoming c3 (4 # xor_msg) [9]) (4 # xor_msg) [9]"
  let ?s3 = "?s2\<lparr>noiseConn := ?c4\<rparr>"
  have st3: "?step ?s2 [] ?s3"
    by (rule noise_step.http [of _ "[IncomingOp (4 # xor_msg) [9], IncomingOp (4 # xor_msg) [9]]" _ "[]"]) simp
  have ok: "noise_ok ?s2"
    using w(3) NewQueuePacketConn_ok
    by (simp add: noise_ok_def xor_start_def noise_start_def linked_def nth_Cons' less_Suc_eq)
  have "noise_ok ?s3" using noise_step_ok [OF st3 ok] .
  moreover have "ch_buf (recvQueue (noiseConn ?s3)) = map (\<lambda>m. (MsgTypeTransport # m, [9])) [xor_msg, xor_msg] @ []"
    "\<not> closed (noiseConn ?s3)"
    using w(2) q3 by (simp_all add: QueueIncoming_def NewQueuePacketConn_def queueSize_def MsgTypeTransport_def)
  moreover have "halted ?s3 = None" "sessions ?s3 [9] = Some 0" by (simp_all add: xor_start_def noise_start_def)
  moreover have "\<forall>m \<in> set [xor_msg, xor_msg]. length m < 1500" by (simp add: xor_msg_def)
  ultimately obtain s where s: "?exec ?s3 (map (\<lambda>(n, p). (0, n, p)) (decrypt_run xor_lib (sess_store ?s3 ! 0) [xor_msg, xor_msg])) s"
    using transport_run [of ?s3 "[9]" 0 "[xor_msg, xor_msg]" "[]" xor_lib "\<lambda>_. False" "[5]"] by blast
  have "decrypt_run xor_lib sess [xor_msg, xor_msg] = [(0, [4])]"
    by (simp add: Decrypt_def xor_lib_def sess_def xor_msg_def CheckAndUpdate_def emptyWindow_def Let_def)
  with s have ex: "?exec ?s3 [(0, 0, [4])] s" by simp
  have "?exec xor_start ([] @ [] @ [] @ [(0, 0, [4])]) s"
    by (rule noise_exec_first [OF st1 noise_exec_first [OF st2 noise_exec_first [OF st3 ex]]])
  then show ?thesis by auto
qed

theorem noise_one_sender_witness:
  "\<exists>s. noise_exec xor_lib (\<lambda>_. False) [5] xor_start [(0, 0, [4])] s \<and>
     (\<forall>j. sessions s [9] = Some j \<longrightarrow> sender_addr (senders s ! j) = [9])"
proof -
  obtain s where s: "noise_exec xor_lib (\<lambda>_. False) [5] xor_start [(0, 0, [4])] s" using xor_execution by blast
  from noise_one_sender [OF this [unfolded xor_start_def]] s show ?thesis by blast
qed

theorem noise_no_replay_witness: "distinct (map (\<lambda>(j, n, p). (j, n)) [(0, 0, [4]) :: delivery])"
proof -
  obtain s where "noise_exec xor_lib (\<lambda>_. False) [5] xor_start [(0, 0, [4])] s" using xor_execution by blast
  from noise_no_replay [OF this [unfolded xor_start_def]] show ?thesis .
qed

theorem noise_loop_progress_witness:
  "\<exists>s' es. noise_iteration xor_lib (\<lambda>_. False) [5] True 7 xor_start = Return (s', es)"
proof -
  have "noise_exec xor_lib (\<lambda>_. False) [5] xor_start [] xor_start" by (rule noise_exec.none)
  from noise_loop_progress [OF this [unfolded xor_start_def], of "[5]" True 7] show ?thesis
    by (auto simp: xor_start_def xor_lib_def noise_start_def NewQueuePacketConn_def)
qed

theorem noise_delivers_witness:
  "\<exists>s'. noise_exec xor_lib (\<lambda>_. False) [5] (xor_start\<lparr>sessions := [[9] \<mapsto> 0], sess_store := [xor_session], senders := [Starting [9]]\<rparr>) [] s'"
proof -
  let ?s = "xor_start\<lparr>sessions := [[9] \<mapsto> 0], sess_store := [xor_session], senders := [Starting [9]]\<rparr>"
  have "noise_ok ?s"
    using NewQueuePacketConn_ok by (simp add: noise_ok_def xor_start_def noise_start_def linked_def nth_Cons' less_Suc_eq)
  from noise_delivers [OF this, of "[9]" 0 "[]" "[]" xor_lib "\<lambda>_. False" "[5]"] show ?thesis
    by (auto simp: xor_start_def noise_start_def NewQueuePacketConn_def)
qed

end
