(* ===== verification/Noise_Client.thy ===== *)
theory Noise_Client
  imports Noise_Loop
begin

text \<open>
  The Noise layer of the client, from champa-client/main.go: reading messages of one type, the
  client's side of the handshake, and the packet connection that encrypts what KCP writes and decrypts
  what it reads. The connection below is the \<open>QueuePacketConn\<close> of the polling connection.
\<close>

section \<open>The model\<close>

text \<open>
  The loop that skips messages of other types. Temporary errors are skipped too, so on a closed connection
  whose error is temporary the loop does not end, and the value is \<open>None\<close>. The inner \<open>None\<close> is a read
  that waits for a packet.
\<close>

partial_function (option) readNoiseMessageOfTypeFrom ::
  "(goerror \<Rightarrow> bool) \<Rightarrow> byte \<Rightarrow> bool \<Rightarrow> 'a queuePacketConn \<Rightarrow> ('a queuePacketConn \<times> (goerror + bytes \<times> 'a) option) run option" where
  "readNoiseMessageOfTypeFrom temporary wantedType pick conn =
     (case ReadMessageFrom conn pick of
        Panic s \<Rightarrow> Some (Panic s)
      | Return (conn', None) \<Rightarrow> Some (Return (conn', None))
      | Return (conn', Some (Inl e)) \<Rightarrow>
          if temporary e then readNoiseMessageOfTypeFrom temporary wantedType pick conn'
          else Some (Return (conn', Some (Inl e)))
      | Return (conn', Some (Inr (msgType, msg, addr))) \<Rightarrow>
          if msgType = wantedType then Some (Return (conn', Some (Inr (msg, addr))))
          else readNoiseMessageOfTypeFrom temporary wantedType pick conn')"

declare readNoiseMessageOfTypeFrom.simps [code]

record ('cs, 'a) noisePacketConn =
  sess :: "'cs session"
  packetConn :: "'a queuePacketConn"

text \<open>
  The two halves of \<^verbatim>\<open>noiseDial\<close>: sending the first handshake message, and waiting for the answer; with the result comes the
  connection as it then is, and \<open>None\<close> while the dial still waits.
  Between them, and while it waits, the poll loop exchanges packets with the server.
\<close>

definition noiseDial_send ::
  "('cs, 'hs) noise_lib \<Rightarrow> 'a queuePacketConn \<Rightarrow> 'a \<Rightarrow> bytes \<Rightarrow> int \<Rightarrow> ('a queuePacketConn \<times> (goerror + 'hs preSession)) run" where
  "noiseDial_send L conn addr pubkey now =
     (case InitiateHandshake L [MsgTypeHandshakeInit] pubkey of
        Inl e \<Rightarrow> Return (conn, Inl e)
      | Inr (pre, p) \<Rightarrow>
          run_bind (WriteTo conn p addr now) (\<lambda>(conn, res).
          case res of
            Inl e \<Rightarrow> Return (conn, Inl e)
          | Inr _ \<Rightarrow> Return (conn, Inr pre)))"

definition noiseDial_receive ::
  "('cs, 'hs) noise_lib \<Rightarrow> (goerror \<Rightarrow> bool) \<Rightarrow> bool \<Rightarrow> 'hs preSession \<Rightarrow> 'a queuePacketConn \<Rightarrow>
   ('a queuePacketConn \<times> (goerror + ('cs, 'a) noisePacketConn) option) run option" where
  "noiseDial_receive L temporary pick pre conn =
     (case readNoiseMessageOfTypeFrom temporary MsgTypeHandshakeResp pick conn of
        None \<Rightarrow> None
      | Some (Panic s) \<Rightarrow> Some (Panic s)
      | Some (Return (conn, None)) \<Rightarrow> Some (Return (conn, None))
      | Some (Return (conn, Some (Inl e))) \<Rightarrow> Some (Return (conn, Some (Inl e)))
      | Some (Return (conn, Some (Inr (msg, _)))) \<Rightarrow>
          Some (Return (conn, Some
            (case FinishHandshake L pre msg of
               Inl e \<Rightarrow> Inl e
             | Inr s \<Rightarrow> Inr \<lparr>sess = s, packetConn = conn\<rparr>))))"

definition noiseDial ::
  "('cs, 'hs) noise_lib \<Rightarrow> (goerror \<Rightarrow> bool) \<Rightarrow> 'a conn_op list \<Rightarrow> bool \<Rightarrow> 'a queuePacketConn \<Rightarrow> 'a \<Rightarrow> bytes \<Rightarrow> int \<Rightarrow>
   ('a queuePacketConn \<times> (goerror + ('cs, 'a) noisePacketConn) option) run option" where
  "noiseDial L temporary exchanged pick conn addr pubkey now =
     (case noiseDial_send L conn addr pubkey now of
        Panic s \<Rightarrow> Some (Panic s)
      | Return (conn, Inl e) \<Rightarrow> Some (Return (conn, Some (Inl e)))
      | Return (conn, Inr pre) \<Rightarrow>
          (case conn_run conn exchanged of
             Panic s \<Rightarrow> Some (Panic s)
           | Return (conn, _) \<Rightarrow> noiseDial_receive L temporary pick pre conn))"

text \<open>\<open>n\<close> is the length of the slice; a packet that the replay window refuses is an empty read.\<close>

definition noise_ReadFrom ::
  "('cs, 'hs) noise_lib \<Rightarrow> (goerror \<Rightarrow> bool) \<Rightarrow> bool \<Rightarrow> ('cs, 'a) noisePacketConn \<Rightarrow> nat \<Rightarrow>
   (('cs, 'a) noisePacketConn \<times> (goerror + bytes \<times> 'a) option) run option" where
  "noise_ReadFrom L temporary pick c n =
     (case readNoiseMessageOfTypeFrom temporary MsgTypeTransport pick (packetConn c) of
        None \<Rightarrow> None
      | Some (Panic s) \<Rightarrow> Some (Panic s)
      | Some (Return (conn, None)) \<Rightarrow> Some (Return (c\<lparr>packetConn := conn\<rparr>, None))
      | Some (Return (conn, Some (Inl e))) \<Rightarrow> Some (Return (c\<lparr>packetConn := conn\<rparr>, Some (Inl e)))
      | Some (Return (conn, Some (Inr (msg, addr)))) \<Rightarrow>
          (case Decrypt L (sess c) [] msg of
             (s, Inl e) \<Rightarrow>
               Some (Return (\<lparr>sess = s, packetConn = conn\<rparr>,
                             Some (if e = ErrInvalidNonce then Inr ([], addr) else Inl e)))
           | (s, Inr dec) \<Rightarrow> Some (Return (\<lparr>sess = s, packetConn = conn\<rparr>, Some (Inr (take n dec, addr))))))"

definition noise_WriteTo ::
  "('cs, 'hs) noise_lib \<Rightarrow> ('cs, 'a) noisePacketConn \<Rightarrow> bytes \<Rightarrow> 'a \<Rightarrow> int \<Rightarrow> (('cs, 'a) noisePacketConn \<times> (goerror + nat)) run" where
  "noise_WriteTo L c p addr now =
     (case Encrypt L (sess c) [MsgTypeTransport] p of
        (s, Inl e) \<Rightarrow> Return (c\<lparr>sess := s\<rparr>, Inl e)
      | (s, Inr buf) \<Rightarrow>
          run_bind (WriteTo (packetConn c) buf addr now) (\<lambda>(conn, res).
          Return (\<lparr>sess = s, packetConn = conn\<rparr>, res)))"

section \<open>Reading\<close>

text \<open>The queue from the first message of a type on; truncated packets keep their type.\<close>

definition of_type :: "byte \<Rightarrow> 'a taggedPacket \<Rightarrow> bool" where
  "of_type t x \<longleftrightarrow> fst x \<noteq> [] \<and> hd (fst x) = t"

lemma ReadMessageFrom_queue:
  "\<not> closed c \<Longrightarrow> ReadMessageFrom c pick =
    (case dropWhile (\<lambda>x. fst x = []) (ch_buf (recvQueue c)) of
       [] \<Rightarrow> Return (c\<lparr>recvQueue := (recvQueue c)\<lparr>ch_buf := []\<rparr>\<rparr>, None)
     | (p, a) # xs \<Rightarrow> Return (c\<lparr>recvQueue := (recvQueue c)\<lparr>ch_buf := xs\<rparr>\<rparr>, Some (Inr (hd p, take 1499 (tl p), a))))"
proof (induction "ch_buf (recvQueue c)" arbitrary: c)
  case Nil
  then show ?case by (subst ReadMessageFrom.simps) (simp add: ReadFrom_def ReadFrom_wait_def)
next
  case (Cons x xs)
  obtain p a where x: "x = (p, a)" by force
  let ?c = "c\<lparr>recvQueue := (recvQueue c)\<lparr>ch_buf := xs\<rparr>\<rparr>"
  have r: "ReadFrom c 1500 pick = Return (Some (?c, Inr (take 1500 p, a)))"
    using Cons(3) by (simp add: ReadFrom_def ReadFrom_wait_def x flip: Cons(2))
  show ?case
  proof (cases p)
    case Nil
    have "ReadMessageFrom c pick = ReadMessageFrom ?c pick" using Nil by (subst ReadMessageFrom.simps) (simp add: r)
    then show ?thesis using Cons(1) [of ?c] Cons(3) Nil x
      by (cases "dropWhile (\<lambda>x. fst x = []) xs") (auto simp del: dropWhile_eq_Nil_conv simp flip: Cons(2))
  next
    case (Cons b bs)
    then show ?thesis using r x \<open>x # xs = ch_buf (recvQueue c)\<close> [symmetric] by (subst ReadMessageFrom.simps) simp
  qed
qed

lemma dropWhile_of_type:
  "dropWhile (\<lambda>x. \<not> of_type t x) q = dropWhile (\<lambda>x. \<not> of_type t x) (dropWhile (\<lambda>x. fst x = []) q)"
  by (induction q) (auto simp: of_type_def)

lemma readNoise_queue:
  "\<not> closed c \<Longrightarrow> readNoiseMessageOfTypeFrom temporary t pick c =
    (case dropWhile (\<lambda>x. \<not> of_type t x) (ch_buf (recvQueue c)) of
       [] \<Rightarrow> Some (Return (c\<lparr>recvQueue := (recvQueue c)\<lparr>ch_buf := []\<rparr>\<rparr>, None))
     | (p, a) # xs \<Rightarrow> Some (Return (c\<lparr>recvQueue := (recvQueue c)\<lparr>ch_buf := xs\<rparr>\<rparr>, Some (Inr (take 1499 (tl p), a)))))"
proof (induction "length (ch_buf (recvQueue c))" arbitrary: c rule: less_induct)
  case less
  let ?q = "ch_buf (recvQueue c)" and ?d = "dropWhile (\<lambda>x. fst x = []) (ch_buf (recvQueue c))"
  have dd: "dropWhile (\<lambda>x. \<not> of_type t x) ?q = dropWhile (\<lambda>x. \<not> of_type t x) ?d"
    by (rule dropWhile_of_type)
  show ?case
  proof (cases ?d)
    case Nil
    have "ReadMessageFrom c pick = Return (c\<lparr>recvQueue := (recvQueue c)\<lparr>ch_buf := []\<rparr>\<rparr>, None)"
      by (subst ReadMessageFrom_queue [OF less(2)], subst Nil) simp
    then show ?thesis unfolding dd Nil by (subst readNoiseMessageOfTypeFrom.simps) simp
  next
    case (Cons x xs)
    obtain p a where x: "x = (p, a)" by force
    let ?c = "c\<lparr>recvQueue := (recvQueue c)\<lparr>ch_buf := xs\<rparr>\<rparr>"
    have ne: "p \<noteq> []" using Cons x hd_dropWhile [of "\<lambda>x. fst x = []" ?q] by auto
    have r: "ReadMessageFrom c pick = Return (?c, Some (Inr (hd p, take 1499 (tl p), a)))"
      using ReadMessageFrom_queue [OF less(2)] Cons x by simp
    have len: "length xs < length ?q" using Cons length_dropWhile_le [of "\<lambda>x. fst x = []" ?q] by (simp add: Suc_le_eq)
    have rec: "readNoiseMessageOfTypeFrom temporary t pick c =
      (if hd p = t then Some (Return (?c, Some (Inr (take 1499 (tl p), a)))) else readNoiseMessageOfTypeFrom temporary t pick ?c)"
      by (subst readNoiseMessageOfTypeFrom.simps) (simp add: r)
    show ?thesis
    proof (cases "hd p = t")
      case True
      then show ?thesis using rec ne dd Cons x by (simp add: of_type_def)
    next
      case False
      have "readNoiseMessageOfTypeFrom temporary t pick ?c =
        (case dropWhile (\<lambda>x. \<not> of_type t x) (ch_buf (recvQueue ?c)) of
           [] \<Rightarrow> Some (Return (?c\<lparr>recvQueue := (recvQueue ?c)\<lparr>ch_buf := []\<rparr>\<rparr>, None))
         | (p, a) # xs \<Rightarrow> Some (Return (?c\<lparr>recvQueue := (recvQueue ?c)\<lparr>ch_buf := xs\<rparr>\<rparr>, Some (Inr (take 1499 (tl p), a)))))"
        by (rule less(1)) (use len less(2) in simp_all)
      moreover have "\<not> of_type t x" using False x by (simp add: of_type_def)
      ultimately show ?thesis using rec dd Cons False
        by (cases "dropWhile (\<lambda>x. \<not> of_type t x) xs") (auto simp del: dropWhile_eq_Nil_conv)
    qed
  qed
qed

text \<open>
  C17: On an open connection the client's search for a message always comes to an end and never fails: it discards the messages of
  other types, returns the first of the wanted type (cut to 1499 bytes), and leaves what is behind it in the queue; if there
  is none it waits, with an empty queue.
\<close>

theorem readNoise_returns:
  assumes "\<not> closed c"
  shows "\<exists>c' r. readNoiseMessageOfTypeFrom temporary t pick c = Some (Return (c', r)) \<and>
    (case r of
       None \<Rightarrow> (\<forall>x \<in> set (ch_buf (recvQueue c)). \<not> of_type t x) \<and> ch_buf (recvQueue c') = []
     | Some (Inl e) \<Rightarrow> False
     | Some (Inr (msg, a)) \<Rightarrow> \<exists>others p. ch_buf (recvQueue c) = others @ (t # p, a) # ch_buf (recvQueue c') \<and>
         (\<forall>x \<in> set others. \<not> of_type t x) \<and> msg = take 1499 p)"
proof (cases "dropWhile (\<lambda>x. \<not> of_type t x) (ch_buf (recvQueue c))")
  case Nil
  then have "readNoiseMessageOfTypeFrom temporary t pick c = Some (Return (c\<lparr>recvQueue := (recvQueue c)\<lparr>ch_buf := []\<rparr>\<rparr>, None))"
    by (simp add: readNoise_queue [OF assms] del: dropWhile_eq_Nil_conv)
  then show ?thesis using Nil by (auto simp: dropWhile_eq_Nil_conv)
next
  case (Cons x xs)
  obtain b p a where x: "x = (b # p, a)" "b = t"
    using Cons hd_dropWhile [of "\<lambda>x. \<not> of_type t x" "ch_buf (recvQueue c)"] by (cases x) (auto simp: of_type_def neq_Nil_conv)
  let ?others = "takeWhile (\<lambda>x. \<not> of_type t x) (ch_buf (recvQueue c))"
  have "ch_buf (recvQueue c) = ?others @ (t # p, a) # xs" "\<forall>x \<in> set ?others. \<not> of_type t x"
    using takeWhile_dropWhile_id [of "\<lambda>x. \<not> of_type t x" "ch_buf (recvQueue c)"] Cons x by (auto dest: set_takeWhileD)
  then show ?thesis using readNoise_queue [OF assms, of temporary t pick] Cons x by auto
qed

theorem readNoise_returns_witness:
  "\<exists>c c' msg a. ch_buf (recvQueue c) = [([], 5), ([2, 9], 5), ([4, 8, 7], 6 :: nat), ([4, 1], 5)] \<and>
     readNoiseMessageOfTypeFrom (\<lambda>_. False) MsgTypeTransport True c = Some (Return (c', Some (Inr (msg, a)))) \<and>
     length (ch_buf (recvQueue c')) < 4"
proof -
  let ?c = "(NewQueuePacketConn 0)\<lparr>recvQueue := (recvQueue (NewQueuePacketConn 0))\<lparr>ch_buf := [([], 5), ([2, 9], 5), ([4, 8, 7], 6 :: nat), ([4, 1], 5)]\<rparr>\<rparr>"
  have "\<not> closed ?c" by (simp add: NewQueuePacketConn_def)
  from readNoise_returns [OF this, of "\<lambda>_. False" MsgTypeTransport True] obtain c' r where
    r: "readNoiseMessageOfTypeFrom (\<lambda>_. False) MsgTypeTransport True ?c = Some (Return (c', r))"
    and s: "case r of None \<Rightarrow> (\<forall>x \<in> set (ch_buf (recvQueue ?c)). \<not> of_type MsgTypeTransport x) \<and> ch_buf (recvQueue c') = []
     | Some (Inl e) \<Rightarrow> False
     | Some (Inr (msg, a)) \<Rightarrow> \<exists>others p. ch_buf (recvQueue ?c) = others @ (MsgTypeTransport # p, a) # ch_buf (recvQueue c') \<and>
         (\<forall>x \<in> set others. \<not> of_type MsgTypeTransport x) \<and> msg = take 1499 p" by blast
  obtain msg a where "r = Some (Inr (msg, a))" "length (ch_buf (recvQueue c')) < length (ch_buf (recvQueue ?c))"
    using s by (cases r) (auto simp: of_type_def MsgTypeTransport_def split: sum.splits dest!: arg_cong [where f = length])
  with r show ?thesis by (intro exI [of _ ?c] exI [of _ c'] exI [of _ msg] exI [of _ a]) simp
qed

section \<open>Dialling\<close>

text \<open>\<^verbatim>\<open>WriteMessage\<close> appends its message to the slice it is given.\<close>

definition appends_ok :: "('cs, 'hs) noise_lib \<Rightarrow> bool" where
  "appends_ok L \<longleftrightarrow> (\<forall>hs out hs' m a b. hs_WriteMessage L hs [] [] = (hs', Inr (m, a, b)) \<longrightarrow>
     hs_WriteMessage L hs out [] = (hs', Inr (out @ m, a, b)))"

lemma Initiate_appends:
  "appends_ok L \<Longrightarrow> InitiateHandshake L [] pub = Inr (pre, m) \<Longrightarrow> InitiateHandshake L out pub = Inr (pre, out @ m)"
  by (force simp: InitiateHandshake_def appends_ok_def split: sum.splits prod.splits)

text \<open>Two sessions with matching keys that have not sent or received anything.\<close>

definition fresh_pair :: "('cs, 'hs) noise_lib \<Rightarrow> ('cs \<Rightarrow> 'cs \<Rightarrow> bool) \<Rightarrow> 'cs session \<Rightarrow> 'cs session \<Rightarrow> bool" where
  "fresh_pair L matched a b \<longleftrightarrow> matched (send a) (recv b) \<and> matched (send b) (recv a) \<and>
     cs_Nonce L (send a) = 0 \<and> cs_Nonce L (send b) = 0 \<and> replay a = emptyWindow \<and> replay b = emptyWindow"

lemma noiseDial_sends:
  assumes "appends_ok L" and "conn_ok c" and "\<not> closed c" and "length (outgoing c addr) < queueSize"
    and "InitiateHandshake L [] pub = Inr (pre, m1)"
  obtains c1 where "noiseDial_send L c addr pub now = Return (c1, Inr pre)" "conn_ok c1"
    "WriteTo c (MsgTypeHandshakeInit # m1) addr now = Return (c1, Inr (length (MsgTypeHandshakeInit # m1)))"
    "outgoing c1 = (outgoing c)(addr := outgoing c addr @ [MsgTypeHandshakeInit # m1])"
proof -
  obtain c1 where c1: "WriteTo c (MsgTypeHandshakeInit # m1) addr now = Return (c1, Inr (length (MsgTypeHandshakeInit # m1)))" "conn_ok c1"
    "outgoing c1 = (outgoing c)(addr := outgoing c addr @ [MsgTypeHandshakeInit # m1])"
    using WriteTo_appends [OF assms(2,3), of "MsgTypeHandshakeInit # m1" addr now] assms(4) by auto
  have "InitiateHandshake L [MsgTypeHandshakeInit] pub = Inr (pre, MsgTypeHandshakeInit # m1)"
    using Initiate_appends [OF assms(1,5)] by simp
  then have "noiseDial_send L c addr pub now = Return (c1, Inr pre)" using c1(1) by (simp add: noiseDial_send_def)
  then show ?thesis using c1 that by blast
qed

text \<open>The answer of the server, once it is in the queue, ends the dial.\<close>

lemma noiseDial_finishes:
  assumes "handshake_ok L matched" and "X25519_base L priv = Inr pub" and "InitiateHandshake L [] pub = Inr (pre, m1)"
    and "AcceptHandshake L [MsgTypeHandshakeResp] m1 priv = Return (Inr (server, resp))"
    and "take 1 resp = [MsgTypeHandshakeResp]" and "length resp \<le> 1500"
    and "\<not> closed c" and "ch_buf (recvQueue c) = before @ (resp, a) # rest" and "\<forall>x \<in> set before. \<not> of_type MsgTypeHandshakeResp x"
  shows "\<exists>client. fresh_pair L matched client server \<and> noiseDial_receive L temporary pick pre c =
    (let c' = c\<lparr>recvQueue := (recvQueue c)\<lparr>ch_buf := rest\<rparr>\<rparr> in Some (Return (c', Some (Inr \<lparr>sess = client, packetConn = c'\<rparr>))))"
proof -
  obtain client where h: "FinishHandshake L pre (drop (length [MsgTypeHandshakeResp]) resp) = Inr client"
    "matched (send client) (recv server)" "matched (send server) (recv client)"
    "cs_Nonce L (send client) = 0" "cs_Nonce L (send server) = 0" "replay client = emptyWindow" "replay server = emptyWindow"
    by (rule handshake_sessions [OF assms(1-4)])
  obtain body where resp: "resp = MsgTypeHandshakeResp # body" using assms(5) by (cases resp) auto
  have "dropWhile (\<lambda>x. \<not> of_type MsgTypeHandshakeResp x) (ch_buf (recvQueue c)) = (resp, a) # rest"
    using assms(8,9) by (simp add: dropWhile_append2 of_type_def resp)
  then have "noiseDial_receive L temporary pick pre c =
      (let c' = c\<lparr>recvQueue := (recvQueue c)\<lparr>ch_buf := rest\<rparr>\<rparr> in Some (Return (c', Some (Inr \<lparr>sess = client, packetConn = c'\<rparr>))))"
    using readNoise_queue [OF assms(7)] h(1) assms(6) by (simp add: noiseDial_receive_def resp Let_def)
  moreover have "fresh_pair L matched client server" using h by (simp add: fresh_pair_def)
  ultimately show ?thesis by blast
qed

text \<open>
  Dialling works against the server's side of the handshake: the client queues exactly one message, the type byte of a
  handshake and what the Noise library wrote; when the server's answer to it is
  in its queue, possibly behind messages of other types, the dial ends with a session whose keys match those of the
  server's session in both directions.
\<close>

theorem noiseDial_pairs:
  fixes c :: "'a queuePacketConn"
  assumes "handshake_ok L matched" and "appends_ok L" and "X25519_base L priv = Inr pub"
    and "conn_ok c" and "\<not> closed c" and "length (outgoing c addr) < queueSize"
    and "InitiateHandshake L [] pub = Inr (pre, m1)"
    and "AcceptHandshake L [MsgTypeHandshakeResp] m1 priv = Return (Inr (server, resp))"
    and "take 1 resp = [MsgTypeHandshakeResp]" and "length resp \<le> 1500"
  shows "\<exists>c1. noiseDial_send L c addr pub now = Return (c1, Inr pre) \<and>
    outgoing c1 addr = outgoing c addr @ [MsgTypeHandshakeInit # m1] \<and>
    (\<forall>(c2 :: 'a queuePacketConn) before a rest. \<not> closed c2 \<longrightarrow> ch_buf (recvQueue c2) = before @ (resp, a) # rest \<longrightarrow>
       (\<forall>x \<in> set before. \<not> of_type MsgTypeHandshakeResp x) \<longrightarrow>
       (\<exists>client. fresh_pair L matched client server \<and>
          noiseDial_receive L temporary pick pre c2 =
            (let c3 = c2\<lparr>recvQueue := (recvQueue c2)\<lparr>ch_buf := rest\<rparr>\<rparr> in Some (Return (c3, Some (Inr \<lparr>sess = client, packetConn = c3\<rparr>))))))"
proof -
  obtain c1 where "noiseDial_send L c addr pub now = Return (c1, Inr pre)" "outgoing c1 = (outgoing c)(addr := outgoing c addr @ [MsgTypeHandshakeInit # m1])"
    by (rule noiseDial_sends [OF assms(2,4-7)])
  then show ?thesis
    by (intro exI [of _ c1] conjI allI impI noiseDial_finishes [OF assms(1,3,7-10)]) simp_all
qed

lemma noiseDial_send_ok:
  assumes "conn_ok c"
  obtains c' r where "noiseDial_send L c addr pubkey now = Return (c', r)" "conn_ok c'"
proof (cases "InitiateHandshake L [MsgTypeHandshakeInit] pubkey")
  case (Inl e)
  then show ?thesis using assms that by (simp add: noiseDial_send_def)
next
  case (Inr x)
  obtain c' d where "conn_step c (WriteOp (snd x) addr now) = Return (c', d)" "conn_ok c'" using conn_step_ok [OF assms] by blast
  then obtain r where "WriteTo c (snd x) addr now = Return (c', r)" "conn_ok c'" by (auto simp: run_bind_Return)
  then show ?thesis using Inr that by (cases x; cases r) (auto simp: noiseDial_send_def)
qed

lemma readNoise_ok:
  fixes c :: "'a queuePacketConn"
  assumes "readNoiseMessageOfTypeFrom temporary t b c = Some y" and "conn_ok c"
  shows "\<exists>c' r. y = Return (c', r) \<and> conn_ok c'"
proof -
  have "conn_ok c \<longrightarrow> (\<exists>c' r. y = Return (c', r) \<and> conn_ok c')"
  proof (rule readNoiseMessageOfTypeFrom.raw_induct [OF _ assms(1), of "\<lambda>temporary t b c y. conn_ok c \<longrightarrow> (\<exists>c' r. y = Return (c', r) \<and> conn_ok c')"],
      rule impI)
    fix rec :: "(goerror \<Rightarrow> bool) \<Rightarrow> byte \<Rightarrow> bool \<Rightarrow> 'a queuePacketConn \<Rightarrow> ('a queuePacketConn \<times> (goerror + bytes \<times> 'a) option) run option"
      and temporary t b and c :: "'a queuePacketConn" and y
    assume rec: "\<And>temporary t b c y. rec temporary t b c = Some y \<Longrightarrow> conn_ok c \<longrightarrow> (\<exists>c' r. y = Return (c', r) \<and> conn_ok c')"
      and step: "(case ReadMessageFrom c b of
        Panic s \<Rightarrow> Some (Panic s)
      | Return (conn', None) \<Rightarrow> Some (Return (conn', None))
      | Return (conn', Some (Inl e)) \<Rightarrow> if temporary e then rec temporary t b conn' else Some (Return (conn', Some (Inl e)))
      | Return (conn', Some (Inr (msgType, msg, addr))) \<Rightarrow>
          if msgType = t then Some (Return (conn', Some (Inr (msg, addr)))) else rec temporary t b conn') = Some y"
      and "conn_ok c"
    obtain c' r where "ReadMessageFrom c b = Return (c', r)" "conn_ok c'" using ReadMessageFrom_ok [OF \<open>conn_ok c\<close>] by blast
    then show "\<exists>c' r. y = Return (c', r) \<and> conn_ok c'"
      using rec [of temporary t b c' y] step by (auto split: option.splits sum.splits if_splits)
  qed
  then show ?thesis using assms(2) by blast
qed

lemma noiseDial_receive_ok:
  assumes "conn_ok c" and "noiseDial_receive L temporary b pre c = Some y"
  obtains c' r where "y = Return (c', r)" "conn_ok c'"
proof -
  obtain z where z: "readNoiseMessageOfTypeFrom temporary MsgTypeHandshakeResp b c = Some z"
    using assms(2) by (cases "readNoiseMessageOfTypeFrom temporary MsgTypeHandshakeResp b c") (simp_all add: noiseDial_receive_def)
  obtain c' r where "z = Return (c', r)" "conn_ok c'" using readNoise_ok [OF z assms(1)] by blast
  then show ?thesis using assms(2) z that by (auto simp: noiseDial_receive_def split: option.splits sum.splits)
qed

lemma xor_lib_appends_ok: "appends_ok xor_lib"
  by (simp add: appends_ok_def xor_lib_def)

theorem noiseDial_pairs_witness:
  "\<exists>c1 pre. noiseDial_send xor_lib (NewQueuePacketConn [9 :: byte]) [8] [5] 0 = Return (c1, Inr pre) \<and> outgoing c1 [8] = [[1, 7 :: byte]]"
proof -
  obtain pre where i: "InitiateHandshake xor_lib [] [5] = Inr (pre, [7])" by (simp add: InitiateHandshake_def xor_lib_def)
  obtain server where a: "AcceptHandshake xor_lib [MsgTypeHandshakeResp] [7] [5] = Return (Inr (server, [2, 7]))"
    by (simp add: AcceptHandshake_def PubkeyFromPrivkey_def xor_lib_def MsgTypeHandshakeResp_def)
  have e: "\<not> closed (NewQueuePacketConn [9 :: byte])" "outgoing (NewQueuePacketConn [9 :: byte]) [8] = []"
    by (simp_all add: NewQueuePacketConn_def outgoing_def peers_def NewRemoteMap_def)
  have "X25519_base xor_lib [5] = Inr [5]" by (simp add: xor_lib_def)
  from noiseDial_pairs [OF xor_lib_handshake_ok xor_lib_appends_ok this NewQueuePacketConn_ok e(1) _ i a, where addr = "[8]" and now = 0 and temporary = "\<lambda>_. False" and pick = True] e(2)
  obtain c1 where "noiseDial_send xor_lib (NewQueuePacketConn [9 :: byte]) [8] [5] 0 = Return (c1, Inr pre)" "outgoing c1 [8] = [[1, 7]]"
    by (auto simp: MsgTypeHandshakeResp_def MsgTypeHandshakeInit_def queueSize_def)
  then show ?thesis by blast
qed

section \<open>Writing\<close>

text \<open>Packets written one after the other, each at its time; \<open>False\<close> if one of them failed.\<close>

fun noise_writes :: "('cs, 'hs) noise_lib \<Rightarrow> ('cs, 'a) noisePacketConn \<Rightarrow> 'a \<Rightarrow> (bytes \<times> int) list \<Rightarrow> (('cs, 'a) noisePacketConn \<times> bool) run" where
  "noise_writes L c addr [] = Return (c, True)"
| "noise_writes L c addr ((p, now) # xs) =
     run_bind (noise_WriteTo L c p addr now) (\<lambda>(c, res).
     case res of Inl e \<Rightarrow> Return (c, False) | Inr _ \<Rightarrow> noise_writes L c addr xs)"

lemma noise_writes_good:
  assumes "cipher_ok L matched"
  shows "matched (send (sess c)) rx \<Longrightarrow> conn_ok (packetConn c) \<Longrightarrow> \<not> closed (packetConn c) \<Longrightarrow>
    length (outgoing (packetConn c) addr) + length xs \<le> queueSize \<Longrightarrow> noise_writes L c addr xs = Return (c', True) \<Longrightarrow>
    \<exists>ms. outgoing (packetConn c') addr = outgoing (packetConn c) addr @ map (Cons MsgTypeTransport) ms \<and>
      length ms = length (map fst xs) \<and> (\<forall>j<length (map fst xs). good_message L matched (send (sess c)) (ms ! j) (map fst xs ! j) \<and>
        Uint64 (take 8 (ms ! j)) = cs_Nonce L (send (sess c)) + of_nat j)"
proof (induction xs arbitrary: c)
  case (Cons x xs)
  obtain p now where x: "x = (p, now)" by force
  obtain s buf where e: "Encrypt L (sess c) [MsgTypeTransport] p = (s, Inr buf)"
    using Cons.prems(5) by (auto simp: x noise_WriteTo_def split: prod.splits sum.splits)
  obtain m0 where m0: "buf = [MsgTypeTransport] @ m0" "good_message L matched (send (sess c)) m0 p"
    "Uint64 (take 8 m0) = cs_Nonce L (send (sess c))" "cs_Nonce L (send s) = cs_Nonce L (send (sess c)) + 1"
    "\<And>rx'. matched (send (sess c)) rx' \<Longrightarrow> matched (send s) rx'" "recv s = recv (sess c)" "replay s = replay (sess c)"
    by (rule Encrypt_framed [OF assms Cons.prems(1) e]) (rule that)
  obtain k where k: "WriteTo (packetConn c) buf addr now = Return (k, Inr (length buf))" "conn_ok k"
    "outgoing k = (outgoing (packetConn c))(addr := outgoing (packetConn c) addr @ [buf])"
    using WriteTo_appends [OF Cons.prems(2,3), of buf addr now] Cons.prems(4) by auto
  have open_k: "\<not> closed k" using WriteTo_frame [OF k(1)] Cons.prems(3) by simp
  let ?c = "\<lparr>sess = s, packetConn = k\<rparr>"
  have "noise_writes L ?c addr xs = Return (c', True)" using Cons.prems(5) e k(1) by (simp add: x noise_WriteTo_def)
  from Cons.IH [OF _ _ _ _ this] m0(5) Cons.prems(1,4) k(2,3) open_k obtain ms where
    ms: "outgoing (packetConn c') addr = outgoing k addr @ map (Cons MsgTypeTransport) ms" "length ms = length (map fst xs)"
      "\<forall>j<length (map fst xs). good_message L matched (send s) (ms ! j) (map fst xs ! j) \<and>
        Uint64 (take 8 (ms ! j)) = cs_Nonce L (send s) + of_nat j" by auto
  have up: "good_message L matched (send s) m' p' \<Longrightarrow> good_message L matched (send (sess c)) m' p'" for m' p'
    using m0(5) by (auto simp: good_message_def)
  from ms m0 k(3) up show ?case
    by (intro exI [of _ "m0 # ms"]) (auto simp: x nth_Cons' less_Suc_eq_0_disj)
qed auto

lemma noise_writes_decrypted:
  assumes "cipher_ok L matched" and "fresh_pair L matched (sess c) server"
    and "conn_ok (packetConn c)" and "\<not> closed (packetConn c)" and "outgoing (packetConn c) addr = []"
    and "length xs \<le> queueSize" and "noise_writes L c addr xs = Return (c', True)"
  obtains ms where "outgoing (packetConn c') addr = map (Cons MsgTypeTransport) ms" "map snd (decrypt_run L server ms) = map fst xs"
proof -
  have f: "matched (send (sess c)) (recv server)" "cs_Nonce L (send (sess c)) = 0" "replay server = emptyWindow"
    using assms(2) by (simp_all add: fresh_pair_def)
  obtain ms where ms: "outgoing (packetConn c') addr = map (Cons MsgTypeTransport) ms"
    "length ms = length (map fst xs) \<and> (\<forall>j<length (map fst xs). good_message L matched (send (sess c)) (ms ! j) (map fst xs ! j) \<and>
        Uint64 (take 8 (ms ! j)) = cs_Nonce L (send (sess c)) + of_nat j)"
    using noise_writes_good [OF assms(1) f(1) assms(3,4) _ assms(7)] assms(5,6) by auto
  have "map snd (decrypt_run L server ms) = map fst xs"
    using assms(6) by (intro decrypt_in_order [OF assms(1) f(1) f(3) f(2) _ ms(2)]) (simp add: queueSize_def)
  with ms(1) show ?thesis by (rule that)
qed

text \<open>
  What the client writes through its Noise connection is queued as transport messages, each of which begins with
  the type byte, and which the server's session decrypts to the packets that were written, in
  their order (up to a full queue, 256 packets).
\<close>

theorem noise_WriteTo_decrypts:
  assumes "cipher_ok L matched" and "fresh_pair L matched (sess c) server"
    and "conn_ok (packetConn c)" and "\<not> closed (packetConn c)" and "outgoing (packetConn c) addr = []"
    and "length xs \<le> queueSize" and "noise_writes L c addr xs = Return (c', True)"
  shows "\<exists>ms. outgoing (packetConn c') addr = map (Cons MsgTypeTransport) ms \<and> map snd (decrypt_run L server ms) = map fst xs"
  by (rule noise_writes_decrypted [OF assms]) blast

theorem noise_WriteTo_decrypts_witness:
  "\<exists>c' ms. noise_writes xor_lib \<lparr>sess = \<lparr>recv = (8, 0), send = (7, 0), replay = emptyWindow\<rparr>, packetConn = NewQueuePacketConn [9 :: byte]\<rparr> [8]
       [([1, 2], 0)] = Return (c', True) \<and> outgoing (packetConn c') [8] = map (Cons MsgTypeTransport) ms \<and>
     map snd (decrypt_run xor_lib \<lparr>recv = (7, 0), send = (8, 0), replay = emptyWindow\<rparr> ms) = [[1, 2]]"
proof -
  let ?c = "\<lparr>sess = \<lparr>recv = (8, 0), send = (7, 0), replay = emptyWindow\<rparr>, packetConn = NewQueuePacketConn [9 :: byte]\<rparr>"
  have e: "\<not> closed (NewQueuePacketConn [9 :: byte])" "outgoing (NewQueuePacketConn [9 :: byte]) [8] = []"
    by (simp_all add: NewQueuePacketConn_def outgoing_def peers_def NewRemoteMap_def)
  obtain s buf where b: "Encrypt xor_lib (sess ?c) [MsgTypeTransport] [1, 2] = (s, Inr buf)" by (simp add: Encrypt_def xor_lib_def)
  obtain k where "WriteTo (NewQueuePacketConn [9 :: byte]) buf [8] 0 = Return (k, Inr (length buf))"
    by (rule WriteTo_open_Return [OF NewQueuePacketConn_ok e(1)])
  with b have w: "noise_writes xor_lib ?c [8] [([1, 2], 0)] = Return (\<lparr>sess = s, packetConn = k\<rparr>, True)" by (simp add: noise_WriteTo_def)
  have f: "fresh_pair xor_lib same_key (sess ?c) \<lparr>recv = (7, 0), send = (8, 0), replay = emptyWindow\<rparr>"
    by (simp add: fresh_pair_def same_key_def xor_lib_def)
  from noise_WriteTo_decrypts [OF xor_lib_cipher_ok f _ _ _ _ w] w show ?thesis using e NewQueuePacketConn_ok [of "[9 :: byte]"] by (auto simp: queueSize_def)
qed

end
