(* ===== verification/Poll_Exchange.thy ===== *)
theory Poll_Exchange
  imports Http_Handler Polling Amp_Exchange Noise_Client
begin

text \<open>
  A poll of the client and the answer of the server's HTTP handler, put together: the packets that wait on both sides change places, for
  any way in which the request reaches the server that brings its page back. And dialling a Noise session by two polls. The properties are in the root theory.
\<close>

section \<open>The poll loop leaves its connection open\<close>

lemma select_packet_closed: "quiet sch \<Longrightarrow> select_packet cancelled sch c us out = Return (c', x) \<Longrightarrow> queuePacketConn.closed c' = queuePacketConn.closed c"
  by (auto simp: select_packet_def split: option.splits if_splits dest: recv_closed)

lemma fill_payload_closed: "fill_payload [] m out c payload p first = Return (c', r) \<Longrightarrow> queuePacketConn.closed c' = queuePacketConn.closed c"
proof (induction "[] :: 'a conn_op list list" m out c payload p first rule: fill_payload.induct)
  case (1 m out c payload p first)
  then show ?case
    unfolding fill_payload.simps [of "[]" m out c payload p first]
    by (auto simp: Let_def split: if_splits prod.splits received.splits dest!: remotes_only_closed(4))
qed

lemma gather_closed:
  assumes "quiet sch" and "gather cancelled sch [] c = Return (c', r)"
  shows "queuePacketConn.closed (pconn c') = queuePacketConn.closed (pconn c)"
proof -
  obtain c1 us c2 out c3 sel where q: "ConnUnstash (pconn c) (remoteAddr c) (clock sch 0) = Return (c1, us)"
    "OutgoingQueue c1 (remoteAddr c) (clock sch 1) = Return (c2, out)" "select_packet cancelled sch c2 us out = Return (c3, sel)"
    using assms by (auto simp: gather_def run_bind_Return)
  then have c3: "queuePacketConn.closed c3 = queuePacketConn.closed (pconn c)"
    using remotes_only_closed(1,3) select_packet_closed [OF assms(1)] by metis
  show ?thesis
  proof (cases "sel = Cancelled")
    case True
    then show ?thesis using assms q c3 by (auto simp: gather_def)
  next
    case False
    let ?m = "MaxPayload (adaptive c)" and ?p = "case sel of Packet p \<Rightarrow> p | _ \<Rightarrow> []"
    obtain c4 payload p where f: "fill_payload [] ?m out c3 (clientID c) ?p True = Return (c4, payload, p)"
      and g: "(if length p > 0 then run_bind (ConnStash c4 p (remoteAddr c) (clock sch 2)) (\<lambda>(pc, _). Return pc) else Return c4) = Return (pconn c')"
      using assms q False by (auto simp: gather_def GetParams_def Let_def run_bind_Return split: if_splits dest: arg_cong [where f = pconn])
    have "queuePacketConn.closed (pconn c') = queuePacketConn.closed c4"
      using g remotes_only_closed(2) [of c4 p "remoteAddr c" "clock sch 2"] by (auto simp: run_bind_Return split: if_splits)
    then show ?thesis using fill_payload_closed [OF f] c3 by simp
  qed
qed

section \<open>The server's answer\<close>

text \<open>
  The HTTP server as the client's transport sees it, when the request reaches it directly: the handler
  answers the path of the request.
\<close>

definition server_response :: "(nat \<Rightarrow> ClientID sched) \<Rightarrow> ClientID queuePacketConn \<Rightarrow> bytes \<Rightarrow> goerror + http_response" where
  "server_response schs c path =
     (case ServeHTTP (\<lambda>_. []) schs buffer_Write ''GET'' path c [] of
        Panic s \<Rightarrow> Inl EOF
      | Return (c', resp) \<Rightarrow> Inr \<lparr>StatusCode = status resp, LocationHeader = [], Body = eof_reader (body resp)\<rparr>)"

definition direct_server ::
  "(nat \<Rightarrow> ClientID sched) \<Rightarrow> ClientID queuePacketConn \<Rightarrow> http_request \<Rightarrow> goerror + http_response" where
  "direct_server schs c req = server_response schs c (Path (URL req))"

text \<open>What the publishers behind an AMP cache serve: the server at its own host, something else elsewhere.\<close>

definition publishers ::
  "(nat \<Rightarrow> ClientID sched) \<Rightarrow> ClientID queuePacketConn \<Rightarrow> url \<Rightarrow> (bytes \<Rightarrow> bytes \<Rightarrow> goerror + http_response) \<Rightarrow> bytes \<Rightarrow> bytes \<Rightarrow> goerror + http_response" where
  "publishers schs c serverURL elsewhere host path =
     (if host = escape (Hostname serverURL) encodePathSegment then server_response schs c path else elsewhere host path)"

lemma payload_decoded:
  assumes "length cid = 8" and "\<forall>p \<in> set taken. length p < 2 ^ 20"
  shows "decodeRequest (request_path b (cid @ concat (map data_chunk taken))) = (cid, Some (concat (map data_chunk taken)))"
    and "ReadData_all (eof_reader (concat (map data_chunk taken))) = (taken, EOF, eof_reader [])"
proof -
  show "decodeRequest (request_path b (cid @ concat (map data_chunk taken))) = (cid, Some (concat (map data_chunk taken)))"
    unfolding request_path_def using assms(1) by (intro decodeRequest_client)
  show "ReadData_all (eof_reader (concat (map data_chunk taken))) = (taken, EOF, eof_reader [])"
    using assms(2) by (intro ReadData_all_packets packet_stream_chunks) blast
qed

text \<open>The server's answer to the payload \<open>cid @ concat (map data_chunk taken)\<close>, and what the client's decoder makes of it.\<close>

lemma server_answers:
  assumes "tokenizer_ok tok" and "conn_ok sc" and "\<forall>k. quiet (schs k)" and "length cid = 8"
    and "\<forall>p \<in> set taken. length p < 2 ^ 20"
    and "\<forall>p \<in> set (stashed sc cid @ outgoing sc cid). length p < 2 ^ 20"
    and "bundled True 5000 (stashed sc cid @ outgoing sc cid) = (sent, held, rest)"
  obtains sc' resp ps where
    "ServeHTTP (\<lambda>_. []) schs buffer_Write ''GET'' (request_path b (cid @ concat (map data_chunk taken))) sc [] = Return (sc', resp)"
    "status resp = 200" "armor_page buffer_Write [] ps = (body resp, None)" "NewDecoder tok (eof_reader (body resp)) = Inr (eof_reader (concat (map data_chunk sent)))"
    "recvQueue sc' = recvQueue (foldl (\<lambda>sc p. QueueIncoming sc p cid) sc taken)"
    "stashed sc' = (stashed sc)(cid := held)" "outgoing sc' = (outgoing sc)(cid := rest)"
proof -
  note d = payload_decoded [OF assms(4,5)]
  have "\<exists>c' resp. ServeHTTP (\<lambda>_. []) schs buffer_Write ''GET'' (request_path b (cid @ concat (map data_chunk taken))) sc [] = Return (c', resp) \<and>
     status resp = 200 \<and> armor_page buffer_Write [] (concat (map packet_pieces sent)) = (body resp, None) \<and>
     stashed c' = (stashed sc)(cid := held) \<and> outgoing c' = (outgoing sc)(cid := rest) \<and>
     recvQueue c' = recvQueue (foldl (\<lambda>sc p. QueueIncoming sc p cid) sc (fst (ReadData_all (eof_reader (concat (map data_chunk taken))))))"
    by (rule ServeHTTP_page [OF assms(2,3) d(1) assms(6,7)])
  then obtain c' resp where s:
    "ServeHTTP (\<lambda>_. []) schs buffer_Write ''GET'' (request_path b (cid @ concat (map data_chunk taken))) sc [] = Return (c', resp)"
    "status resp = 200" "armor_page buffer_Write [] (concat (map packet_pieces sent)) = (body resp, None)"
    "stashed c' = (stashed sc)(cid := held)" "outgoing c' = (outgoing sc)(cid := rest)"
    "recvQueue c' = recvQueue (foldl (\<lambda>sc p. QueueIncoming sc p cid) sc (fst (ReadData_all (eof_reader (concat (map data_chunk taken))))))"
    by (elim exE conjE) (rule that)
  have "concat (concat (map packet_pieces sent)) = concat (map data_chunk sent)"
    by (induction sent) (simp_all add: packet_pieces_chunk)
  then have "NewDecoder tok (eof_reader (body resp)) = Inr (eof_reader (concat (map data_chunk sent)))"
    using armor_page_decodes [OF assms(1), of "concat (map packet_pieces sent)"] s(3) by auto
  with s show ?thesis using d(2) by (intro that [of c' resp "concat (map packet_pieces sent)"]) simp_all
qed

text \<open>
  What a poll needs of the way its payload takes: the answer is what the decoder makes of the page the server gives for
  the payload, with the cache breaker \<open>b\<close>.
\<close>

definition reaches ::
  "tokenizer \<Rightarrow> (nat \<Rightarrow> ClientID sched) \<Rightarrow> ClientID queuePacketConn \<Rightarrow> bytes \<Rightarrow> (bytes \<Rightarrow> (goerror + reader) run) \<Rightarrow> bool" where
  "reaches tok schs sc b exch \<longleftrightarrow>
     (\<forall>payload page ps. payload \<noteq> [] \<longrightarrow> armor_page buffer_Write [] ps = (page, None) \<longrightarrow>
        server_response schs sc (request_path b payload) = Inr \<lparr>StatusCode = 200, LocationHeader = [], Body = eof_reader page\<rparr> \<longrightarrow>
        exch payload = Return (NewDecoder tok (eof_reader page)))"

lemma reachesD:
  "reaches tok schs sc b exch \<Longrightarrow> payload \<noteq> [] \<Longrightarrow> armor_page buffer_Write [] ps = (page, None) \<Longrightarrow>
   server_response schs sc (request_path b payload) = Inr \<lparr>StatusCode = 200, LocationHeader = [], Body = eof_reader page\<rparr> \<Longrightarrow>
   exch payload = Return (NewDecoder tok (eof_reader page))"
  by (auto simp: reaches_def)

section \<open>Two ways to the server\<close>

lemma reaches_direct:
  assumes "EscapedPath serverURL = [] \<or> EscapedPath serverURL = str ''/''" and "length b = 12"
    and "\<forall>p. reparse (payload_url serverURL b p) = Inr (payload_url serverURL b p)"
  shows "reaches tok schs sc b (exchangeAMP ToUnicode ToASCII reparse parse tok (direct_server schs sc) (Inr b) serverURL None front)"
  unfolding reaches_def using assms(3)
  by (simp add: exchange_direct [OF assms(1,2)] direct_server_def) (simp add: payload_url_def readResponse_def hasLocation_def)

lemma reaches_cached:
  assumes "tokenizer_ok tok" and "EscapedPath serverURL = [] \<or> EscapedPath serverURL = str ''/''"
    and "EscapedPath cacheURL = [] \<or> EscapedPath cacheURL = str ''/''"
    and "Scheme serverURL = str ''https''" and "\<not> is_dots (escape (Hostname serverURL) encodePathSegment)"
    and "cacheable serverURL cacheURL (str ''c'')" and "length b = 12"
    and "amp_cache_ok tok (cache_site ToUnicode ToASCII serverURL cacheURL) cache (publishers schs sc serverURL elsewhere)"
    and "\<forall>p u. CacheURL ToUnicode ToASCII (payload_url serverURL b p) cacheURL (str ''c'') = Inr u \<longrightarrow> reparse_ok reparse u"
  shows "reaches tok schs sc b (exchangeAMP ToUnicode ToASCII reparse parse tok cache (Inr b) serverURL (Some cacheURL) front)"
  unfolding reaches_def
proof (intro allI impI)
  fix p page ps
  assume a: "p \<noteq> []" "armor_page buffer_Write [] ps = (page, None)"
    "server_response schs sc (request_path b p) = Inr \<lparr>StatusCode = 200, LocationHeader = [], Body = eof_reader page\<rparr>"
  have "cacheable (payload_url serverURL b p) cacheURL (str ''c'')"
    using assms(6) by (simp add: cacheable_def payload_url_def Hostname_def Port_def)
  then obtain u where u: "CacheURL ToUnicode ToASCII (payload_url serverURL b p) cacheURL (str ''c'') = Inr u"
    using str_http by (auto simp: CacheURL_cases cacheable_def)
  have o: "publishers schs sc serverURL elsewhere (escape (Hostname serverURL) encodePathSegment) (request_path b p) =
      Inr \<lparr>StatusCode = 200, LocationHeader = [], Body = eof_reader page\<rparr>" using a(3) by (simp add: publishers_def)
  obtain resp' where r: "exchangeAMP ToUnicode ToASCII reparse parse tok cache (Inr b) serverURL (Some cacheURL) front p = Return (readResponse tok parse resp')"
    "StatusCode resp' = 200" "LocationHeader resp' = []" "keeps_pre tok (eof_reader page) (Body resp')"
    by (rule exchange_cached [OF assms(8) o assms(2-5) u _ a(1) assms(7)]) (use assms(9) u in auto)
  obtain ts where "tok elementSizeLimit (eof_reader page) = (ts, EOF)" "pre_balanced ts False"
    by (rule page_tokens [OF assms(1) a(2)])
  then have "NewDecoder tok (Body resp') = NewDecoder tok (eof_reader page)" by (rule keeps_pre_decodes [OF r(4)])
  then show "exchangeAMP ToUnicode ToASCII reparse parse tok cache (Inr b) serverURL (Some cacheURL) front p = Return (NewDecoder tok (eof_reader page))"
    using r(1-3) by (simp add: readResponse_def hasLocation_def)
qed

section \<open>One poll\<close>

text \<open>
  One poll, for any way that reaches the server.
\<close>

lemma poll_carries:
  assumes "poll_ok c" and "quiet sch" and "\<forall>k. \<not> cancelled k" and "length (clientID c) = 8"
    and "\<forall>p \<in> set (stashed (pconn c) (remoteAddr c) @ outgoing (pconn c) (remoteAddr c)). length p < 2 ^ 20"
    and "filled (MaxPayload (adaptive c)) (length (clientID c)) True (stashed (pconn c) (remoteAddr c) @ outgoing (pconn c) (remoteAddr c)) = (taken, kept, queued)"
    and "conn_ok sc" and "\<forall>k. quiet (schs k)"
    and "\<forall>p \<in> set (stashed sc (clientID c) @ outgoing sc (clientID c)). length p < 2 ^ 20"
    and "bundled True 5000 (stashed sc (clientID c) @ outgoing sc (clientID c)) = (sent, held, rest)"
    and "length (concat (map data_chunk sent)) < maxResponseBody" and "tokenizer_ok tok"
    and "reaches tok schs sc b exch"
  obtains c1 payload r c2 sc' resp where
    "gather cancelled sch [] c = Return (c1, Some payload)" "exch payload = Return (Inr r)"
    "processIncoming c1 r = (c2, length (concat sent), None)"
    "ServeHTTP (\<lambda>_. []) schs buffer_Write ''GET'' (request_path b payload) sc [] = Return (sc', resp)"
    "recvQueue sc' = recvQueue (foldl (\<lambda>sc p. QueueIncoming sc p (clientID c)) sc taken)"
    "pconn c2 = foldl (\<lambda>pc p. QueueIncoming pc p (remoteAddr c)) (pconn c1) sent" "recvQueue (pconn c1) = recvQueue (pconn c)"
    "stashed (pconn c1) = (stashed (pconn c))(remoteAddr c := kept)" "outgoing (pconn c1) = (outgoing (pconn c))(remoteAddr c := queued)"
    "stashed sc' = (stashed sc)(clientID c := held)" "outgoing sc' = (outgoing sc)(clientID c := rest)"
    "poll_ok c2" "remoteAddr c2 = remoteAddr c" "clientID c2 = clientID c" "queuePacketConn.closed (pconn c1) = queuePacketConn.closed (pconn c)"
    "conn_ok sc'" "queuePacketConn.closed sc' = queuePacketConn.closed sc"
proof -
  let ?cid = "clientID c" and ?a = "remoteAddr c" and ?payload = "clientID c @ concat (map data_chunk taken)"
  obtain c1 where c1: "gather cancelled sch [] c = Return (c1, Some ?payload)" "poll_ok c1"
    "stashed (pconn c1) = (stashed (pconn c))(?a := kept)" "outgoing (pconn c1) = (outgoing (pconn c))(?a := queued)"
    "recvQueue (pconn c1) = recvQueue (pconn c)"
    using gather_payload [OF assms(1-3,5,6)] by blast
  have small: "\<forall>p \<in> set taken. length p < 2 ^ 20" "\<forall>p \<in> set sent. length p < 2 ^ 20"
    using filled_subset [OF assms(6)] assms(5) bundled_lengths [OF assms(10)] assms(9) by blast+
  obtain sc' resp ps where s: "ServeHTTP (\<lambda>_. []) schs buffer_Write ''GET'' (request_path b ?payload) sc [] = Return (sc', resp)"
    "status resp = 200" "armor_page buffer_Write [] ps = (body resp, None)"
    "NewDecoder tok (eof_reader (body resp)) = Inr (eof_reader (concat (map data_chunk sent)))"
    "recvQueue sc' = recvQueue (foldl (\<lambda>sc p. QueueIncoming sc p ?cid) sc taken)"
    "stashed sc' = (stashed sc)(?cid := held)" "outgoing sc' = (outgoing sc)(?cid := rest)"
    by (rule server_answers [OF assms(12,7,8,4) small(1) assms(9,10)])
  have "?payload \<noteq> []" using assms(4) by auto
  then have ex: "exch ?payload = Return (Inr (eof_reader (concat (map data_chunk sent))))"
    using reachesD [OF assms(13) _ s(3)] s(1,2,4) by (simp add: server_response_def)
  have "packet_stream sent (take maxResponseBody (concat (map data_chunk sent)))"
    using packet_stream_chunks [of sent] small(2) assms(11) by simp
  from processIncoming_stream [OF this, of c1] assms(11)
  have p: "processIncoming c1 (eof_reader (concat (map data_chunk sent))) =
      (c1\<lparr>pconn := foldl (\<lambda>pc p. QueueIncoming pc p (remoteAddr c1)) (pconn c1) sent\<rparr>, length (concat sent), None)" by simp
  have k: "remoteAddr c1 = ?a" "clientID c1 = ?cid" using gather_keeps [OF c1(1)] by simp_all
  have "conn_ok sc'" using ServeHTTP_conn_ok [OF assms(7) s(1)] .
  moreover have "queuePacketConn.closed sc' = queuePacketConn.closed sc" using ServeHTTP_closed [OF assms(8) s(1)] .
  moreover have "queuePacketConn.closed (pconn c1) = queuePacketConn.closed (pconn c)" using gather_closed [OF assms(2) c1(1)] .
  moreover note processIncoming_ok(1) [OF c1(2) p]
  ultimately show ?thesis using that [OF c1(1) ex p s(1)] c1(3-5) s(5-) k by simp
qed

text \<open>A client with a packet for the server, and a server with a packet for that client.\<close>

lemma sample_pair:
  obtains c :: "(bytes, bytes) PollingPacketConn" and sc :: "ClientID queuePacketConn" where
    "poll_ok c" "clientID c = replicate 8 7" "conn_ok sc"
    "stashed (pconn c) (remoteAddr c) = [[1, 2]]" "outgoing (pconn c) (remoteAddr c) = []"
    "stashed sc (replicate 8 7) = [[9]]" "outgoing sc (replicate 8 7) = []"
    "filled (MaxPayload (adaptive c)) (length (clientID c)) True (stashed (pconn c) (remoteAddr c) @ outgoing (pconn c) (remoteAddr c)) = ([[1, 2]], [], [])"
    "bundled True 5000 (stashed sc (clientID c) @ outgoing sc (clientID c)) = ([[9]], [], [])"
    "length (concat (map data_chunk [[9]])) < maxResponseBody"
proof -
  obtain c :: "(bytes, bytes) PollingPacketConn" where c: "poll_ok c" "remoteAddr c = str ''server''" "clientID c = replicate 8 7"
    "stashed (pconn c) = (stashed (pconn sample_conn))(str ''server'' := [[1, 2]])" "outgoing (pconn c) = outgoing (pconn sample_conn)"
    by (rule sample_waiting)
  have e: "stashed (NewQueuePacketConn x) y = []" "outgoing (NewQueuePacketConn x) y = []" for x y :: ClientID
    by (simp_all add: stashed_def outgoing_def NewQueuePacketConn_def peers_def NewRemoteMap_def)
  obtain sc :: "ClientID queuePacketConn" where sc: "conn_ok sc"
    "stashed sc = (stashed (NewQueuePacketConn []))(replicate 8 7 := [[9]])" "outgoing sc = outgoing (NewQueuePacketConn [])"
    by (rule ConnStash_empty [where c = "NewQueuePacketConn ([] :: ClientID)" and a = "replicate 8 7" and p = "[9]", OF NewQueuePacketConn_ok])
      (simp_all add: e)
  have w: "stashed (pconn c) (remoteAddr c) = [[1, 2]]" "outgoing (pconn c) (remoteAddr c) = []"
    "stashed sc (replicate 8 7) = [[9]]" "outgoing sc (replicate 8 7) = []" using c(2-) sc(2,3) e by simp_all
  have "length (concat (map data_chunk [[9]])) < maxResponseBody" using data_chunk_length [of "[9]"] by (simp add: maxResponseBody_def)
  from that [OF c(1,3) sc(1) w _ _ this] show ?thesis using w c(3) by simp
qed

end
