(* ===== verification/Session_Setup.thy ===== *)
theory Session_Setup
  imports Poll_Exchange
begin

text \<open>
  Dialling a Noise session through the poll loop and the HTTP handler: the first poll carries the client's handshake message to the
  server, the Noise loop of the server answers it, and the second poll carries the answer back.
\<close>

section \<open>The server's side\<close>

lemma WriteTo_stashed:
  assumes "conn_ok c" and "\<not> queuePacketConn.closed c" and "WriteTo c p a t = Return (c', res)"
  shows "stashed c' = stashed c"
proof -
  obtain m r cs b where w: "Lookup (remotes c) a t = Return (m, r)" "rm_ok m" "peers m = (peers (remotes c))(a \<mapsto> r)"
    "try_send (chans m) (rSendQueue r) p = Return (cs, b)" "WriteTo c p a t = Return (c\<lparr>remotes := m\<lparr>chans := cs\<rparr>\<rparr>, Inr (length p))"
    by (rule WriteTo_open [OF assms(1,2), of a t p]) blast
  have "rm_ok (remotes c)" using assms(1) by (simp add: conn_ok_def)
  then have m: "stashed (c\<lparr>remotes := m\<rparr>) = stashed c" using w(1) by (rule Lookup_stashed)
  have "peers m a = Some r" using w(3) by simp
  moreover have "cs = chans m \<or> (\<exists>x. cs = (chans m)[rSendQueue r := x])" using w(4) by (auto simp: try_send_def split: if_splits)
  ultimately have "stashed (c\<lparr>remotes := m\<lparr>chans := cs\<rparr>\<rparr>) = stashed c" using stashed_update(1) [OF w(2)] m by auto
  then show ?thesis using w(5) assms(3) by simp
qed

lemma handshake_iteration:
  assumes "noise_ok s" and "\<not> queuePacketConn.closed (noiseConn s)" and "sessions s a = None"
    and "ch_buf (recvQueue (noiseConn s)) = (MsgTypeHandshakeInit # m1, a) # rest" and "length m1 < 1500"
    and "AcceptHandshake L [MsgTypeHandshakeResp] m1 priv = Return (Inr (server, resp))"
    and "length (outgoing (noiseConn s) a) < queueSize"
  obtains nc where "noise_iteration L temporary priv b now s =
      Return (s\<lparr>noiseConn := nc, sessions := (sessions s)(a \<mapsto> length (sess_store s)),
               sess_store := sess_store s @ [server], senders := senders s @ [Starting a]\<rparr>, [])"
    "conn_ok nc" "\<not> queuePacketConn.closed nc" "stashed nc = stashed (noiseConn s)"
    "outgoing nc = (outgoing (noiseConn s))(a := outgoing (noiseConn s) a @ [resp])"
proof -
  let ?c = "(noiseConn s)\<lparr>recvQueue := (recvQueue (noiseConn s))\<lparr>ch_buf := rest\<rparr>\<rparr>"
  have ok: "conn_ok ?c" using assms(1,4) by (auto simp: noise_ok_def conn_ok_def)
  have same: "outgoing ?c = outgoing (noiseConn s)" "stashed ?c = stashed (noiseConn s)"
    by (simp_all add: outgoing_def stashed_def fun_eq_iff split: option.splits)
  have r: "ReadMessageFrom (noiseConn s) b = Return (?c, Some (Inr (MsgTypeHandshakeInit, m1, a)))"
    using ReadMessageFrom_queue [OF assms(2)] assms(4,5) by simp
  obtain nc where nc: "WriteTo ?c resp a now = Return (nc, Inr (length resp))" "conn_ok nc"
    "outgoing nc = (outgoing ?c)(a := outgoing ?c a @ [resp])"
    using WriteTo_appends [OF ok, of resp a now] assms(2,7) same by auto
  have "\<not> queuePacketConn.closed nc" using WriteTo_frame [OF nc(1)] assms(2) by simp
  moreover have "stashed nc = stashed (noiseConn s)" using WriteTo_stashed [OF ok _ nc(1)] assms(2) same by simp
  moreover have "noise_iteration L temporary priv b now s =
      Return (s\<lparr>noiseConn := nc, sessions := (sessions s)(a \<mapsto> length (sess_store s)),
               sess_store := sess_store s @ [server], senders := senders s @ [Starting a]\<rparr>, [])"
    using r nc(1) assms(3,6) by (simp add: noise_iteration_def handle_message_def Let_def)
  ultimately show ?thesis using that nc(2,3) same by simp
qed

section \<open>Two polls\<close>

text \<open>Like the theorem below, for any two ways that reach the server.\<close>

lemma dial_by_polls:
  assumes "handshake_ok L matched" and "appends_ok L" and "X25519_base L priv = Inr pub"
    and "InitiateHandshake L [] pub = Inr (pre, m1)" and "AcceptHandshake L [MsgTypeHandshakeResp] m1 priv = Return (Inr (server, resp))"
    and "take 1 resp = [MsgTypeHandshakeResp]" and "length m1 < 1500" and "length resp \<le> 1500"
    and "poll_ok c" and "\<not> queuePacketConn.closed (pconn c)" and "length (clientID c) = 8" and "ch_buf (recvQueue (pconn c)) = []"
    and "stashed (pconn c) (remoteAddr c) = []" and "outgoing (pconn c) (remoteAddr c) = []"
    and "noise_ok s" and "\<not> queuePacketConn.closed (noiseConn s)" and "sessions s (clientID c) = None"
    and "ch_buf (recvQueue (noiseConn s)) = []" and "stashed (noiseConn s) (clientID c) = []" and "outgoing (noiseConn s) (clientID c) = []"
    and "quiet sch" and "quiet sch'" and "\<forall>k. quiet (schs k)" and "\<forall>k. quiet (schs' k)" and "\<forall>k. \<not> cancelled k" and "tokenizer_ok tok"
    and "reaches tok schs (noiseConn s) b exch" and "\<And>sc. reaches tok schs' sc b' (exch' sc)"
  shows "\<exists>pc c1 payload1 r1 c2 sc1 resp1 s2 c3 payload2 r2 c4 pc' client j.
    noiseDial_send L (pconn c) (remoteAddr c) pub now = Return (pc, Inr pre) \<and>
    gather cancelled sch [] (c\<lparr>pconn := pc\<rparr>) = Return (c1, Some payload1) \<and> exch payload1 = Return (Inr r1) \<and> processIncoming c1 r1 = (c2, 0, None) \<and>
    ServeHTTP (\<lambda>_. []) schs buffer_Write ''GET'' (request_path b payload1) (noiseConn s) [] = Return (sc1, resp1) \<and>
    noise_iteration L temporary priv pk now' (s\<lparr>noiseConn := sc1\<rparr>) = Return (s2, []) \<and>
    gather cancelled sch' [] c2 = Return (c3, Some payload2) \<and> exch' (noiseConn s2) payload2 = Return (Inr r2) \<and>
    processIncoming c3 r2 = (c4, length resp, None) \<and>
    noiseDial_receive L temporary pk' pre (pconn c4) = Some (Return (pc', Some (Inr \<lparr>sess = client, packetConn = pc'\<rparr>))) \<and>
    sessions s2 (clientID c) = Some j \<and> fresh_pair L matched client (sess_store s2 ! j)"
proof -
  let ?init = "MsgTypeHandshakeInit # m1" and ?a = "remoteAddr c" and ?cid = "clientID c"
  have len: "length ?init < 2 ^ 20" "length resp < 2 ^ 20" "length (concat (map data_chunk [resp])) < maxResponseBody" "resp \<noteq> []"
    using assms(6-8) data_chunk_length [of resp] by (auto simp: maxResponseBody_def)
  obtain pc where d: "noiseDial_send L (pconn c) ?a pub now = Return (pc, Inr pre)" "conn_ok pc"
    "WriteTo (pconn c) ?init ?a now = Return (pc, Inr (length ?init))" "outgoing pc = (outgoing (pconn c))(?a := [?init])"
    by (rule noiseDial_sends [OF assms(2) _ assms(10) _ assms(4), where addr = ?a and now = now])
      (use assms(9,14) in \<open>auto simp: poll_ok_def queueSize_def\<close>)
  have pc: "recvQueue pc = recvQueue (pconn c)" "\<not> queuePacketConn.closed pc" "stashed pc = stashed (pconn c)" "poll_ok (c\<lparr>pconn := pc\<rparr>)"
    using WriteTo_frame [OF d(3)] assms(9,10) WriteTo_stashed [OF _ assms(10) d(3)] d(2) by (auto simp: poll_ok_def)
  obtain c1 payload1 r1 c2 sc1 resp1 where p1:
    "gather cancelled sch [] (c\<lparr>pconn := pc\<rparr>) = Return (c1, Some payload1)" "exch payload1 = Return (Inr r1)" "processIncoming c1 r1 = (c2, 0, None)"
    "ServeHTTP (\<lambda>_. []) schs buffer_Write ''GET'' (request_path b payload1) (noiseConn s) [] = Return (sc1, resp1)"
    "recvQueue sc1 = recvQueue (QueueIncoming (noiseConn s) ?init ?cid)" "pconn c2 = pconn c1" "recvQueue (pconn c1) = recvQueue pc"
    "stashed (pconn c1) ?a = []" "outgoing (pconn c1) ?a = []" "stashed sc1 ?cid = []" "outgoing sc1 ?cid = []"
    "poll_ok c2" "remoteAddr c2 = ?a" "clientID c2 = ?cid" "\<not> queuePacketConn.closed (pconn c1)" "conn_ok sc1" "\<not> queuePacketConn.closed sc1"
    by (rule poll_carries [OF pc(4) assms(21,25), where taken = "[?init]" and kept = "[]" and queued = "[]" and sc = "noiseConn s" and schs = schs
          and sent = "[]" and held = "[]" and rest = "[]" and tok = tok and b = b and exch = exch])
      (use assms(11,13,15,16,19,20,23,26,27) len(1) d(4) pc in \<open>simp_all add: noise_ok_def maxResponseBody_def\<close>)
  have q1: "ch_buf (recvQueue sc1) = [(?init, ?cid)]"
    using p1(5) assms(15,16,18) by (simp add: QueueIncoming_def noise_ok_def conn_ok_def queueSize_def)
  obtain nc where n: "noise_iteration L temporary priv pk now' (s\<lparr>noiseConn := sc1\<rparr>) =
      Return (s\<lparr>noiseConn := nc, sessions := (sessions s)(?cid \<mapsto> length (sess_store s)),
               sess_store := sess_store s @ [server], senders := senders s @ [Starting ?cid]\<rparr>, [])"
    "conn_ok nc" "stashed nc = stashed sc1" "outgoing nc = (outgoing sc1)(?cid := [resp])"
    by (rule handshake_iteration [of "s\<lparr>noiseConn := sc1\<rparr>" ?cid m1 "[]" L priv server resp])
      (use assms(5,7,15,17) p1(11,16,17) q1 in \<open>auto simp: noise_ok_def queueSize_def\<close>)
  obtain c3 payload2 r2 c4 where p2:
    "gather cancelled sch' [] c2 = Return (c3, Some payload2)" "exch' nc payload2 = Return (Inr r2)" "processIncoming c3 r2 = (c4, length resp, None)"
    "pconn c4 = QueueIncoming (pconn c3) resp ?a" "recvQueue (pconn c3) = recvQueue (pconn c2)" "\<not> queuePacketConn.closed (pconn c3)"
    by (rule poll_carries [OF p1(12) assms(22,25), where taken = "[]" and kept = "[]" and queued = "[]" and sc = nc and schs = schs'
          and sent = "[resp]" and held = "[]" and rest = "[]" and tok = tok and b = b' and exch = "exch' nc"])
      (use assms(11,24,26,28) len p1(6,8-11,13-15) n(2-4) in simp_all)
  obtain "poll_ok c3" using gather_ok [OF p1(12), of cancelled sch' "[]"] p2(1) by auto
  then have "ch_buf (recvQueue (pconn c4)) = [] @ (resp, ?a) # []" "\<not> queuePacketConn.closed (pconn c4)"
    using p2(4-6) p1(6,7) pc(1) assms(12) by (simp_all add: QueueIncoming_def poll_ok_def conn_ok_def queueSize_def)
  from noiseDial_finishes [where temporary = temporary and pick = pk', OF assms(1,3-6,8) this(2,1)] obtain client pc' where
    "fresh_pair L matched client server" "noiseDial_receive L temporary pk' pre (pconn c4) = Some (Return (pc', Some (Inr \<lparr>sess = client, packetConn = pc'\<rparr>)))"
    by (auto simp: Let_def)
  then show ?thesis using d(1) p1(1-4) n(1) p2(1-3) by (intro exI conjI) (assumption | simp)+
qed

text \<open>
  C1: A session takes two polls to set up. A client that dials with the server's public key, with nothing else to send, queues one message. Its first
  poll brings this message to the handler, and the answer is an empty page; the next iteration of the server's Noise loop accepts the
  handshake, enters a session for the client and queues the response. The second poll, which has nothing to send, brings the response back, and the dial
  ends with a session whose keys match those of the server's session, both unused. (The HTTP exchanges are direct, with
  or without domain fronting.)
\<close>

theorem session_by_two_polls:
  assumes "handshake_ok L matched" and "appends_ok L" and "X25519_base L priv = Inr pub"
    and "InitiateHandshake L [] pub = Inr (pre, m1)" and "AcceptHandshake L [MsgTypeHandshakeResp] m1 priv = Return (Inr (server, resp))"
    and "take 1 resp = [MsgTypeHandshakeResp]" and "length m1 < 1500" and "length resp \<le> 1500"
    and "poll_ok c" and "\<not> queuePacketConn.closed (pconn c)" and "length (clientID c) = 8" and "ch_buf (recvQueue (pconn c)) = []"
    and "stashed (pconn c) (remoteAddr c) = []" and "outgoing (pconn c) (remoteAddr c) = []"
    and "noise_ok s" and "\<not> queuePacketConn.closed (noiseConn s)" and "sessions s (clientID c) = None"
    and "ch_buf (recvQueue (noiseConn s)) = []" and "stashed (noiseConn s) (clientID c) = []" and "outgoing (noiseConn s) (clientID c) = []"
    and "quiet sch" and "quiet sch'" and "\<forall>k. quiet (schs k)" and "\<forall>k. quiet (schs' k)" and "\<forall>k. \<not> cancelled k" and "tokenizer_ok tok"
    and "EscapedPath serverURL = [] \<or> EscapedPath serverURL = str ''/''" and "length b = 12" and "length b' = 12"
    and "\<forall>b p. reparse (payload_url serverURL b p) = Inr (payload_url serverURL b p)"
  shows "\<exists>pc c1 payload1 r1 c2 sc1 resp1 s2 c3 payload2 r2 c4 pc' client j.
    noiseDial_send L (pconn c) (remoteAddr c) pub now = Return (pc, Inr pre) \<and>
    gather cancelled sch [] (c\<lparr>pconn := pc\<rparr>) = Return (c1, Some payload1) \<and>
    exchangeAMP ToUnicode ToASCII reparse parse tok (direct_server schs (noiseConn s)) (Inr b) serverURL None front payload1 = Return (Inr r1) \<and>
    processIncoming c1 r1 = (c2, 0, None) \<and>
    ServeHTTP (\<lambda>_. []) schs buffer_Write ''GET'' (request_path b payload1) (noiseConn s) [] = Return (sc1, resp1) \<and>
    noise_iteration L temporary priv pk now' (s\<lparr>noiseConn := sc1\<rparr>) = Return (s2, []) \<and>
    gather cancelled sch' [] c2 = Return (c3, Some payload2) \<and>
    exchangeAMP ToUnicode ToASCII reparse parse tok (direct_server schs' (noiseConn s2)) (Inr b') serverURL None front payload2 = Return (Inr r2) \<and>
    processIncoming c3 r2 = (c4, length resp, None) \<and>
    noiseDial_receive L temporary pk' pre (pconn c4) = Some (Return (pc', Some (Inr \<lparr>sess = client, packetConn = pc'\<rparr>))) \<and>
    sessions s2 (clientID c) = Some j \<and> fresh_pair L matched client (sess_store s2 ! j)"
  by (rule dial_by_polls [OF assms(1-26), where exch' = "\<lambda>sc. exchangeAMP ToUnicode ToASCII reparse parse tok (direct_server schs' sc) (Inr b') serverURL None front"])
    (use assms(27-30) in \<open>auto intro!: reaches_direct\<close>)

lemma noise_start_simps: "noiseConn (noise_start a b) = a" "sessions (noise_start a b) x = None"
  by (simp_all add: noise_start_def)

theorem session_by_two_polls_witness:
  "\<exists>pc c1 payload1 r1 c2 sc1 resp1 s2 c3 payload2 r2 c4 pc' client j pre.
    noiseDial_send xor_lib (pconn sample_conn) (str ''server'') [5] 0 = Return (pc, Inr pre) \<and>
    gather (\<lambda>_. False) sample_sched [] (sample_conn\<lparr>pconn := pc\<rparr>) = Return (c1, Some payload1) \<and>
    exchangeAMP Inr Inr Inr (\<lambda>_. Inl EOF) simple_tokenizer (direct_server (\<lambda>_. sample_sched) (NewQueuePacketConn [])) (Inr (replicate 12 5)) sample_server None [] payload1 =
      Return (Inr r1) \<and>
    processIncoming c1 r1 = (c2, 0, None) \<and>
    ServeHTTP (\<lambda>_. []) (\<lambda>_. sample_sched) buffer_Write ''GET'' (request_path (replicate 12 5) payload1) (NewQueuePacketConn []) [] = Return (sc1, resp1) \<and>
    noise_iteration xor_lib (\<lambda>_. False) [5] True 0 ((noise_start (NewQueuePacketConn []) (NewQueuePacketConn []))\<lparr>noiseConn := sc1\<rparr>) = Return (s2, []) \<and>
    gather (\<lambda>_. False) sample_sched [] c2 = Return (c3, Some payload2) \<and>
    exchangeAMP Inr Inr Inr (\<lambda>_. Inl EOF) simple_tokenizer (direct_server (\<lambda>_. sample_sched) (noiseConn s2)) (Inr (replicate 12 6)) sample_server None [] payload2 =
      Return (Inr r2) \<and>
    processIncoming c3 r2 = (c4, 2, None) \<and>
    noiseDial_receive xor_lib (\<lambda>_. False) True pre (pconn c4) = Some (Return (pc', Some (Inr \<lparr>sess = client, packetConn = pc'\<rparr>))) \<and>
    sessions s2 (replicate 8 7) = Some j \<and> fresh_pair xor_lib same_key client (sess_store s2 ! j)"
proof -
  obtain pre where i: "InitiateHandshake xor_lib [] [5] = Inr (pre, [7])" by (simp add: InitiateHandshake_def xor_lib_def)
  obtain server where a: "AcceptHandshake xor_lib [MsgTypeHandshakeResp] [7] [5] = Return (Inr (server, [2, 7]))"
    by (simp add: AcceptHandshake_def PubkeyFromPrivkey_def xor_lib_def MsgTypeHandshakeResp_def)
  have e: "stashed (NewQueuePacketConn x) y = []" "outgoing (NewQueuePacketConn x) y = []" "\<not> queuePacketConn.closed (NewQueuePacketConn x)"
    "ch_buf (recvQueue (NewQueuePacketConn x)) = []" for x y :: bytes
    by (simp_all add: stashed_def outgoing_def NewQueuePacketConn_def peers_def NewRemoteMap_def)
  have c: "remoteAddr sample_conn = str ''server''" "clientID sample_conn = replicate 8 7" "pconn sample_conn = NewQueuePacketConn (replicate 8 7)"
    by (simp_all add: sample_conn_def NewPollingPacketConn_def)
  have "X25519_base xor_lib [5] = Inr [5]" by (simp add: xor_lib_def)
  from session_by_two_polls [where c = sample_conn and s = "noise_start (NewQueuePacketConn []) (NewQueuePacketConn [])" and sch = sample_sched and sch' = sample_sched
      and schs = "\<lambda>_. sample_sched" and schs' = "\<lambda>_. sample_sched" and cancelled = "\<lambda>_. False" and tok = simple_tokenizer and serverURL = sample_server
      and b = "replicate 12 5" and b' = "replicate 12 6" and reparse = Inr and ToUnicode = Inr and ToASCII = Inr and parse = "\<lambda>_. Inl EOF" and front = "[]"
      and temporary = "\<lambda>_. False" and now = 0 and now' = 0 and pk = True and pk' = True,
      OF xor_lib_handshake_ok xor_lib_appends_ok this i a _ _ _ sample_conn_ok]
  show ?thesis using e c sample_server_path simple_tokenizer_ok by (auto simp: MsgTypeHandshakeResp_def noise_start_ok NewQueuePacketConn_ok noise_start_simps)
qed

end
