(* ===== verification/Cache_Failover.thy ===== *)
theory Cache_Failover
  imports Polling Amp_Exchange
begin

text \<open>
  The function a session polls with, from \<^verbatim>\<open>dialSession\<close> of champa-client/main.go, and the goroutine of a poll with it: a poll asks the cache
  that is the rotor's current one when the poll starts, and what comes of it is recorded in the quota manager and the same rotor. So the polls
  leave a cache that refuses them.
\<close>

section \<open>Polling through the rotor\<close>

definition pollFunc ::
  "(bytes \<Rightarrow> goerror + bytes) \<Rightarrow> (bytes \<Rightarrow> goerror + bytes) \<Rightarrow> (url \<Rightarrow> goerror + url) \<Rightarrow> (bytes \<Rightarrow> goerror + url) \<Rightarrow> tokenizer \<Rightarrow>
   (http_request \<Rightarrow> goerror + http_response) \<Rightarrow> url \<Rightarrow> bytes \<Rightarrow> url CacheRotor \<Rightarrow> goerror + bytes \<Rightarrow> bytes \<Rightarrow> (goerror + reader) run" where
  "pollFunc ToUnicode ToASCII reparse parse tok rt serverURL front r random p =
     run_bind (rotor_Current r) (\<lambda>cacheURL. exchangeAMP ToUnicode ToASCII reparse parse tok rt random serverURL cacheURL front p)"

text \<open>The goroutine of a poll, with the result of the poll function for the rotor as it is when the poll starts.\<close>

definition poll_goroutine ::
  "(url CacheRotor \<Rightarrow> goerror + bytes \<Rightarrow> bytes \<Rightarrow> (goerror + reader) run) \<Rightarrow> (url \<Rightarrow> bytes) \<Rightarrow> (nat \<Rightarrow> int) \<Rightarrow> int \<Rightarrow> goerror + bytes \<Rightarrow> bytes \<Rightarrow>
   ('a, url) PollingPacketConn \<Rightarrow> ('a, url) PollingPacketConn run" where
  "poll_goroutine poll host ts start random snap c =
     run_bind (poll (rotor c) random snap) (\<lambda>res.
     finish_poll host ts start c (case res of Inl e \<Rightarrow> PollError e | Inr body \<Rightarrow> PollBody body))"

text \<open>Polls one after the other: for each the random bytes, the payload, the time it starts, and the readings of the clock.\<close>

type_synonym attempt = "bytes \<times> bytes \<times> int \<times> (nat \<Rightarrow> int)"

fun attempts ::
  "(url CacheRotor \<Rightarrow> goerror + bytes \<Rightarrow> bytes \<Rightarrow> (goerror + reader) run) \<Rightarrow> (url \<Rightarrow> bytes) \<Rightarrow> attempt list \<Rightarrow>
   ('a, url) PollingPacketConn \<Rightarrow> ('a, url) PollingPacketConn run" where
  "attempts poll host [] c = Return c"
| "attempts poll host ((b, p, start, ts) # xs) c =
     run_bind (poll_goroutine poll host ts start (Inr b) p c) (attempts poll host xs)"

section \<open>Failing over\<close>

text \<open>A cache that redirects every request: its quota is used up.\<close>

definition redirects :: "(http_request \<Rightarrow> goerror + http_response) \<Rightarrow> bool" where
  "redirects rt \<longleftrightarrow> (\<forall>req. \<exists>resp. rt req = Inr resp \<and> (StatusCode resp = 301 \<or> StatusCode resp = 302))"

lemma pollFunc_redirected:
  assumes "redirects rt" and "rotor_Current r = Return cacheURL" and "requestURL ToUnicode ToASCII serverURL cacheURL (take 12 b) p = Inr u" and "reparse u = Inr v"
  shows "pollFunc ToUnicode ToASCII reparse parse tok rt serverURL front r (Inr b) p = Return (Inl (ErrCacheQuota ''status''))"
proof -
  let ?req = "\<lparr>Method = ''GET'', URL = v\<lparr>Host := frontHost front (Host v)\<rparr>, HostHeader = Host v, UserAgent = []\<rparr>"
  obtain resp where "rt ?req = Inr resp" "StatusCode resp = 301 \<or> StatusCode resp = 302" using assms(1) by (auto simp: redirects_def)
  then show ?thesis using assms(2-4) by (auto simp: pollFunc_def exchangeAMP_def cacheBreaker_def readResponse_def Let_def)
qed

text \<open>A quota error that follows its predecessors within the window is counted; the fifteenth moves the rotor on.\<close>

definition counted :: "url CacheRotor \<Rightarrow> int \<Rightarrow> nat \<Rightarrow> bool" where
  "counted r since n \<longleftrightarrow> errCount r ! nat (rcur r) = int n \<and> (lastErr r ! nat (rcur r) = 0 \<or> since \<le> lastErr r ! nat (rcur r))"

lemma counted_error:
  assumes "rotor_ok r" and "counted r since n" and "length (caches r) > 1" and "n < 15" and "since \<le> t2" and "t1 \<le> since + cacheErrorWindow"
  obtains r' where "rotor_RecordQuotaError host r t1 t2 = Return r'" "rotor_ok r'" "caches r' = caches r"
    "if n < 14 then rcur r' = rcur r \<and> counted r' since (Suc n) else rcur r' = (rcur r + 1) mod int (length (caches r))"
proof -
  have i: "nat (rcur r) < length (errCount r)" "nat (rcur r) < length (lastErr r)" using assms(1) by (auto simp: rotor_ok_def)
  have "bumped r t1 = int n + 1"
    using assms(2,6) by (auto simp: bumped_def counted_def Let_def timeSub_def cacheErrorWindow_def minute_def second_def)
  moreover obtain r' where "rotor_RecordQuotaError host r t1 t2 = Return r'" "rotor_ok r'" "caches r' = caches r"
    using rotor_RecordQuotaError_ok [OF assms(1)] by blast
  ultimately show ?thesis
    using rotor_RecordQuotaError_cases [OF assms(1), of host t1 t2] assms(3-5) i
    by (intro that [of r']) (auto simp: Let_def counted_def split: if_splits)
qed

lemma quota_poll:
  assumes "poll_ok c" and "poll (rotor c) (Inr b) p = Return (Inl (ErrCacheQuota s))"
    and "counted (rotor c) since n" and "length (caches (rotor c)) > 1" and "n < 15" and "\<forall>k. since \<le> ts k \<and> ts k \<le> since + cacheErrorWindow"
  obtains c' where "poll_goroutine poll host ts start (Inr b) p c = Return c'" "poll_ok c'" "caches (rotor c') = caches (rotor c)"
    "if n < 14 then rcur (rotor c') = rcur (rotor c) \<and> counted (rotor c') since (Suc n)
     else rcur (rotor c') = (rcur (rotor c) + 1) mod int (length (caches (rotor c)))"
proof -
  have r: "rotor_ok (rotor c)" using assms(1) by (simp add: poll_ok_def)
  obtain r' where r': "rotor_RecordQuotaError host (rotor c) (ts 5) (ts 6) = Return r'" "caches r' = caches (rotor c)"
    "if n < 14 then rcur r' = rcur (rotor c) \<and> counted r' since (Suc n) else rcur r' = (rcur (rotor c) + 1) mod int (length (caches (rotor c)))"
    by (rule counted_error [OF r assms(3-5), of "ts 6" "ts 5"]) (use assms(6) in auto)
  obtain c' where f: "finish_poll host ts start c (PollError (ErrCacheQuota s)) = Return c'" "poll_ok c'"
    by (rule finish_poll_ok [OF assms(1)])
  then have "rotor c' = r'" using r'(1) by (auto simp: finish_poll_def is_quota_error_def semRelease_def split: prod.splits)
  then show ?thesis using that [of c'] f r' assms(2) by (simp add: poll_goroutine_def)
qed

lemma rotor_Current_cache: "rotor_ok r \<Longrightarrow> rotor_Current r = Return (caches r ! nat (rcur r))"
  by (simp add: rotor_Current_def rotor_ok_def)

lemma redirected_attempts:
  assumes "\<And>r b p. rotor_Current r = Return cacheURL \<Longrightarrow> poll r (Inr b) p = Return (Inl (ErrCacheQuota s))"
  shows "poll_ok c \<Longrightarrow> rotor_Current (rotor c) = Return cacheURL \<Longrightarrow> counted (rotor c) since n \<Longrightarrow> length (caches (rotor c)) > 1 \<Longrightarrow> n < 15 \<Longrightarrow>
    n + length xs \<le> 15 \<Longrightarrow> \<forall>(b, p, start, ts) \<in> set xs. \<forall>k. since \<le> ts k \<and> ts k \<le> since + cacheErrorWindow \<Longrightarrow>
    \<exists>c'. attempts poll host xs c = Return c' \<and> poll_ok c' \<and> caches (rotor c') = caches (rotor c) \<and>
      rcur (rotor c') = (if n + length xs < 15 then rcur (rotor c) else (rcur (rotor c) + 1) mod int (length (caches (rotor c))))"
proof (induction xs arbitrary: c n)
  case (Cons x xs)
  obtain b p start ts where x: "x = (b, p, start, ts)" by (cases x) auto
  have ts: "\<forall>k. since \<le> ts k \<and> ts k \<le> since + cacheErrorWindow" using Cons.prems(7) x by auto
  obtain c1 where c1: "poll_goroutine poll host ts start (Inr b) p c = Return c1" "poll_ok c1" "caches (rotor c1) = caches (rotor c)"
    "if n < 14 then rcur (rotor c1) = rcur (rotor c) \<and> counted (rotor c1) since (Suc n)
     else rcur (rotor c1) = (rcur (rotor c) + 1) mod int (length (caches (rotor c)))"
    by (rule quota_poll [where poll = poll and b = b and p = p, OF Cons.prems(1) assms [OF Cons.prems(2)] Cons.prems(3-5) ts])
  show ?case
  proof (cases "n < 14")
    case True
    have "rotor_ok (rotor c)" "rotor_ok (rotor c1)" using Cons.prems(1) c1(2) by (simp_all add: poll_ok_def)
    then have "rotor_Current (rotor c1) = Return cacheURL" using Cons.prems(2) c1(3,4) True by (simp add: rotor_Current_cache)
    then show ?thesis using Cons.IH [OF c1(2), of "Suc n"] Cons.prems(4,6,7) c1 True by (auto simp: x)
  next
    case False
    then have "xs = []" using Cons.prems(6) by (cases xs) simp_all
    then show ?thesis using False Cons.prems(5,6) c1 by (simp add: x)
  qed
qed simp

text \<open>
  C38: Polls leave a cache whose quota is used up. While the current cache redirects the requests, each poll ends in a quota error, and
  fourteen of them, within a quarter of an hour, change nothing; the fifteenth makes the next cache of the list the current one (or the server
  itself, if direct mode is in the list), which the next poll asks. Nothing in between panics.
\<close>

theorem polls_fail_over:
  assumes "poll_ok c" and "rotor_Current (rotor c) = Return cacheURL" and "length (caches (rotor c)) > 1"
    and "errCount (rotor c) ! nat (rcur (rotor c)) = 0" and "lastErr (rotor c) ! nat (rcur (rotor c)) = 0"
    and "redirects rt" and "\<forall>b p. \<exists>u v. requestURL ToUnicode ToASCII serverURL cacheURL b p = Inr u \<and> reparse u = Inr v"
    and "length xs \<le> 15" and "\<forall>(b, p, start, ts) \<in> set xs. \<forall>k. since \<le> ts k \<and> ts k \<le> since + 15 * minute"
  shows "\<exists>c'. attempts (pollFunc ToUnicode ToASCII reparse parse tok rt serverURL front) host xs c = Return c' \<and> poll_ok c' \<and>
    (\<forall>rt' random p. pollFunc ToUnicode ToASCII reparse parse tok rt' serverURL front (rotor c') random p =
       exchangeAMP ToUnicode ToASCII reparse parse tok rt' random serverURL
         (if length xs < 15 then cacheURL else caches (rotor c) ! nat ((rcur (rotor c) + 1) mod int (length (caches (rotor c))))) front p)"
proof -
  have "pollFunc ToUnicode ToASCII reparse parse tok rt serverURL front r (Inr b) p = Return (Inl (ErrCacheQuota ''status''))"
    if "rotor_Current r = Return cacheURL" for r b p
  proof -
    obtain u v where "requestURL ToUnicode ToASCII serverURL cacheURL (take 12 b) p = Inr u" "reparse u = Inr v" using assms(7) by blast
    then show ?thesis by (rule pollFunc_redirected [OF assms(6) that])
  qed
  from redirected_attempts [where poll = "pollFunc ToUnicode ToASCII reparse parse tok rt serverURL front" and n = 0 and xs = xs and since = since and host = host, OF this assms(1,2)] assms(3-5,8,9)
  obtain c' where c': "attempts (pollFunc ToUnicode ToASCII reparse parse tok rt serverURL front) host xs c = Return c'" "poll_ok c'"
    "caches (rotor c') = caches (rotor c)"
    "rcur (rotor c') = (if length xs < 15 then rcur (rotor c) else (rcur (rotor c) + 1) mod int (length (caches (rotor c))))"
    by (auto simp: counted_def cacheErrorWindow_def)
  have "rotor_ok (rotor c)" "rotor_ok (rotor c')" using assms(1) c'(2) by (simp_all add: poll_ok_def)
  then have "rotor_Current (rotor c') = Return (if length xs < 15 then cacheURL else caches (rotor c) ! nat ((rcur (rotor c) + 1) mod int (length (caches (rotor c)))))"
    using c'(3,4) assms(2) by (simp add: rotor_Current_cache)
  then show ?thesis using c'(1,2) by (auto simp: pollFunc_def)
qed

theorem polls_fail_over_witness:
  "\<exists>c c' :: (bytes, url) PollingPacketConn. caches (rotor c) = [Some sample_cache, None] \<and> rcur (rotor c) = 0 \<and>
     attempts (pollFunc Inr Inr sample_reparse (\<lambda>_. Inl EOF) simple_tokenizer (\<lambda>_. Inr \<lparr>StatusCode = 302, LocationHeader = [], Body = eof_reader []\<rparr>) sample_server [])
       Host (replicate 15 (replicate 12 5, [1, 2, 3], 7, \<lambda>_. 8)) c = Return c' \<and>
     (\<forall>rt. pollFunc Inr Inr sample_reparse (\<lambda>_. Inl EOF) simple_tokenizer rt sample_server [] (rotor c') (Inr (replicate 12 6)) [1] =
       exchangeAMP Inr Inr sample_reparse (\<lambda>_. Inl EOF) simple_tokenizer rt (Inr (replicate 12 6)) sample_server None [] [1])"
proof -
  let ?r = "\<lparr>caches = [Some sample_cache, None], rcur = 0, errCount = [0, 0], lastErr = [0, 0]\<rparr>"
  let ?c = "NewPollingPacketConn (str ''server'') (replicate 8 7) NewQuotaManager ?r 0 0 (replicate 8 7)"
  let ?rt = "\<lambda>_ :: http_request. Inr \<lparr>StatusCode = 302, LocationHeader = [], Body = eof_reader []\<rparr> :: goerror + http_response"
  have "world_ok (poll_start ?c)" by (rule poll_reachable_ok [where host = "\<lambda>_. []", OF _ rtranclp.rtrancl_refl]) (simp add: rotor_ok_def)
  then have ok: "poll_ok ?c" by (simp add: world_ok_def poll_start_def)
  have r: "rotor ?c = ?r" by (simp add: NewPollingPacketConn_def)
  have "cacheable (payload_url sample_server b p) sample_cache (str ''c'')" for b p
    using sample_cacheable(1) by (simp add: cacheable_def payload_url_def Hostname_def Port_def)
  then have u: "\<exists>u. requestURL Inr Inr sample_server (Some sample_cache) b p = Inr u" for b p
    using str_http by (auto simp: requestURL_eq sample_server_path CacheURL_cases cacheable_def)
  have q: "\<exists>u v. requestURL Inr Inr sample_server (Some sample_cache) b p = Inr u \<and> sample_reparse u = Inr v" for b p
    using u [of b p] sample_reparse_ok unfolding reparse_ok_def by metis
  have "redirects ?rt" by (simp add: redirects_def)
  from polls_fail_over [where c = ?c and cacheURL = "Some sample_cache" and rt = ?rt and xs = "replicate 15 (replicate 12 5, [1, 2, 3], 7, \<lambda>_. 8)" and since = 8
      and ToUnicode = Inr and ToASCII = Inr and serverURL = sample_server and reparse = sample_reparse and host = Host and tok = simple_tokenizer
      and parse = "\<lambda>_. Inl EOF" and front = "[]", OF ok]
  obtain c' where "attempts (pollFunc Inr Inr sample_reparse (\<lambda>_. Inl EOF) simple_tokenizer ?rt sample_server []) Host (replicate 15 (replicate 12 5, [1, 2, 3], 7, \<lambda>_. 8)) ?c = Return c'"
    "\<forall>rt' random p. pollFunc Inr Inr sample_reparse (\<lambda>_. Inl EOF) simple_tokenizer rt' sample_server [] (rotor c') random p =
       exchangeAMP Inr Inr sample_reparse (\<lambda>_. Inl EOF) simple_tokenizer rt' random sample_server None [] p"
    using q \<open>redirects ?rt\<close> by (auto simp: r rotor_Current_def minute_def second_def)
  then show ?thesis using r by - (rule exI [of _ ?c], rule exI [of _ c'], simp)
qed

end
