(* ===== verification/Tunnel_Down.thy ===== *)
theory Tunnel_Down
  imports Noise_Client Packet_Select
begin

text \<open>
  From the server's KCP to the client's: the sending goroutine of a session (\<^verbatim>\<open>noiseLoop\<close> of champa-server/main.go) encrypts what
  KCP wrote for a client, and the client's \<open>noise_ReadFrom\<close> (champa-client/main.go) decrypts it.
\<close>

section \<open>The server sends\<close>

text \<open>The Noise library encrypts all packets of a list, one after the other.\<close>

fun encrypts :: "('cs, 'hs) noise_lib \<Rightarrow> 'cs session \<Rightarrow> bytes list \<Rightarrow> bool" where
  "encrypts L s [] = True"
| "encrypts L s (p # ps) =
     (case Encrypt L s [MsgTypeTransport] p of (s', Inl e) \<Rightarrow> False | (s', Inr m) \<Rightarrow> encrypts L s' ps)"

lemma sender_starts:
  assumes "noise_ok s" and "j < length (senders s)" and "senders s ! j = Starting a"
  obtains s' q where "noise_step L temporary privkey s [] s'" "noise_ok s'" "senders s' ! j = Sending a q" "length (senders s') = length (senders s)"
    "q < length (chans (remotes (plainConn s')))" "ch_buf (chans (remotes (plainConn s')) ! q) = outgoing (plainConn s) a"
    "noiseConn s' = noiseConn s" "sess_store s' = sess_store s"
proof -
  have "conn_ok (plainConn s)" using assms(1) by (simp add: noise_ok_def)
  then obtain m r where l: "Lookup (remotes (plainConn s)) a 0 = Return (m, r)" "conn_ok ((plainConn s)\<lparr>remotes := m\<rparr>)"
    "same_packets (plainConn s) ((plainConn s)\<lparr>remotes := m\<rparr>)" "peers m = (peers (remotes (plainConn s)))(a \<mapsto> r)" by (rule Lookup_same)
  let ?pc = "(plainConn s)\<lparr>remotes := m\<rparr>"
  let ?s = "s\<lparr>plainConn := ?pc, senders := (senders s)[j := Sending a (rSendQueue r)]\<rparr>"
  have step: "sender_step L temporary 0 s j = Return ?s"
    using assms(3) l(1) by (simp add: sender_step_def OutgoingQueue_def SendQueue_def)
  have r: "peers (remotes ?pc) a = Some r" using l(4) by simp
  have "live (chans m) (rSendQueue r) queueSize" using peers_live(1) [of m a r] l(2) r by (simp add: conn_ok_def)
  then have q: "rSendQueue r < length (chans m)" by (simp add: live_def)
  have "outgoing ?pc a = outgoing (plainConn s) a" using l(3) by (simp add: same_packets_def)
  then have b: "ch_buf (chans m ! rSendQueue r) = outgoing (plainConn s) a" using r by (simp add: outgoing_def)
  have "noise_ok ?s" using sender_step_ok [OF assms(1,2), of L temporary 0] step by simp
  then show ?thesis using noise_step.sender [OF assms(2) step, of privkey] q b assms(2) by (intro that [of ?s "rSendQueue r"]) simp_all
qed

lemma sender_sends:
  assumes "noise_ok s" and "j < length (senders s)" and "senders s ! j = Sending a q" and "q < length (chans (remotes (plainConn s)))"
    and "ch_buf (chans (remotes (plainConn s)) ! q) = p # ps" and "\<not> closed (noiseConn s)" and "length (outgoing (noiseConn s) a) < queueSize"
    and "Encrypt L (sess_store s ! j) [MsgTypeTransport] p = (next_sess, Inr buf)"
  obtains s' where "noise_step L temporary privkey s [] s'" "noise_ok s'" "senders s' = senders s" "q < length (chans (remotes (plainConn s')))"
    "ch_buf (chans (remotes (plainConn s')) ! q) = ps" "\<not> closed (noiseConn s')"
    "outgoing (noiseConn s') a = outgoing (noiseConn s) a @ [buf]" "sess_store s' ! j = next_sess"
proof -
  have ok: "conn_ok (noiseConn s)" and len: "j < length (sess_store s)" using assms(1,2) by (simp_all add: noise_ok_def)
  obtain nc where nc: "WriteTo (noiseConn s) buf a 0 = Return (nc, Inr (length buf))"
    "outgoing nc = (outgoing (noiseConn s))(a := outgoing (noiseConn s) a @ [buf])"
    using WriteTo_appends [OF ok assms(6), of buf a 0] assms(7) by auto
  let ?cs = "(chans (remotes (plainConn s)))[q := (chans (remotes (plainConn s)) ! q)\<lparr>ch_buf := ps\<rparr>]"
  let ?s = "s\<lparr>plainConn := (plainConn s)\<lparr>remotes := (remotes (plainConn s))\<lparr>chans := ?cs\<rparr>\<rparr>, sess_store := (sess_store s)[j := next_sess], noiseConn := nc\<rparr>"
  have step: "sender_step L temporary 0 s j = Return ?s"
    using assms(3,5,8) nc(1) by (simp add: sender_step_def try_recv_def)
  have "noise_ok ?s" using sender_step_ok [OF assms(1,2), of L temporary 0] step by simp
  moreover have "\<not> closed nc" using WriteTo_frame [OF nc(1)] assms(6) by simp
  ultimately show ?thesis using noise_step.sender [OF assms(2) step, of privkey] nc(2) assms(4) len by (intro that [of ?s]) simp_all
qed

lemma sender_run:
  assumes "cipher_ok L matched"
  shows "matched (send (sess_store s ! j)) rx \<Longrightarrow> noise_ok s \<Longrightarrow> j < length (senders s) \<Longrightarrow> senders s ! j = Sending a q \<Longrightarrow>
    q < length (chans (remotes (plainConn s))) \<Longrightarrow> ch_buf (chans (remotes (plainConn s)) ! q) = ps \<Longrightarrow> \<not> closed (noiseConn s) \<Longrightarrow>
    length (outgoing (noiseConn s) a) + length ps \<le> queueSize \<Longrightarrow> encrypts L (sess_store s ! j) ps \<Longrightarrow>
    \<exists>s' ms. noise_exec L temporary privkey s [] s' \<and> outgoing (noiseConn s') a = outgoing (noiseConn s) a @ map (Cons MsgTypeTransport) ms \<and>
      length ms = length ps \<and> (\<forall>i<length ps. good_message L matched (send (sess_store s ! j)) (ms ! i) (ps ! i) \<and>
        Uint64 (take 8 (ms ! i)) = cs_Nonce L (send (sess_store s ! j)) + of_nat i)"
proof (induction ps arbitrary: s)
  case Nil
  then show ?case using noise_exec.none [of L temporary privkey s] by auto
next
  case (Cons p ps)
  let ?sess = "sess_store s ! j"
  obtain next_sess buf where e: "Encrypt L ?sess [MsgTypeTransport] p = (next_sess, Inr buf)" "encrypts L next_sess ps"
    using Cons.prems(9) by (auto split: prod.splits sum.splits)
  obtain m0 where m0: "buf = [MsgTypeTransport] @ m0" "good_message L matched (send ?sess) m0 p"
    "Uint64 (take 8 m0) = cs_Nonce L (send ?sess)" "cs_Nonce L (send next_sess) = cs_Nonce L (send ?sess) + 1"
    "\<And>rx'. matched (send ?sess) rx' \<Longrightarrow> matched (send next_sess) rx'" "recv next_sess = recv ?sess" "replay next_sess = replay ?sess"
    by (rule Encrypt_framed [OF assms Cons.prems(1) e(1)]) (rule that)
  have "length (outgoing (noiseConn s) a) < queueSize" using Cons.prems(8) by simp
  then obtain s1 where s1: "noise_step L temporary privkey s [] s1" "noise_ok s1" "senders s1 = senders s"
    "q < length (chans (remotes (plainConn s1)))" "ch_buf (chans (remotes (plainConn s1)) ! q) = ps" "\<not> closed (noiseConn s1)"
    "outgoing (noiseConn s1) a = outgoing (noiseConn s) a @ [buf]" "sess_store s1 ! j = next_sess"
    by (rule sender_sends [OF Cons.prems(2-7) _ e(1)])
  have "\<exists>s' ms. noise_exec L temporary privkey s1 [] s' \<and> outgoing (noiseConn s') a = outgoing (noiseConn s1) a @ map (Cons MsgTypeTransport) ms \<and>
      length ms = length ps \<and> (\<forall>i<length ps. good_message L matched (send (sess_store s1 ! j)) (ms ! i) (ps ! i) \<and>
        Uint64 (take 8 (ms ! i)) = cs_Nonce L (send (sess_store s1 ! j)) + of_nat i)"
    by (rule Cons.IH) (use m0(5) s1 Cons.prems e(2) in simp_all)
  then obtain s' ms where ms: "noise_exec L temporary privkey s1 [] s'" "outgoing (noiseConn s') a = outgoing (noiseConn s1) a @ map (Cons MsgTypeTransport) ms"
    "length ms = length ps" "\<forall>i<length ps. good_message L matched (send next_sess) (ms ! i) (ps ! i) \<and> Uint64 (take 8 (ms ! i)) = cs_Nonce L (send next_sess) + of_nat i"
    using s1(8) by auto
  have up: "good_message L matched (send next_sess) m' p' \<Longrightarrow> good_message L matched (send ?sess) m' p'" for m' p'
    using m0(5) by (auto simp: good_message_def)
  have "noise_exec L temporary privkey s [] s'" using noise_exec_first [OF s1(1) ms(1)] by simp
  then show ?case
    using ms(2-4) m0 s1(7) up by (intro exI [of _ s'] exI [of _ "m0 # ms"]) (auto simp: nth_Cons' less_Suc_eq_0_disj)
qed

section \<open>The client reads\<close>

text \<open>\<open>k\<close> reads into slices of \<open>n\<close> bytes; \<open>None\<close> if one of them waits or fails.\<close>

fun noise_reads ::
  "('cs, 'hs) noise_lib \<Rightarrow> (goerror \<Rightarrow> bool) \<Rightarrow> bool \<Rightarrow> ('cs, 'a) noisePacketConn \<Rightarrow> nat \<Rightarrow> nat \<Rightarrow> bytes list option" where
  "noise_reads L temporary b c n 0 = Some []"
| "noise_reads L temporary b c n (Suc k) =
     (case noise_ReadFrom L temporary b c n of
        Some (Return (c', Some (Inr (p, addr)))) \<Rightarrow> map_option (Cons p) (noise_reads L temporary b c' n k)
      | _ \<Rightarrow> None)"

lemma decrypt_run_length: "length (decrypt_run L s ms) \<le> length ms"
  by (induction ms arbitrary: s) (auto split: prod.splits sum.splits intro: le_SucI)

lemma noise_reads_decrypt:
  "\<not> closed (packetConn c) \<Longrightarrow> ch_buf (recvQueue (packetConn c)) = map (\<lambda>m. (MsgTypeTransport # m, srv)) ms \<Longrightarrow>
   \<forall>m \<in> set ms. length m < 1500 \<Longrightarrow> length (decrypt_run L (sess c) ms) = length ms \<Longrightarrow>
   \<forall>p \<in> set (map snd (decrypt_run L (sess c) ms)). length p \<le> n \<Longrightarrow>
   noise_reads L temporary b c n (length ms) = Some (map snd (decrypt_run L (sess c) ms))"
proof (induction ms arbitrary: c)
  case (Cons m ms)
  obtain s r where d: "Decrypt L (sess c) [] m = (s, r)" by force
  obtain p where r: "r = Inr p"
    using Cons.prems(4) decrypt_run_length [of L s ms] by (cases r) (auto simp: d)
  let ?pc = "(packetConn c)\<lparr>recvQueue := (recvQueue (packetConn c))\<lparr>ch_buf := map (\<lambda>m. (MsgTypeTransport # m, srv)) ms\<rparr>\<rparr>"
  have rd: "readNoiseMessageOfTypeFrom temporary MsgTypeTransport b (packetConn c) = Some (Return (?pc, Some (Inr (m, srv))))"
    using readNoise_queue [OF Cons.prems(1)] Cons.prems(2,3) by (simp add: of_type_def)
  have "noise_reads L temporary b \<lparr>sess = s, packetConn = ?pc\<rparr> n (length ms) = Some (map snd (decrypt_run L s ms))"
    using Cons.prems d r by (intro Cons.IH [of "\<lparr>sess = s, packetConn = ?pc\<rparr>", simplified]) simp_all
  then show ?case using rd d r Cons.prems(5) by (simp add: noise_ReadFrom_def)
qed simp

section \<open>Downstream\<close>

text \<open>
  C5: The tunnel carries what the server's KCP sends. Up to 256 packets that KCP has written for a client, whose session has just been
  made, are encrypted by the session's goroutine and queued for the HTTP handler; when these messages have reached the queue of
  the client whose session has the matching keys, as many reads of its Noise connection return exactly these packets, in order.
\<close>

theorem tunnel_downstream:
  assumes "cipher_ok L matched" and "fresh_pair L matched client (sess_store s ! j)"
    and "noise_ok s" and "sessions s a = Some j" and "senders s ! j = Starting a"
    and "\<not> closed (noiseConn s)" and "outgoing (noiseConn s) a = []" and "outgoing (plainConn s) a = ps"
    and "length ps \<le> queueSize" and "encrypts L (sess_store s ! j) ps"
  shows "\<exists>s'. noise_exec L temporary privkey s [] s' \<and> length (outgoing (noiseConn s') a) = length ps \<and>
    (\<forall>c srv n. sess c = client \<longrightarrow> \<not> closed (packetConn c) \<longrightarrow>
       ch_buf (recvQueue (packetConn c)) = map (\<lambda>m. (m, srv)) (outgoing (noiseConn s') a) \<longrightarrow>
       (\<forall>m \<in> set (outgoing (noiseConn s') a). length m \<le> 1500) \<longrightarrow> (\<forall>p \<in> set ps. length p \<le> n) \<longrightarrow>
       noise_reads L temporary b c n (length ps) = Some ps)"
proof -
  have f: "matched (send (sess_store s ! j)) (recv client)" "replay client = emptyWindow" "cs_Nonce L (send (sess_store s ! j)) = 0"
    using assms(2) by (simp_all add: fresh_pair_def)
  have j: "j < length (senders s)" using assms(3,4) linkedD [of "sessions s" "senders s" a j] by (auto simp: noise_ok_def)
  obtain s1 q where s1: "noise_step L temporary privkey s [] s1" "noise_ok s1" "senders s1 ! j = Sending a q" "length (senders s1) = length (senders s)"
    "q < length (chans (remotes (plainConn s1)))" "ch_buf (chans (remotes (plainConn s1)) ! q) = outgoing (plainConn s) a"
    "noiseConn s1 = noiseConn s" "sess_store s1 = sess_store s"
    by (rule sender_starts [OF assms(3) j assms(5)])
  have "\<exists>s' ms. noise_exec L temporary privkey s1 [] s' \<and> outgoing (noiseConn s') a = outgoing (noiseConn s1) a @ map (Cons MsgTypeTransport) ms \<and>
      length ms = length ps \<and> (\<forall>i<length ps. good_message L matched (send (sess_store s1 ! j)) (ms ! i) (ps ! i) \<and>
        Uint64 (take 8 (ms ! i)) = cs_Nonce L (send (sess_store s1 ! j)) + of_nat i)"
    by (rule sender_run [OF assms(1), where rx = "recv client" and q = q]) (use s1 f(1) j assms(6-10) in simp_all)
  then obtain s' ms where s': "noise_exec L temporary privkey s1 [] s'" "outgoing (noiseConn s') a = map (Cons MsgTypeTransport) ms"
    and good: "length ms = length ps \<and> (\<forall>i<length ps. good_message L matched (send (sess_store s ! j)) (ms ! i) (ps ! i) \<and>
        Uint64 (take 8 (ms ! i)) = cs_Nonce L (send (sess_store s ! j)) + of_nat i)"
    using s1(7,8) assms(7) by auto
  have d: "map snd (decrypt_run L client ms) = ps"
    using assms(9) by (intro decrypt_in_order [OF assms(1) f(1,2,3) _ good]) (simp add: queueSize_def)
  have dl: "length (decrypt_run L client ms) = length ps" using arg_cong [OF d, of length] by simp
  have reads: "noise_reads L temporary b c n (length ps) = Some ps"
    if "sess c = client" "\<not> closed (packetConn c)" "ch_buf (recvQueue (packetConn c)) = map (\<lambda>m. (m, srv)) (outgoing (noiseConn s') a)"
      "\<forall>m \<in> set (outgoing (noiseConn s') a). length m \<le> 1500" "\<forall>p \<in> set ps. length p \<le> n" for c srv n
    using noise_reads_decrypt [OF that(2), of srv ms L n temporary b] that s'(2) d dl good by (simp add: comp_def Suc_le_eq)
  have "noise_exec L temporary privkey s [] s'" using noise_exec_first [OF s1(1) s'(1)] by simp
  then show ?thesis
    by (intro exI [of _ s'] conjI allI impI) (assumption, simp add: s'(2) good, (rule reads; assumption))
qed

theorem tunnel_downstream_witness:
  "\<exists>s s'. noise_exec xor_lib (\<lambda>_. False) [5] s [] s' \<and> outgoing (plainConn s) [9 :: byte] = [[1, 2]] \<and> length (outgoing (noiseConn s') [9]) = 1"
proof -
  let ?client = "\<lparr>recv = (8, 0), send = (7, 0), replay = emptyWindow\<rparr>"
  let ?server = "\<lparr>recv = (7, 0), send = (8, 0), replay = emptyWindow\<rparr>"
  have e: "\<not> closed (NewQueuePacketConn [] :: bytes queuePacketConn)" "outgoing (NewQueuePacketConn [] :: bytes queuePacketConn) [9] = []"
    by (simp_all add: NewQueuePacketConn_def outgoing_def peers_def NewRemoteMap_def)
  obtain k :: "bytes queuePacketConn" where k: "conn_ok k" "outgoing k [9] = [[1, 2]]"
    using WriteTo_appends [OF NewQueuePacketConn_ok e(1), of "[1, 2]" "[9]" 0] e(2) by (auto simp: queueSize_def)
  define s where "s = xor_start\<lparr>plainConn := k, sessions := [[9] \<mapsto> 0], sess_store := [?server], senders := [Starting [9]]\<rparr>"
  have ok: "noise_ok s"
    using k(1) NewQueuePacketConn_ok by (simp add: noise_ok_def s_def xor_start_def noise_start_def linked_def nth_Cons' less_Suc_eq)
  have f: "fresh_pair xor_lib same_key ?client (sess_store s ! 0)" by (simp add: s_def fresh_pair_def same_key_def xor_lib_def)
  have "encrypts xor_lib (sess_store s ! 0) [[1, 2]]" by (simp add: s_def Encrypt_def xor_lib_def)
  from tunnel_downstream [OF xor_lib_cipher_ok f ok _ _ _ _ _ _ this, of "[9]" "\<lambda>_. False" "[5]" True] e k(2)
  obtain s' where "noise_exec xor_lib (\<lambda>_. False) [5] s [] s'" "length (outgoing (noiseConn s') [9]) = 1"
    by (auto simp: s_def xor_start_def noise_start_def queueSize_def)
  moreover have "outgoing (plainConn s) [9] = [[1, 2]]" using k(2) by (simp add: s_def)
  ultimately show ?thesis by blast
qed

end
