(* ===== verification/Stream_Relay.thy ===== *)
theory Stream_Relay
  imports Champa_Prelude "HOL-Library.Sublist" "HOL-Library.Multiset"
begin

text \<open>
  Connecting a stream with a TCP connection in both directions: \<^verbatim>\<open>handle\<close> of champa-client/main.go and
  \<^verbatim>\<open>handleStream\<close> of champa-server/main.go, each with the two goroutines that copy.

  The smux stream and the TCP connection are not part of the repository. What a read returns, how much of it a write
  takes and with what error a copy ends is therefore left open; \<open>copy_result\<close> is what \<^verbatim>\<open>io.Copy\<close> promises. The theory also says
  what the accepting loops of both programs have in common.
\<close>

section \<open>Accepting\<close>

text \<open>What a loop that accepts connections has accepted, and the error it ends with: it goes on over temporary errors and ends at the first other one.\<close>

definition goes_on :: "(goerror \<Rightarrow> bool) \<Rightarrow> goerror + 'c \<Rightarrow> bool" where
  "goes_on temporary r = (case r of Inl e \<Rightarrow> temporary e | Inr _ \<Rightarrow> True)"

definition accepted_conns :: "(goerror \<Rightarrow> bool) \<Rightarrow> (goerror + 'c) list \<Rightarrow> 'c list" where
  "accepted_conns temporary rs = [c. Inr c \<leftarrow> takeWhile (goes_on temporary) rs]"

definition accept_error :: "(goerror \<Rightarrow> bool) \<Rightarrow> (goerror + 'c) list \<Rightarrow> goerror option" where
  "accept_error temporary rs =
     (case dropWhile (goes_on temporary) rs of Inl e # _ \<Rightarrow> Some e | _ \<Rightarrow> None)"

section \<open>io.Copy\<close>

text \<open>
  One iteration of the loop in \<^verbatim>\<open>io.Copy\<close>, from what the read (\<open>p\<close>, \<open>er\<close>) and the write (\<open>nw\<close>, \<open>ew\<close>) return: the
  bytes written, and the result of the copy if this is its last iteration.
\<close>

definition copy_round :: "bytes \<Rightarrow> goerror option \<Rightarrow> nat \<Rightarrow> goerror option \<Rightarrow> bytes \<times> goerror option option" where
  "copy_round p er nw ew =
     (let invalid = length p < nw;
          ew = (if invalid \<and> ew = None then Some (ErrorText ''invalid write result'') else ew);
          nw = (if invalid then 0 else nw)
      in if length p > 0 \<and> ew \<noteq> None then (take nw p, Some ew)
         else if length p > 0 \<and> length p \<noteq> nw then (take nw p, Some (Some (ErrorText ''short write'')))
         else (p, map_option (\<lambda>e. if e = EOF then None else Some e) er))"

text \<open>
  The promise: only a copy that ends with an error has not written everything it has read. (A stream that
  brings its own \<^verbatim>\<open>WriteTo\<close> may also report the end of its data as an error.)
\<close>

definition copy_result :: "bytes \<Rightarrow> bytes \<Rightarrow> goerror option option \<Rightarrow> bool" where
  "copy_result p written res \<longleftrightarrow> prefix written p \<and> ((\<forall>e. res \<noteq> Some (Some e)) \<longrightarrow> written = p)"

lemma copy_round_result: "copy_round p er nw ew = (written, res) \<Longrightarrow> copy_result p written res"
  by (auto simp: copy_round_def copy_result_def Let_def take_is_prefix split: if_splits option.splits)

section \<open>The two goroutines\<close>

datatype copying = Copying | Ended "goerror option" | ReadClosed | Done

record relay =
  tcp_in :: bytes
  stream_out :: bytes
  stream_in :: bytes
  tcp_out :: bytes
  up :: copying
  down :: copying
  upErr :: "goerror option"
  downErr :: "goerror option"
  logged :: "goerror list"
  tcpReadClosed :: bool
  tcpWriteClosed :: bool
  tcpClosed :: bool
  streamClosed :: bool

definition relay_start :: relay where
  "relay_start = \<lparr>tcp_in = [], stream_out = [], stream_in = [], tcp_out = [], up = Copying, down = Copying,
     upErr = None, downErr = None, logged = [], tcpReadClosed = False, tcpWriteClosed = False, tcpClosed = False, streamClosed = False\<rparr>"

text \<open>Both sides log the error of a copy unless it is the end of the data or a closed pipe.\<close>

definition log_copy :: "goerror option \<Rightarrow> goerror list" where
  "log_copy e = (case e of None \<Rightarrow> [] | Some x \<Rightarrow> if \<not> errorsIs x ErrClosedPipe \<and> x \<noteq> EOF then [x] else [])"

definition after_round :: "goerror option option \<Rightarrow> copying" where
  "after_round res = (case res of None \<Rightarrow> Copying | Some e \<Rightarrow> Ended e)"

inductive relay_step :: "relay \<Rightarrow> relay \<Rightarrow> bool" where
  up_copies: "up r = Copying \<Longrightarrow> copy_result p q res \<Longrightarrow>
    relay_step r (r\<lparr>tcp_in := tcp_in r @ p, stream_out := stream_out r @ q, up := after_round res\<rparr>)"
| up_closes_read: "up r = Ended e \<Longrightarrow>
    relay_step r (r\<lparr>upErr := e, logged := logged r @ log_copy e, tcpReadClosed := True, up := ReadClosed\<rparr>)"
| up_closes_stream: "up r = ReadClosed \<Longrightarrow> relay_step r (r\<lparr>streamClosed := True, up := Done\<rparr>)"
| down_copies: "down r = Copying \<Longrightarrow> copy_result p q res \<Longrightarrow>
    relay_step r (r\<lparr>stream_in := stream_in r @ p, tcp_out := tcp_out r @ q, down := after_round res\<rparr>)"
| down_closes_write: "down r = Ended e \<Longrightarrow>
    relay_step r (r\<lparr>downErr := e, logged := logged r @ log_copy e, tcpWriteClosed := True, down := Done\<rparr>)"

section \<open>handle and handleStream\<close>

text \<open>
  Both wait for the two goroutines. The client has opened the stream and closes it, its caller closes the TCP
  connection; the server has dialled the TCP connection and closes it, its caller closes the stream.
\<close>

inductive handle :: "goerror + unit \<Rightarrow> goerror option \<times> relay \<Rightarrow> bool" where
  open_fails: "handle (Inl e) (Some (ErrorText ''open stream''), relay_start)"
| handled: "relay_step\<^sup>*\<^sup>* relay_start r \<Longrightarrow> up r = Done \<Longrightarrow> down r = Done \<Longrightarrow> handle (Inr u) (None, r\<lparr>streamClosed := True\<rparr>)"

inductive handleStream :: "goerror + unit \<Rightarrow> goerror option \<times> relay \<Rightarrow> bool" where
  dial_fails: "handleStream (Inl e) (Some (ErrorText ''connect upstream''), relay_start)"
| relayed: "relay_step\<^sup>*\<^sup>* relay_start r \<Longrightarrow> up r = Done \<Longrightarrow> down r = Done \<Longrightarrow> handleStream (Inr u) (None, r\<lparr>tcpClosed := True\<rparr>)"

inductive_cases handle_Inr: "handle (Inr u) x"
inductive_cases handleStream_Inr: "handleStream (Inr u) x"

section \<open>Invariant\<close>

definition side_ok :: "bytes \<Rightarrow> bytes \<Rightarrow> copying \<Rightarrow> goerror option \<Rightarrow> bool" where
  "side_ok src dst c e \<longleftrightarrow> prefix dst src \<and>
     (case c of
        Copying \<Rightarrow> dst = src \<and> e = None
      | Ended x \<Rightarrow> (x = None \<longrightarrow> dst = src) \<and> e = None
      | _ \<Rightarrow> e = None \<longrightarrow> dst = src)"

definition relay_ok :: "relay \<Rightarrow> bool" where
  "relay_ok r \<longleftrightarrow>
     side_ok (tcp_in r) (stream_out r) (up r) (upErr r) \<and> side_ok (stream_in r) (tcp_out r) (down r) (downErr r) \<and>
     (tcpReadClosed r \<longleftrightarrow> up r \<in> {ReadClosed, Done}) \<and> (streamClosed r \<longleftrightarrow> up r = Done) \<and>
     (tcpWriteClosed r \<longleftrightarrow> down r = Done) \<and> \<not> tcpClosed r \<and> down r \<noteq> ReadClosed \<and>
     mset (logged r) = mset (log_copy (upErr r)) + mset (log_copy (downErr r))"

lemma side_ok_copies:
  assumes "side_ok src dst Copying e" and "copy_result p q res"
  shows "side_ok (src @ p) (dst @ q) (after_round res) e"
  using assms by (auto simp: side_ok_def copy_result_def after_round_def split: option.splits)

lemma side_ok_ends: "side_ok src dst (Ended x) e \<Longrightarrow> c \<in> {ReadClosed, Done} \<Longrightarrow> side_ok src dst c x \<and> e = None"
  by (auto simp: side_ok_def)

lemma log_copy_None [simp]: "log_copy None = []"
  by (simp add: log_copy_def)

lemma relay_start_ok: "relay_ok relay_start"
  by (simp add: relay_ok_def relay_start_def side_ok_def)

lemma relay_step_ok: "relay_step r r' \<Longrightarrow> relay_ok r \<Longrightarrow> relay_ok r'"
proof (induction rule: relay_step.induct)
  case (up_copies r p q res)
  then show ?case by (auto simp: relay_ok_def side_ok_copies) (auto simp: after_round_def split: option.splits)
next
  case (up_closes_read r e)
  then have "side_ok (tcp_in r) (stream_out r) ReadClosed e \<and> upErr r = None"
    using side_ok_ends [of "tcp_in r" "stream_out r" e "upErr r" ReadClosed] by (simp add: relay_ok_def)
  then show ?case using up_closes_read by (auto simp: relay_ok_def)
next
  case (up_closes_stream r)
  then show ?case by (auto simp: relay_ok_def side_ok_def)
next
  case (down_copies r p q res)
  then show ?case by (auto simp: relay_ok_def side_ok_copies) (auto simp: after_round_def split: option.splits)
next
  case (down_closes_write r e)
  then have "side_ok (stream_in r) (tcp_out r) Done e \<and> downErr r = None"
    using side_ok_ends [of "stream_in r" "tcp_out r" e "downErr r" Done] by (simp add: relay_ok_def)
  then show ?case using down_closes_write by (auto simp: relay_ok_def)
qed

interpretation relaying: step_invariant relay_step relay_ok
  by unfold_locales (rule relay_step_ok)

lemma relay_reachable_ok: "relay_step\<^sup>*\<^sup>* relay_start r \<Longrightarrow> relay_ok r"
  by (rule relaying.reachable_inv [OF _ relay_start_ok])

lemma handle_prefix: "handle x (res, r) \<Longrightarrow> prefix (stream_out r) (tcp_in r) \<and> prefix (tcp_out r) (stream_in r)"
  using relay_start_ok by (auto elim!: handle.cases dest: relay_reachable_ok simp: relay_ok_def side_ok_def)

text \<open>
  C35: What the tunnel's ends do with a connection. When the client's \<^verbatim>\<open>handle\<close> or the server's \<^verbatim>\<open>handleStream\<close> returns, however its
  two goroutines took turns, each direction has carried a prefix of what was read, in order and unchanged, and all of it unless
  its copy ended with an error; every other error than the end of the data or a closed pipe was logged, once; both directions of
  the TCP connection and the stream are shut, and the server has closed the connection it dialled.
\<close>

theorem relay_faithful:
  assumes "handle (Inr u) (res, r) \<or> handleStream (Inr u) (res, r)"
  shows "res = None \<and> prefix (stream_out r) (tcp_in r) \<and> prefix (tcp_out r) (stream_in r) \<and>
    (upErr r = None \<longrightarrow> stream_out r = tcp_in r) \<and> (downErr r = None \<longrightarrow> tcp_out r = stream_in r) \<and>
    mset (logged r) = mset (log_copy (upErr r)) + mset (log_copy (downErr r)) \<and>
    tcpReadClosed r \<and> tcpWriteClosed r \<and> streamClosed r \<and> (handleStream (Inr u) (res, r) \<longrightarrow> tcpClosed r)"
proof -
  obtain r0 where r0: "relay_step\<^sup>*\<^sup>* relay_start r0" "up r0 = Done" "down r0 = Done" "res = None"
    "r = r0\<lparr>streamClosed := True\<rparr> \<or> r = r0\<lparr>tcpClosed := True\<rparr>"
    using assms by (auto elim!: handle_Inr handleStream_Inr)
  have "handleStream (Inr u) (res, r) \<longrightarrow> tcpClosed r" by (auto elim!: handleStream_Inr)
  with r0 relay_reachable_ok [OF r0(1)] show ?thesis by (auto simp: relay_ok_def side_ok_def)
qed

text \<open>How many steps are left once both copies have ended.\<close>

primrec todo :: "copying \<Rightarrow> nat" where
  "todo Copying = 3" | "todo (Ended e) = 2" | "todo ReadClosed = 1" | "todo Done = 0"

text \<open>
  A relay whose two copies have ended cannot hang: as long as one of the goroutines is not done there is a step to take, every
  step brings them closer to the end, so that after at most four of them both are done and the function returns.
\<close>

theorem relay_returns:
  assumes "relay_step\<^sup>*\<^sup>* relay_start r" and "up r \<noteq> Copying" and "down r \<noteq> Copying"
  shows "(\<forall>r'. relay_step r r' \<longrightarrow> todo (up r') + todo (down r') < todo (up r) + todo (down r) \<and> up r' \<noteq> Copying \<and> down r' \<noteq> Copying) \<and>
    (up r \<noteq> Done \<or> down r \<noteq> Done \<longrightarrow> (\<exists>r'. relay_step r r')) \<and> todo (up r) + todo (down r) \<le> 4 \<and>
    (up r = Done \<and> down r = Done \<longrightarrow> handle (Inr ()) (None, r\<lparr>streamClosed := True\<rparr>) \<and> handleStream (Inr ()) (None, r\<lparr>tcpClosed := True\<rparr>))"
proof -
  have "down r \<noteq> ReadClosed" using relay_reachable_ok [OF assms(1)] by (simp add: relay_ok_def)
  then have "\<exists>r'. relay_step r r'" if "up r \<noteq> Done \<or> down r \<noteq> Done"
    using that assms(2,3) by (cases "up r"; cases "down r") (blast intro: relay_step.intros)+
  moreover have "todo (up r') + todo (down r') < todo (up r) + todo (down r) \<and> up r' \<noteq> Copying \<and> down r' \<noteq> Copying"
    if "relay_step r r'" for r' using that assms(2,3) by (cases rule: relay_step.cases) auto
  moreover have "todo (up r) + todo (down r) \<le> 4" using assms(2,3) by (cases "up r"; cases "down r") simp_all
  ultimately show ?thesis using assms(1) by (auto intro: handle.intros handleStream.intros)
qed

text \<open>A connection on which the client sends two bytes, gets one back, and then both ends close.\<close>

lemma sample_relay:
  obtains r where "relay_step\<^sup>*\<^sup>* relay_start r" "up r = Done" "down r = Done" "stream_out r = [1, 2]" "tcp_out r = [3]" "tcp_in r = [1, 2]" "stream_in r = [3]"
proof -
  define r1 where "r1 = relay_start\<lparr>tcp_in := [1, 2], stream_out := [1, 2], up := Ended None\<rparr>"
  define r2 where "r2 = r1\<lparr>stream_in := [3], tcp_out := [3], down := Ended None\<rparr>"
  define r3 where "r3 = r2\<lparr>tcpReadClosed := True, up := ReadClosed\<rparr>"
  define r4 where "r4 = r3\<lparr>streamClosed := True, up := Done\<rparr>"
  define r5 where "r5 = r4\<lparr>tcpWriteClosed := True, down := Done\<rparr>"
  have "relay_step relay_start r1"
    using relay_step.up_copies [of relay_start "[1, 2]" "[1, 2]" "Some None"] by (simp add: r1_def relay_start_def copy_result_def after_round_def)
  moreover have "relay_step r1 r2"
    using relay_step.down_copies [of r1 "[3]" "[3]" "Some None"] by (simp add: r2_def r1_def relay_start_def copy_result_def after_round_def)
  moreover have "relay_step r2 r3" using relay_step.up_closes_read [of r2 None] by (simp add: r3_def r2_def r1_def relay_start_def)
  moreover have "relay_step r3 r4" using relay_step.up_closes_stream [of r3] by (simp add: r4_def r3_def)
  moreover have "relay_step r4 r5" using relay_step.down_closes_write [of r4 None] by (simp add: r5_def r4_def r3_def r2_def r1_def relay_start_def)
  ultimately have "relay_step\<^sup>*\<^sup>* relay_start r5" by (meson rtranclp.rtrancl_refl rtranclp.rtrancl_into_rtrancl)
  then show ?thesis by (rule that) (simp_all add: r5_def r4_def r3_def r2_def r1_def relay_start_def)
qed

theorem relay_faithful_witness:
  "\<exists>r. handle (Inr ()) (None, r) \<and> stream_out r = [1, 2] \<and> tcp_out r = [3] \<and> tcpReadClosed r \<and> tcpWriteClosed r"
proof -
  obtain r where r: "relay_step\<^sup>*\<^sup>* relay_start r" "up r = Done" "down r = Done" "stream_out r = [1, 2]" "tcp_out r = [3]" by (rule sample_relay)
  from handle.handled [OF r(1-3), of "()"] relay_faithful [of "()" None "r\<lparr>streamClosed := True\<rparr>"] r(4,5) show ?thesis
    by (intro exI [of _ "r\<lparr>streamClosed := True\<rparr>"]) simp
qed

theorem relay_returns_witness:
  "\<exists>r. up r = Done \<and> down r = Done \<and> handleStream (Inr ()) (None, r\<lparr>tcpClosed := True\<rparr>)"
proof -
  obtain r where r: "relay_step\<^sup>*\<^sup>* relay_start r" "up r = Done" "down r = Done" by (rule sample_relay)
  from relay_returns [OF r(1)] r(2,3) show ?thesis by auto
qed

end
