(* ===== verification/Client_Main.thy ===== *)
theory Client_Main
  imports Polling Noise_Client Noise_Keys Net_Url Stream_Relay
begin

text \<open>
  What champa-client/main.go does around the tunnel: \<^verbatim>\<open>main\<close> with the list of caches and the server's key, the holder that
  keeps one session alive, the local connections that are served on it, and the status snapshot of the dashboard.

  KCP and smux are not part of the repository: whether a KCP connection and a smux session could be set up is an
  argument of \<open>dialSession_finish\<close>, and \<open>isClosed\<close> and \<open>openStream\<close> are the methods of a session.
\<close>

section \<open>Configuration\<close>

definition cacheList :: "bytes \<Rightarrow> bytes list" where
  "cacheList cachesStr =
     (let l = filter (\<lambda>s. s \<noteq> []) (map TrimSpace (splitOn 44 cachesStr))
      in if length l = 0 then [[]] else l)"

lemma cacheList_direct: "cacheList cachesStr = [[]] \<longleftrightarrow> (\<forall>s \<in> set (splitOn 44 cachesStr). TrimSpace s = [])"
  by (auto simp: cacheList_def Let_def filter_empty_conv filter_eq_Cons_iff)

definition choosePubkey :: "osenv \<Rightarrow> files \<Rightarrow> bytes \<Rightarrow> bytes \<Rightarrow> string + bytes" where
  "choosePubkey E fs pubkeyFilename pubkeyString =
     (if pubkeyFilename \<noteq> [] \<and> pubkeyString \<noteq> [] then Inl ''error: use only one of -pubkey and -pubkey-file''
      else if pubkeyFilename \<noteq> []
      then (case readKeyFromFile E fs pubkeyFilename of
              (key, None) \<Rightarrow> Inr key
            | (_, Some e) \<Rightarrow> Inl ''error: cannot read pubkey file'')
      else if pubkeyString \<noteq> []
      then (case DecodeKey pubkeyString of
              (key, None) \<Rightarrow> Inr key
            | (_, Some e) \<Rightarrow> Inl ''error: pubkey format error'')
      else Inl ''error: -pubkey or -pubkey-file is required'')"

record clientFlags =
  cf_caches :: bytes
  cf_front :: bytes
  cf_pubkey :: bytes
  cf_pubkeyFile :: bytes
  cf_args :: "bytes list"

text \<open>How \<^verbatim>\<open>main\<close> ends, or what it calls \<^verbatim>\<open>run\<close> with: server, rotor, front, local address and key.\<close>

datatype 'u client_outcome = ClientUsage | ClientExit string | ClientRun 'u "'u CacheRotor" bytes bytes bytes

definition client_main :: "osenv \<Rightarrow> (bytes \<Rightarrow> goerror + 'u) \<Rightarrow> clientFlags \<Rightarrow> files \<Rightarrow> 'u client_outcome" where
  "client_main E parse flags fs =
     (case cf_args flags of
        [server_url, listen] \<Rightarrow>
          (case parse server_url of
             Inl e \<Rightarrow> ClientExit ''error: cannot parse server URL''
           | Inr serverURL \<Rightarrow>
               (case choosePubkey E fs (cf_pubkeyFile flags) (cf_pubkey flags) of
                  Inl msg \<Rightarrow> ClientExit msg
                | Inr pubkey \<Rightarrow>
                    ClientRun serverURL (NewCacheRotor parse (cacheList (cf_caches flags))) (cf_front flags) listen pubkey))
      | _ \<Rightarrow> ClientUsage)"

section \<open>Sessions\<close>

text \<open>
  The two halves of \<^verbatim>\<open>dialSession\<close>: making the polling connection and sending the first message of the handshake, and
  what follows when the answer has come. Between them, and after, the poll loop runs. Each returns the polling connection as it then
  is. In the second, \<open>None\<close> says that the dial still waits; the outer \<open>None\<close> would be a loop over temporary errors.
\<close>

definition dialSession_start ::
  "('cs, 'hs) noise_lib \<Rightarrow> ('a, 'u) PollingPacketConn \<Rightarrow> 'a \<Rightarrow> bytes \<Rightarrow> int \<Rightarrow> (('a, 'u) PollingPacketConn \<times> (goerror + 'hs preSession)) run" where
  "dialSession_start L c addr pubkey now =
     run_bind (noiseDial_send L (pconn c) addr pubkey now) (\<lambda>(pc, res).
     let c = c\<lparr>pconn := pc\<rparr> in
     case res of
       Inl e \<Rightarrow> run_bind (poll_Close c) (\<lambda>(c, _). Return (c, Inl (ErrorText ''noise handshake'')))
     | Inr pre \<Rightarrow> Return (c, Inr pre))"

definition dialSession_finish ::
  "('cs, 'hs) noise_lib \<Rightarrow> (goerror \<Rightarrow> bool) \<Rightarrow> bool \<Rightarrow> goerror + 32 word \<Rightarrow> goerror + 's \<Rightarrow> 'hs preSession \<Rightarrow> ('a, 'u) PollingPacketConn \<Rightarrow>
   (('a, 'u) PollingPacketConn \<times> (goerror + 's \<times> 32 word) option) run option" where
  "dialSession_finish L temporary choice kcp smux pre c =
     (case noiseDial_receive L temporary choice pre (pconn c) of
        None \<Rightarrow> None
      | Some (Panic s) \<Rightarrow> Some (Panic s)
      | Some (Return (pc, res)) \<Rightarrow> Some
          (let c = c\<lparr>pconn := pc\<rparr>;
               failed = (\<lambda>msg. run_bind (poll_Close c) (\<lambda>(c, _). Return (c, Some (Inl (ErrorText msg)))))
           in case res of
                None \<Rightarrow> Return (c, None)
              | Some (Inl e) \<Rightarrow> failed ''noise handshake''
              | Some (Inr nconn) \<Rightarrow>
                  (case kcp of
                     Inl e \<Rightarrow> failed ''kcp''
                   | Inr conv \<Rightarrow>
                       (case smux of
                          Inl e \<Rightarrow> failed ''smux''
                        | Inr s \<Rightarrow> Return (c, Some (Inr (s, conv)))))))"

text \<open>
  The holder, and the world it lives in: all the polling connections that were ever made, each with its poll loop and its polls in
  flight, which are numbered in the order they were made. \<open>h_pconn\<close> is the number of one.
\<close>

record 's sessionHolder =
  h_sess :: "'s option"
  h_conv :: "32 word"
  h_pconn :: "nat option"
  sessionStart :: int

datatype 'hs phase = Dialling | Handshaking nat "'hs preSession" | Watching nat

record ('a, 'u, 'hs, 's) holderWorld =
  holder :: "'s sessionHolder"
  conns :: "('a, 'u) pollWorld list"
  phase :: "'hs phase"

definition newSessionHolder :: "('a, 'u, 'hs, 's) holderWorld" where
  "newSessionHolder = \<lparr>holder = \<lparr>h_sess = None, h_conv = 0, h_pconn = None, sessionStart = 0\<rparr>, conns = [], phase = Dialling\<rparr>"

definition set_conn :: "('a, 'u, 'hs, 's) holderWorld \<Rightarrow> nat \<Rightarrow> ('a, 'u) PollingPacketConn \<Rightarrow> ('a, 'u, 'hs, 's) holderWorld" where
  "set_conn w i c = w\<lparr>conns := (conns w)[i := (conns w ! i)\<lparr>loop := c\<rparr>]\<rparr>"

inductive keepAlive ::
  "('cs, 'hs) noise_lib \<Rightarrow> (goerror \<Rightarrow> bool) \<Rightarrow> ('u \<Rightarrow> bytes) \<Rightarrow> bytes \<Rightarrow> ('a, 'u, 'hs, 's) holderWorld \<Rightarrow> ('a, 'u, 'hs, 's) holderWorld \<Rightarrow> bool"
  for L temporary host pubkey where
  send_failed: "phase w = Dialling \<Longrightarrow> rotor_ok r \<Longrightarrow>
    dialSession_start L (NewPollingPacketConn dummyAddr cid q r t1 t2 localA) dummyAddr pubkey now = Return (c, Inl e) \<Longrightarrow>
    keepAlive L temporary host pubkey w (w\<lparr>conns := conns w @ [poll_start c]\<rparr>)"
| sent: "phase w = Dialling \<Longrightarrow> rotor_ok r \<Longrightarrow>
    dialSession_start L (NewPollingPacketConn dummyAddr cid q r t1 t2 localA) dummyAddr pubkey now = Return (c, Inr pre) \<Longrightarrow>
    keepAlive L temporary host pubkey w (w\<lparr>conns := conns w @ [poll_start c], phase := Handshaking (length (conns w)) pre\<rparr>)"
| dial_failed: "phase w = Handshaking i pre \<Longrightarrow>
    dialSession_finish L temporary choice kcp (smux :: goerror + 's) pre (loop (conns w ! i)) = Some (Return (c, Some (Inl e))) \<Longrightarrow>
    keepAlive L temporary host pubkey w ((set_conn w i c)\<lparr>phase := Dialling\<rparr>)"
| dialled: "phase w = Handshaking i pre \<Longrightarrow>
    dialSession_finish L temporary choice kcp smux pre (loop (conns w ! i)) = Some (Return (c, Some (Inr (s, conv)))) \<Longrightarrow>
    keepAlive L temporary host pubkey w
      ((set_conn w i c)\<lparr>holder := \<lparr>h_sess = Some s, h_conv = conv, h_pconn = Some i, sessionStart = now\<rparr>, phase := Watching i\<rparr>)"
| session_closed: "phase w = Watching i \<Longrightarrow> poll_Close (loop (conns w ! i)) = Return (c, e) \<Longrightarrow>
    keepAlive L temporary host pubkey w ((set_conn w i c)\<lparr>phase := Dialling\<rparr>)"
| polling: "i < length (conns w) \<Longrightarrow> poll_step host (conns w ! i) pw \<Longrightarrow>
    keepAlive L temporary host pubkey w (w\<lparr>conns := (conns w)[i := pw]\<rparr>)"

definition getSession :: "'s sessionHolder \<Rightarrow> 's option \<times> 32 word" where
  "getSession h = (h_sess h, h_conv h)"

text \<open>The connection that the holder is busy with.\<close>

definition current :: "('a, 'u, 'hs, 's) holderWorld \<Rightarrow> nat option" where
  "current w = (case phase w of Dialling \<Rightarrow> None | Handshaking i pre \<Rightarrow> Some i | Watching i \<Rightarrow> Some i)"

definition holder_ok :: "('a, 'u, 'hs, 's) holderWorld \<Rightarrow> bool" where
  "holder_ok w \<longleftrightarrow>
     (\<forall>i < length (conns w). world_ok (conns w ! i) \<and> (current w \<noteq> Some i \<longrightarrow> ctxDone (loop (conns w ! i)))) \<and>
     (\<forall>i. current w = Some i \<longrightarrow> i < length (conns w)) \<and>
     (\<forall>i. phase w = Watching i \<longrightarrow> h_pconn (holder w) = Some i \<and> h_sess (holder w) \<noteq> None)"

lemma dialSession_start_ok:
  assumes "poll_ok c" and "dialSession_start L c addr pubkey now = Return (c', r)"
  shows "poll_ok c'" "semCur c' = semCur c" "r = Inl e \<Longrightarrow> ctxDone c'"
proof -
  have "conn_ok (pconn c)" using assms(1) by (simp add: poll_ok_def)
  then obtain pc res where s: "noiseDial_send L (pconn c) addr pubkey now = Return (pc, res)" "conn_ok pc" by (rule noiseDial_send_ok)
  have ok: "poll_ok (c\<lparr>pconn := pc\<rparr>)" using assms(1) s(2) by (simp add: poll_ok_def)
  obtain c1 x where cl: "poll_Close (c\<lparr>pconn := pc\<rparr>) = Return (c1, x)" "poll_ok c1" "semCur c1 = semCur (c\<lparr>pconn := pc\<rparr>)" "ctxDone c1"
    by (rule poll_Close_ok [OF ok])
  show "poll_ok c'" "semCur c' = semCur c" "r = Inl e \<Longrightarrow> ctxDone c'"
    using assms(2) s(1) ok cl by (cases res; auto simp: dialSession_start_def)+
qed

lemma dialSession_finish_ok:
  assumes "poll_ok c" and "dialSession_finish L temporary choice kcp smux pre c = Some (Return (c', r))"
  shows "poll_ok c'" "semCur c' = semCur c" "r = Some (Inl e) \<Longrightarrow> ctxDone c'"
proof -
  have p: "conn_ok (pconn c)" using assms(1) by (simp add: poll_ok_def)
  obtain y where y: "noiseDial_receive L temporary choice pre (pconn c) = Some y"
    using assms(2) by (cases "noiseDial_receive L temporary choice pre (pconn c)") (simp_all add: dialSession_finish_def)
  obtain pc res where s: "y = Return (pc, res)" "conn_ok pc" by (rule noiseDial_receive_ok [OF p y])
  have ok: "poll_ok (c\<lparr>pconn := pc\<rparr>)" using assms(1) s(2) by (simp add: poll_ok_def)
  obtain c1 x where cl: "poll_Close (c\<lparr>pconn := pc\<rparr>) = Return (c1, x)" "poll_ok c1" "semCur c1 = semCur (c\<lparr>pconn := pc\<rparr>)" "ctxDone c1"
    by (rule poll_Close_ok [OF ok])
  show "poll_ok c'" "semCur c' = semCur c" "r = Some (Inl e) \<Longrightarrow> ctxDone c'"
    using assms(2) y s(1) ok cl by (auto simp: dialSession_finish_def Let_def split: sum.splits option.splits)
qed

lemma new_conn_ok:
  assumes "rotor_ok r"
  shows "poll_ok (NewPollingPacketConn a cid q r t1 t2 localA)" and "semCur (NewPollingPacketConn a cid q r t1 t2 localA) = 0"
proof -
  have "world_ok (poll_start (NewPollingPacketConn a cid q r t1 t2 localA))"
    by (rule poll_reachable_ok [where host = "\<lambda>_. []", OF assms rtranclp.rtrancl_refl])
  then show "poll_ok (NewPollingPacketConn a cid q r t1 t2 localA)" "semCur (NewPollingPacketConn a cid q r t1 t2 localA) = 0"
    by (simp_all add: world_ok_def poll_start_def)
qed

text \<open>Changing the connection the holder is busy with, or adding one, keeps the others as they are.\<close>

lemma holder_ok_set_conn:
  assumes "holder_ok w" and "current w = Some i" and "poll_ok c" and "semCur c = semCur (loop (conns w ! i))"
    and "ph = Dialling \<Longrightarrow> ctxDone c" and "ph = Dialling \<or> ph = Watching i \<and> h_pconn h = Some i \<and> h_sess h \<noteq> None"
  shows "holder_ok ((set_conn w i c)\<lparr>holder := h, phase := ph\<rparr>)"
  using assms by (auto simp: holder_ok_def current_def set_conn_def world_ok_def nth_list_update split: phase.splits)

lemma holder_ok_add_conn:
  assumes "holder_ok w" and "phase w = Dialling" and "poll_ok c" and "semCur c = 0"
    and "ph = Dialling \<and> ctxDone c \<or> ph = Handshaking (length (conns w)) pre"
  shows "holder_ok (w\<lparr>conns := conns w @ [poll_start c], phase := ph\<rparr>)"
  using assms by (auto simp: holder_ok_def current_def world_ok_def poll_start_def nth_append less_Suc_eq)

lemma set_conn_holder: "(set_conn w i c)\<lparr>phase := ph\<rparr> = (set_conn w i c)\<lparr>holder := holder w, phase := ph\<rparr>"
  by (simp add: set_conn_def)

lemma keepAlive_ok: "keepAlive L temporary host pubkey w w' \<Longrightarrow> holder_ok w \<Longrightarrow> holder_ok w'"
proof (induction rule: keepAlive.induct)
  case (send_failed w r dummyAddr cid q t1 t2 localA now c e)
  note d = dialSession_start_ok [OF new_conn_ok(1) [OF send_failed(2)] send_failed(3)] and n = new_conn_ok(2) [OF send_failed(2)]
  have "holder_ok (w\<lparr>conns := conns w @ [poll_start c], phase := Dialling\<rparr>)"
    by (rule holder_ok_add_conn [OF send_failed(4,1)]) (use d n in auto)
  then show ?case using send_failed(1) by (cases w) simp
next
  case (sent w r dummyAddr cid q t1 t2 localA now c pre)
  note d = dialSession_start_ok [OF new_conn_ok(1) [OF sent(2)] sent(3)] and n = new_conn_ok(2) [OF sent(2)]
  show ?case by (rule holder_ok_add_conn [OF sent(4,1)]) (use d n in auto)
next
  case (dial_failed w i pre choice kcp smux c e)
  have i: "current w = Some i" "poll_ok (loop (conns w ! i))" using dial_failed(1,3) by (auto simp: holder_ok_def current_def world_ok_def)
  note d = dialSession_finish_ok [OF i(2) dial_failed(2)]
  show ?case unfolding set_conn_holder by (rule holder_ok_set_conn [OF dial_failed(3) i(1)]) (use d in auto)
next
  case (dialled w i pre choice kcp smux c s conv now)
  have i: "current w = Some i" "poll_ok (loop (conns w ! i))" using dialled(1,3) by (auto simp: holder_ok_def current_def world_ok_def)
  note d = dialSession_finish_ok [OF i(2) dialled(2)]
  show ?case by (rule holder_ok_set_conn [OF dialled(3) i(1)]) (use d in auto)
next
  case (session_closed w i c e)
  have i: "current w = Some i" "poll_ok (loop (conns w ! i))" using session_closed(1,3) by (auto simp: holder_ok_def current_def world_ok_def)
  obtain c1 e1 where "poll_Close (loop (conns w ! i)) = Return (c1, e1)" "poll_ok c1" "semCur c1 = semCur (loop (conns w ! i))" "ctxDone c1"
    by (rule poll_Close_ok [OF i(2)])
  then show ?case unfolding set_conn_holder using session_closed(2) by (intro holder_ok_set_conn [OF session_closed(3) i(1)]) auto
next
  case (polling i w pw)
  have "world_ok pw" using polling by (auto simp: holder_ok_def intro: poll_step_ok)
  moreover have "ctxDone (loop (conns w ! i)) \<Longrightarrow> ctxDone (loop pw)" using poll_step_closed [OF polling(2)] by blast
  ultimately show ?case using polling(1,3) by (auto simp: holder_ok_def current_def nth_list_update)
qed

interpretation holding: step_invariant "keepAlive L temporary host pubkey" holder_ok for L temporary host pubkey
  by unfold_locales (rule keepAlive_ok)

text \<open>
  C34: The client never polls with two connections at once: however often it dials, however the set-up of a session
  fails, and whenever sessions end, of all the polling connections it ever made at most one is not cancelled, the one that it
  is dialling or that carries the holder's session, which local connections are given; and on each of them there are at most four polls in flight.
\<close>

theorem one_open_session:
  assumes "(keepAlive L temporary host pubkey)\<^sup>*\<^sup>* newSessionHolder w" and "i < length (conns w)" and "\<not> ctxDone (loop (conns w ! i))"
  shows "(\<forall>j < length (conns w). j \<noteq> i \<longrightarrow> ctxDone (loop (conns w ! j))) \<and> current w = Some i \<and>
    (phase w = Watching i \<longrightarrow> h_pconn (holder w) = Some i \<and> fst (getSession (holder w)) \<noteq> None) \<and>
    (\<forall>j < length (conns w). length (flights (conns w ! j)) \<le> 4)"
proof -
  have "holder_ok w" by (rule holding.reachable_inv [OF assms(1)]) (simp add: holder_ok_def newSessionHolder_def current_def)
  moreover from this have "current w = Some i" using assms(2,3) by (auto simp: holder_ok_def)
  ultimately show ?thesis by (auto simp: holder_ok_def getSession_def world_ok_def)
qed

theorem one_open_session_witness:
  "\<exists>w :: (bytes, bytes, byte, nat) holderWorld. (keepAlive xor_lib (\<lambda>_. False) (\<lambda>_. []) [5])\<^sup>*\<^sup>* newSessionHolder w \<and>
     length (conns w) = 1 \<and> \<not> ctxDone (loop (conns w ! 0)) \<and> current w = Some 0 \<and> length (flights (conns w ! 0)) \<le> 4"
proof -
  let ?r = "NewCacheRotor (\<lambda>_. Inr [1]) [str ''cache'']"
  let ?c = "NewPollingPacketConn [8] (replicate 8 7) NewQuotaManager ?r 0 0 (replicate 8 7) :: (bytes, bytes) PollingPacketConn"
  have e: "pconn ?c = NewQueuePacketConn (replicate 8 7)" "\<not> ctxDone ?c" "\<not> queuePacketConn.closed (NewQueuePacketConn (replicate 8 7 :: bytes))"
    by (simp_all add: NewPollingPacketConn_def NewQueuePacketConn_def)
  obtain pre m where i: "InitiateHandshake xor_lib [MsgTypeHandshakeInit] [5] = Inr (pre, m)" by (simp add: InitiateHandshake_def xor_lib_def)
  obtain pc where "WriteTo (pconn ?c) m [8] 0 = Return (pc, Inr (length m))"
    using WriteTo_appends [OF NewQueuePacketConn_ok e(3)] unfolding e(1) by blast
  then have s: "dialSession_start xor_lib ?c [8] [5] 0 = Return (?c\<lparr>pconn := pc\<rparr>, Inr pre)"
    using i by (simp add: dialSession_start_def noiseDial_send_def)
  let ?w = "(newSessionHolder :: (bytes, bytes, byte, nat) holderWorld)\<lparr>conns := [poll_start (?c\<lparr>pconn := pc\<rparr>)], phase := Handshaking 0 pre\<rparr>"
  have "keepAlive xor_lib (\<lambda>_. False) (\<lambda>_. []) [5] newSessionHolder ?w"
    using keepAlive.sent [where w = newSessionHolder, OF _ NewCacheRotor_ok s, of "\<lambda>_. False" "\<lambda>_. []"] by (simp add: newSessionHolder_def)
  then have r: "(keepAlive xor_lib (\<lambda>_. False) (\<lambda>_. []) [5])\<^sup>*\<^sup>* newSessionHolder ?w" by (rule r_into_rtranclp)
  have "\<not> ctxDone (loop (conns ?w ! 0))" using e(2) by (simp add: poll_start_def)
  with one_open_session [OF r, of 0] r show ?thesis by (intro exI [of _ ?w]) simp
qed

section \<open>Local connections\<close>

text \<open>The accepting loop of \<^verbatim>\<open>run\<close>: the connections it has started a goroutine for, and the error it has returned.\<close>

fun acceptLocals :: "(goerror \<Rightarrow> bool) \<Rightarrow> (goerror + 'c) list \<Rightarrow> 'c list \<times> goerror option" where
  "acceptLocals temporary [] = ([], None)"
| "acceptLocals temporary (Inl e # rs) =
     (if temporary e then acceptLocals temporary rs else ([], Some e))"
| "acceptLocals temporary (Inr conn # rs) =
     (let (conns, r) = acceptLocals temporary rs in (conn # conns, r))"

text \<open>The goroutine: what it has done with the connection when it returns, and whether it dropped it.\<close>

inductive serveLocal :: "('s \<Rightarrow> bool) \<Rightarrow> ('s \<Rightarrow> goerror + unit) \<Rightarrow> 's sessionHolder \<Rightarrow> bool \<Rightarrow> relay \<Rightarrow> bool"
  for isClosed openStream h where
  no_session: "getSession h = (None, conv) \<Longrightarrow> serveLocal isClosed openStream h True (relay_start\<lparr>tcpClosed := True\<rparr>)"
| session_ended: "getSession h = (Some s, conv) \<Longrightarrow> isClosed s \<Longrightarrow> serveLocal isClosed openStream h True (relay_start\<lparr>tcpClosed := True\<rparr>)"
| served: "getSession h = (Some s, conv) \<Longrightarrow> \<not> isClosed s \<Longrightarrow> handle (openStream s) (res, r) \<Longrightarrow>
    serveLocal isClosed openStream h False (r\<lparr>tcpClosed := True\<rparr>)"

lemma acceptLocals_eq: "acceptLocals temporary rs = (accepted_conns temporary rs, accept_error temporary rs)"
  by (induction temporary rs rule: acceptLocals.induct) (auto simp: accepted_conns_def accept_error_def goes_on_def)

text \<open>
  Every local connection is dealt with: the loop starts a goroutine for each of those accepted before the first error
  that is not temporary, and when that goroutine returns the connection is closed; it was dropped, unread, exactly if there was
  no session or the session had ended, and otherwise what was carried in either direction is a prefix of what was read there.
\<close>

theorem local_connections_served:
  assumes "serveLocal isClosed openStream h dropped r"
  shows "acceptLocals temporary rs = (accepted_conns temporary rs, accept_error temporary rs) \<and> tcpClosed r \<and>
    (dropped \<longleftrightarrow> (case h_sess h of None \<Rightarrow> True | Some s \<Rightarrow> isClosed s)) \<and> (dropped \<longrightarrow> tcp_in r = [] \<and> tcp_out r = []) \<and>
    prefix (stream_out r) (tcp_in r) \<and> prefix (tcp_out r) (stream_in r)"
  using assms
proof (cases rule: serveLocal.cases)
  case (served s conv res r')
  have "prefix (stream_out r') (tcp_in r') \<and> prefix (tcp_out r') (stream_in r')"
    by (rule handle_prefix [OF served(5)])
  then show ?thesis using served by (auto simp: acceptLocals_eq getSession_def)
qed (auto simp: acceptLocals_eq getSession_def relay_start_def)

theorem local_connections_served_witness:
  "\<exists>r. serveLocal (\<lambda>_. False) (\<lambda>_. Inr ()) \<lparr>h_sess = Some (7 :: nat), h_conv = 3, h_pconn = Some 0, sessionStart = 5\<rparr> False r \<and> stream_out r = [1, 2] \<and> tcpClosed r"
proof -
  let ?h = "\<lparr>h_sess = Some (7 :: nat), h_conv = 3, h_pconn = Some 0, sessionStart = 5\<rparr>"
  obtain r where r: "relay_step\<^sup>*\<^sup>* relay_start r" "up r = Done" "down r = Done" "stream_out r = [1, 2]" by (rule sample_relay)
  have s: "serveLocal (\<lambda>_. False) (\<lambda>_. Inr ()) ?h False (r\<lparr>streamClosed := True, tcpClosed := True\<rparr>)"
    using serveLocal.served [of ?h 7 3 "\<lambda>_. False" "\<lambda>_. Inr ()", OF _ _ handle.handled [OF r(1-3)]] by (simp add: getSession_def)
  from local_connections_served [OF s] s r(4) show ?thesis by (intro exI [of _ "r\<lparr>streamClosed := True, tcpClosed := True\<rparr>"]) simp
qed

section \<open>Status\<close>

record StatusSnapshot =
  SessionElapsedSec :: rat
  st_Conv :: bytes
  Connecting :: bool
  st_IsSlowMode :: bool
  QuotaErrors :: int
  RatePerSec :: rat
  st_BytesPerSec :: rat
  st_AvgRTTms :: rat
  st_ErrorRate :: rat
  st_MaxPayload :: int
  st_Concurrency :: int
  CurrentCache :: bytes

text \<open>
  \<open>now\<close> and \<open>t\<close> are the readings of the clock; the manager and the rotor are shared by all sessions, and
  asking whether the mode is slow may end it.
\<close>

definition Status ::
  "('u \<Rightarrow> bytes) \<Rightarrow> 's sessionHolder \<Rightarrow> ('a, 'u) PollingPacketConn option \<Rightarrow> 'u CacheRotor \<Rightarrow> QuotaManager \<Rightarrow> int \<Rightarrow> int \<Rightarrow>
   (StatusSnapshot \<times> QuotaManager) run" where
  "Status host h conn r q now t =
     run_bind (CurrentName host r) (\<lambda>name.
     let elapsedSec = (if \<not> IsZero (sessionStart h) then Seconds (timeSub now (sessionStart h)) else 0);
         (slow, q) = IsSlowMode q t;
         snap = \<lparr>SessionElapsedSec = elapsedSec, st_Conv = hexEncodeToString (word_bytes (h_conv h)), Connecting = (h_sess h = None),
                 st_IsSlowMode = slow, QuotaErrors = ErrorCount q, RatePerSec = 0, st_BytesPerSec = 0, st_AvgRTTms = 0,
                 st_ErrorRate = 0, st_MaxPayload = 0, st_Concurrency = 0, CurrentCache = name\<rparr>
     in case conn of
          None \<Rightarrow> Return (snap, q)
        | Some c \<Rightarrow>
            (let (bps, rtt, errRate) = GetStats (adaptive c);
                 (mp, conc, _) = GetParams (adaptive c)
             in Return (snap\<lparr>RatePerSec := CurrentRate c, st_BytesPerSec := bps, st_AvgRTTms := rtt, st_ErrorRate := errRate,
                             st_MaxPayload := mp, st_Concurrency := conc\<rparr>, q)))"

text \<open>
  The status can be asked for at any time, also before the first session: it never panics, says
  \<open>connecting\<close> exactly until there is a session, gives the conversation as eight hexadecimal digits and the name of the current
  cache, and the figures it shows for a connection are the adaptive controller's, within their bounds.
\<close>

theorem Status_total:
  assumes "rotor_ok r" and "\<forall>c. conn = Some c \<longrightarrow> poll_ok c"
  shows "\<exists>snap q'. Status host h conn r q now t = Return (snap, q') \<and>
    Connecting snap = (h_sess h = None) \<and> length (st_Conv snap) = 8 \<and> CurrentName host r = Return (CurrentCache snap) \<and>
    st_IsSlowMode snap = fst (IsSlowMode q t) \<and>
    (case conn of None \<Rightarrow> st_Concurrency snap = 0
     | Some c \<Rightarrow> st_MaxPayload snap = MaxPayload (adaptive c) \<and> 1 \<le> st_Concurrency snap \<and> st_Concurrency snap \<le> 4)"
proof -
  obtain name where n: "CurrentName host r = Return name"
    using assms(1) that by (cases "caches r ! nat (rcur r)") (auto simp: CurrentName_def nameAt_def rotor_ok_def)
  have l: "length (hexEncodeToString b) = 2 * length b" for b by (induction b) simp_all
  have w: "length (word_bytes x) = 4" for x by (simp add: word_bytes_def)
  show ?thesis
    using n assms(2)
    by (cases "IsSlowMode q t")
      (auto simp: Status_def Let_def l w GetStats_def GetParams_def poll_ok_def adaptive_ok_def adp_consts split: option.splits)
qed

theorem Status_total_witness:
  "\<exists>snap q'. Status (\<lambda>_. str ''host'') (holder (newSessionHolder :: (nat, nat, nat, nat) holderWorld)) (Some sample_conn) (NewCacheRotor (\<lambda>_. Inr [1 :: byte]) [])
     NewQuotaManager 0 0 = Return (snap, q') \<and> Connecting snap"
  using Status_total [where conn = "Some sample_conn" and r = "NewCacheRotor (\<lambda>_. Inr [1 :: byte]) []" and
      host = "\<lambda>_. str ''host''" and h = "holder (newSessionHolder :: (nat, nat, nat, nat) holderWorld)" and q = NewQuotaManager and now = 0 and t = 0, OF NewCacheRotor_ok]
    sample_conn_ok by (auto simp: newSessionHolder_def)

end
