(* ===== verification/Client_Status.thy ===== *)
theory Client_Status
  imports Client_Main
begin

text \<open>
  The rest of \<^verbatim>\<open>run\<close> of champa-client/main.go: listening, the status server with its two handlers, opening the dashboard in a browser, and then
  the accepting loop. Whether listening works, what \<^verbatim>\<open>Accept\<close> returns and the operating system are arguments. The text of the
  dashboard page is a value of its own; a JSON object is the list of its fields, not their text.
\<close>

section \<open>The answers of the status server\<close>

datatype json = JNumber rat | JString bytes | JBool bool

definition json_fields :: "StatusSnapshot \<Rightarrow> (string \<times> json) list" where
  "json_fields s =
     [(''session_elapsed_sec'', JNumber (SessionElapsedSec s)), (''conv'', JString (st_Conv s)), (''connecting'', JBool (Connecting s)),
      (''is_slow_mode'', JBool (st_IsSlowMode s)), (''quota_errors'', JNumber (of_int (QuotaErrors s))),
      (''rate_per_sec'', JNumber (RatePerSec s)), (''bytes_per_sec'', JNumber (st_BytesPerSec s)), (''avg_rtt_ms'', JNumber (st_AvgRTTms s)),
      (''error_rate'', JNumber (st_ErrorRate s)), (''max_payload'', JNumber (of_int (st_MaxPayload s))),
      (''concurrency'', JNumber (of_int (st_Concurrency s))), (''current_cache'', JString (CurrentCache s))]"

datatype status_body = DashboardHTML | StatusJSON "(string \<times> json) list" | ErrorPage | RedirectPage

record status_answer =
  sa_status :: nat
  sa_headers :: "(string \<times> bytes) list"
  sa_body :: status_body

text \<open>\<^verbatim>\<open>strings.Contains\<close>.\<close>

fun Contains :: "bytes \<Rightarrow> bytes \<Rightarrow> bool" where
  "Contains [] t \<longleftrightarrow> t = []"
| "Contains (c # s) t \<longleftrightarrow> take (length t) (c # s) = t \<or> Contains s t"

lemma Contains_iff: "Contains s t \<longleftrightarrow> (\<exists>a b. s = a @ t @ b)"
proof (induction s)
  case (Cons c s)
  have "take (length t) (c # s) = t \<longleftrightarrow> (\<exists>b. c # s = t @ b)" by (metis append_eq_conv_conj append_take_drop_id)
  moreover have "(\<exists>a b. c # s = a @ t @ b) \<longleftrightarrow> (\<exists>b. c # s = t @ b) \<or> (\<exists>a b. s = a @ t @ b)" by (auto simp: Cons_eq_append_conv)
  ultimately show ?case using Cons by (simp only: Contains.simps)
qed auto

text \<open>
  The two handlers. \<open>status\<close> is the call of \<open>Status\<close>, which also returns the quota manager as it leaves it; the second handler only makes it when it
  answers with JSON. \<open>accept\<close> is the request's Accept header.
\<close>

definition serveJSON :: "(StatusSnapshot \<times> QuotaManager) run \<Rightarrow> (status_answer \<times> QuotaManager) run" where
  "serveJSON status =
     run_bind status (\<lambda>(snap, q). Return
       (\<lparr>sa_status = 200, sa_headers = [(''Content-Type'', str ''application/json''), (''Access-Control-Allow-Origin'', str ''*'')],
         sa_body = StatusJSON (json_fields snap)\<rparr>, q))"

definition serveStatus :: "(StatusSnapshot \<times> QuotaManager) run \<Rightarrow> QuotaManager \<Rightarrow> bytes \<Rightarrow> (status_answer \<times> QuotaManager) run" where
  "serveStatus status q accept =
     (if Contains accept (str ''text/html'')
      then Return (\<lparr>sa_status = 200, sa_headers = [(''Content-Type'', str ''text/html; charset=utf-8''), (''Cache-Control'', str ''no-cache'')],
                    sa_body = DashboardHTML\<rparr>, q)
      else serveJSON status)"

text \<open>
  \<^verbatim>\<open>http.ServeMux\<close> with these two patterns: a path that is not clean is redirected to the clean one (except for CONNECT), and
  no pattern ends in a slash, so a path has to be equal to one of them.
\<close>

definition cleanPath :: "bytes \<Rightarrow> bytes" where
  "cleanPath p =
     (if p = [] then str ''/''
      else (let p = (if hd p \<noteq> 47 then 47 # p else p); np = path_Clean p
            in if last p = 47 \<and> np \<noteq> str ''/'' then np @ str ''/'' else np))"

definition statusMux ::
  "(StatusSnapshot \<times> QuotaManager) run \<Rightarrow> QuotaManager \<Rightarrow> string \<Rightarrow> bytes \<Rightarrow> bytes \<Rightarrow> (status_answer \<times> QuotaManager) run" where
  "statusMux status q meth url_path accept =
     (if meth \<noteq> ''CONNECT'' \<and> cleanPath url_path \<noteq> url_path
      then Return (\<lparr>sa_status = 301, sa_headers = [(''Location'', escape (cleanPath url_path) encodePath)], sa_body = RedirectPage\<rparr>, q)
      else if url_path = str ''/status.json'' then serveJSON status
      else if url_path = str ''/status'' then serveStatus status q accept
      else Return (\<lparr>sa_status = 404, sa_headers = [(''Content-Type'', str ''text/plain; charset=utf-8''), (''X-Content-Type-Options'', str ''nosniff'')],
                    sa_body = ErrorPage\<rparr>, q))"

section \<open>The run loop\<close>

definition statusAddr :: bytes where
  "statusAddr = str ''127.0.0.1:7001''"

definition millisecond :: int where
  "millisecond = 1000000"

text \<open>How long \<^verbatim>\<open>openBrowser\<close> waits, and the command it starts then.\<close>

definition openBrowser :: "bytes \<Rightarrow> bytes \<Rightarrow> int \<Rightarrow> int \<times> bytes list" where
  "openBrowser goos url delayMs =
     (delayMs * millisecond,
      if goos = str ''windows'' then [str ''rundll32'', str ''url.dll,FileProtocolHandler'', url]
      else if goos = str ''darwin'' then [str ''open'', url]
      else [str ''xdg-open'', url])"

text \<open>What \<^verbatim>\<open>run\<close> has done: the browser it opens, the local connections it has started a goroutine for, and the error it has returned.\<close>

record 'c client_run =
  cr_browser :: "(int \<times> bytes list) option"
  cr_locals :: "'c list"
  cr_error :: "goerror option"

definition run_client :: "goerror + unit \<Rightarrow> bytes \<Rightarrow> bytes \<Rightarrow> (goerror \<Rightarrow> bool) \<Rightarrow> (goerror + 'c) list \<Rightarrow> 'c client_run" where
  "run_client listen statusA goos temporary accepts =
     (case listen of
        Inl e \<Rightarrow> \<lparr>cr_browser = None, cr_locals = [], cr_error = Some (ErrorText ''listen'')\<rparr>
      | Inr _ \<Rightarrow>
          (let browser = (if statusA \<noteq> [] then Some (openBrowser goos (str ''http://'' @ statusA @ str ''/status'') 800) else None);
               (conns, e) = acceptLocals temporary accepts
           in \<lparr>cr_browser = browser, cr_locals = conns, cr_error = e\<rparr>))"

section \<open>Properties\<close>

lemma clean_status: "cleanPath (str ''/status.json'') = str ''/status.json''" "cleanPath (str ''/status'') = str ''/status''"
  "str ''/status'' \<noteq> str ''/status.json''"
  by code_simp+

lemma CurrentName_ok: "rotor_ok r \<Longrightarrow> CurrentName host r = Return (case caches r ! nat (rcur r) of None \<Rightarrow> str ''direct'' | Some u \<Rightarrow> host u)"
  by (simp add: CurrentName_def nameAt_def rotor_ok_def split: option.splits)

text \<open>The figures of the client, from the state of its parts, under the names the dashboard reads.\<close>

definition figures ::
  "('u \<Rightarrow> bytes) \<Rightarrow> 's sessionHolder \<Rightarrow> ('a, 'u) PollingPacketConn option \<Rightarrow> 'u CacheRotor \<Rightarrow> QuotaManager \<Rightarrow> int \<Rightarrow> int \<Rightarrow> (string \<times> json) list" where
  "figures host h conn r q now t =
       [(''session_elapsed_sec'', JNumber (if sessionStart h = 0 then 0 else Seconds (timeSub now (sessionStart h)))),
        (''conv'', JString (hexEncodeToString (word_bytes (h_conv h)))),
        (''connecting'', JBool (h_sess h = None)),
        (''is_slow_mode'', JBool (fst (IsSlowMode q t))),
        (''quota_errors'', JNumber (of_int (consecErrors q))),
        (''rate_per_sec'', JNumber (case conn of None \<Rightarrow> 0 | Some c \<Rightarrow> currentRate c)),
        (''bytes_per_sec'', JNumber (case conn of None \<Rightarrow> 0 | Some c \<Rightarrow> BytesPerSec (adaptive c))),
        (''avg_rtt_ms'', JNumber (case conn of None \<Rightarrow> 0 | Some c \<Rightarrow> AvgRTTms (adaptive c))),
        (''error_rate'', JNumber (case conn of None \<Rightarrow> 0 | Some c \<Rightarrow> ErrorRate (adaptive c))),
        (''max_payload'', JNumber (of_int (case conn of None \<Rightarrow> 0 | Some c \<Rightarrow> MaxPayload (adaptive c)))),
        (''concurrency'', JNumber (of_int (case conn of None \<Rightarrow> 0 | Some c \<Rightarrow> Concurrency (adaptive c)))),
        (''current_cache'', JString (case caches r ! nat (rcur r) of None \<Rightarrow> str ''direct'' | Some u \<Rightarrow> host u))]"

lemma Status_figures:
  assumes "rotor_ok r"
  obtains snap where "Status host h conn r q now t = Return (snap, snd (IsSlowMode q t))" "json_fields snap = figures host h conn r q now t"
proof -
  have "ErrorCount (snd (IsSlowMode q t)) = consecErrors q" by (simp add: ErrorCount_def IsSlowMode_def)
  then have "\<exists>snap. Status host h conn r q now t = Return (snap, snd (IsSlowMode q t)) \<and> json_fields snap = figures host h conn r q now t"
    by (cases conn)
      (simp_all add: Status_def CurrentName_ok [OF assms] Let_def case_prod_beta IsZero_def json_fields_def figures_def CurrentRate_def GetStats_def GetParams_def)
  then show ?thesis using that by blast
qed

text \<open>
  C39: The status server answers every request, without a panic and whatever state the client is in: with status 200 exactly for the paths
  \<^verbatim>\<open>/status\<close> and \<^verbatim>\<open>/status.json\<close>, with the dashboard exactly when the path is \<^verbatim>\<open>/status\<close> and the Accept header contains
  \<^verbatim>\<open>text/html\<close>, and otherwise, for these two paths, with a JSON object of twelve fields: the age of the session, the conversation's number in hexadecimal,
  whether there is no session yet, the mode and the error count of the quota manager, the rate, throughput, round-trip time, error rate, payload
  size and concurrency of the connection (zero if there is none), and the name of the current cache. Of the client's state, only asking for the mode
  may change anything.
\<close>

theorem status_server_answers:
  assumes "rotor_ok r"
  shows "\<exists>ans q'. statusMux (Status host h conn r q now t) q meth url_path accept = Return (ans, q') \<and>
    (sa_status ans = 200 \<longleftrightarrow> url_path = str ''/status'' \<or> url_path = str ''/status.json'') \<and>
    (sa_body ans = DashboardHTML \<longleftrightarrow> url_path = str ''/status'' \<and> (\<exists>a b. accept = a @ str ''text/html'' @ b)) \<and>
    (if sa_status ans = 200 \<and> sa_body ans \<noteq> DashboardHTML
     then q' = snd (IsSlowMode q t) \<and>
      sa_headers ans = [(''Content-Type'', str ''application/json''), (''Access-Control-Allow-Origin'', str ''*'')] \<and>
      sa_body ans = StatusJSON (figures host h conn r q now t)
     else q' = q)"
proof -
  obtain snap where s: "Status host h conn r q now t = Return (snap, snd (IsSlowMode q t))" and f: "json_fields snap = figures host h conn r q now t"
    by (rule Status_figures [OF assms])
  consider "meth \<noteq> ''CONNECT'' \<and> cleanPath url_path \<noteq> url_path" | "url_path = str ''/status.json''" | "url_path = str ''/status''" "Contains accept (str ''text/html'')"
    | "url_path = str ''/status''" "\<not> Contains accept (str ''text/html'')"
    | "meth = ''CONNECT'' \<or> cleanPath url_path = url_path" "url_path \<noteq> str ''/status.json''" "url_path \<noteq> str ''/status''" by blast
  then show ?thesis
    by cases (use clean_status in \<open>auto simp: statusMux_def serveJSON_def serveStatus_def s f Contains_iff\<close>)
qed

theorem status_server_answers_witness:
  "\<exists>ans q' fs. statusMux (Status (\<lambda>_. str ''host'') (holder (newSessionHolder :: (nat, nat, nat, nat) holderWorld)) (Some sample_conn)
       (NewCacheRotor (\<lambda>_. Inr [1 :: byte]) []) (NewQuotaManager\<lparr>consecErrors := 3\<rparr>) 0 0) (NewQuotaManager\<lparr>consecErrors := 3\<rparr>) ''GET'' (str ''/status'') (str ''*/*'') = Return (ans, q') \<and>
     sa_status ans = 200 \<and> sa_body ans = StatusJSON fs \<and> map_of fs ''quota_errors'' = Some (JNumber 3) \<and> map_of fs ''connecting'' = Some (JBool True) \<and>
     map_of fs ''bytes_per_sec'' = Some (JNumber (BytesPerSec (adaptive sample_conn)))"
proof -
  have "\<not> Contains (str ''*/*'') (str ''text/html'')" by code_simp
  then have a: "\<not> (\<exists>a b. str ''*/*'' = a @ str ''text/html'' @ b)" by (simp only: Contains_iff) simp
  have h: "h_sess (holder (newSessionHolder :: (nat, nat, nat, nat) holderWorld)) = None" by (simp add: newSessionHolder_def)
  from status_server_answers [where conn = "Some sample_conn" and r = "NewCacheRotor (\<lambda>_. Inr [1 :: byte]) []" and host = "\<lambda>_. str ''host''"
      and h = "holder (newSessionHolder :: (nat, nat, nat, nat) holderWorld)" and q = "NewQuotaManager\<lparr>consecErrors := 3\<rparr>" and now = 0 and t = 0 and meth = "''GET''"
      and url_path = "str ''/status''" and accept = "str ''*/*''", OF NewCacheRotor_ok]
  show ?thesis
  proof (elim exE conjE, goal_cases)
    case (1 ans q')
    then have "sa_status ans = 200" "sa_body ans \<noteq> DashboardHTML" using a by auto
    with 1 show ?thesis by (intro exI [of _ ans] exI [of _ q']) (simp add: h figures_def)
  qed
qed

text \<open>
  The client runs until it can no longer accept: \<open>run\<close> fails at once if it cannot listen, and otherwise opens the dashboard, serves every local connection
  that comes before the first error of \<^verbatim>\<open>Accept\<close> that is not temporary, and returns that error.
\<close>

theorem run_client_until_error:
  "run_client (Inr ()) statusAddr goos temporary accepts =
     \<lparr>cr_browser = Some (openBrowser goos (str ''http://127.0.0.1:7001/status'') 800),
      cr_locals = accepted_conns temporary accepts, cr_error = accept_error temporary accepts\<rparr> \<and>
   cr_locals (run_client (Inl e) statusAddr goos temporary accepts) = [] \<and>
   cr_error (run_client (Inl e) statusAddr goos temporary accepts) = Some (ErrorText ''listen'')"
  by (simp add: run_client_def acceptLocals_eq statusAddr_def) (simp add: str_def)

end
