(* ===== verification/Server_Main.thy ===== *)
theory Server_Main
  imports Noise_Loop Noise_Keys Stream_Relay
begin

text \<open>
  What champa-server/main.go does around the tunnel: \<^verbatim>\<open>main\<close> with its two modes, \<^verbatim>\<open>run\<close>, and the loops that accept
  KCP sessions and smux streams.

  KCP, smux and the HTTP server are not part of the repository. What their calls return is an argument: for the accepting
  loops the list of the results so far, for \<^verbatim>\<open>run\<close> the errors that its goroutines have sent. \<open>temporary\<close> is the
  \<^verbatim>\<open>Temporary\<close> method of network errors.
\<close>

section \<open>Accepting\<close>

text \<open>The streams that were handed to a goroutine, and the result of the function once it returns.\<close>

fun acceptStream_loop :: "(goerror \<Rightarrow> bool) \<Rightarrow> (goerror + 's) list \<Rightarrow> 's list \<times> goerror option option" where
  "acceptStream_loop temporary [] = ([], None)"
| "acceptStream_loop temporary (Inl e # rs) =
     (if temporary e then acceptStream_loop temporary rs
      else ([], Some (if e = ErrClosedPipe then None else Some e)))"
| "acceptStream_loop temporary (Inr stream # rs) =
     (let (streams, r) = acceptStream_loop temporary rs in (stream # streams, r))"

definition acceptStreams ::
  "(goerror \<Rightarrow> bool) \<Rightarrow> goerror + unit \<Rightarrow> (goerror + 's) list \<Rightarrow> 's list \<times> goerror option option" where
  "acceptStreams temporary smuxServer rs =
     (case smuxServer of
        Inl e \<Rightarrow> ([], Some (Some e))
      | Inr _ \<Rightarrow> acceptStream_loop temporary rs)"

fun acceptSessions :: "(goerror \<Rightarrow> bool) \<Rightarrow> (goerror + 'c) list \<Rightarrow> 'c list \<times> goerror option" where
  "acceptSessions temporary [] = ([], None)"
| "acceptSessions temporary (Inl e # rs) =
     (if temporary e then acceptSessions temporary rs else ([], Some e))"
| "acceptSessions temporary (Inr conn # rs) =
     (let (conns, r) = acceptSessions temporary rs in (conn # conns, r))"

text \<open>The goroutine of a session: its streams, whether it has closed the session, and the error it logs.\<close>

definition serveSession ::
  "(goerror \<Rightarrow> bool) \<Rightarrow> goerror + unit \<Rightarrow> (goerror + 's) list \<Rightarrow> 's list \<times> bool \<times> goerror option" where
  "serveSession temporary smuxServer rs =
     (case acceptStreams temporary smuxServer rs of
        (streams, None) \<Rightarrow> (streams, False, None)
      | (streams, Some res) \<Rightarrow>
          (streams, True, case res of None \<Rightarrow> None | Some e \<Rightarrow> if errorsIs e ErrClosedPipe then None else Some e))"

lemma acceptSessions_eq: "acceptSessions temporary rs = (accepted_conns temporary rs, accept_error temporary rs)"
  by (induction temporary rs rule: acceptSessions.induct) (auto simp: accepted_conns_def accept_error_def goes_on_def)

lemma acceptStream_loop_eq:
  "acceptStream_loop temporary rs =
     (accepted_conns temporary rs, map_option (\<lambda>e. if e = ErrClosedPipe then None else Some e) (accept_error temporary rs))"
  by (induction temporary rs rule: acceptStream_loop.induct) (auto simp: accepted_conns_def accept_error_def goes_on_def)

text \<open>
  The server serves every session and every stream that is accepted, in the order they come, until the first error
  that is not temporary; no temporary error ends a loop. A session ends exactly then, is closed, and its error is logged unless it is that the
  pipe was closed.
\<close>

theorem accepting_serves:
  "acceptSessions temporary rs = (accepted_conns temporary rs, accept_error temporary rs) \<and>
   acceptSessions temporary (rs @ Inl e # rs') =
     (if temporary e \<or> accept_error temporary rs \<noteq> None then acceptSessions temporary (rs @ rs') else (accepted_conns temporary rs, Some e)) \<and>
   serveSession temporary (Inr ()) rs = (accepted_conns temporary rs, accept_error temporary rs \<noteq> None,
     case accept_error temporary rs of None \<Rightarrow> None | Some e \<Rightarrow> if errorsIs e ErrClosedPipe then None else Some e)"
proof -
  have "acceptSessions temporary (rs @ Inl e # rs') =
     (if temporary e \<or> accept_error temporary rs \<noteq> None then acceptSessions temporary (rs @ rs') else (accepted_conns temporary rs, Some e))"
    by (induction temporary rs rule: acceptSessions.induct) (auto simp: accepted_conns_def accept_error_def goes_on_def split: prod.splits)
  then show ?thesis
    by (auto simp: acceptSessions_eq serveSession_def acceptStreams_def acceptStream_loop_eq split: option.splits)
qed

section \<open>run\<close>

datatype origin = FromNoiseLoop | FromAcceptSessions | FromListenAndServe

primrec origin_text :: "origin \<Rightarrow> string" where
  "origin_text FromNoiseLoop = ''noiseLoop''"
| "origin_text FromAcceptSessions = ''acceptSessions''"
| "origin_text FromListenAndServe = ''ListenAndServe''"

text \<open>The connections that \<^verbatim>\<open>run\<close> makes, and their deferred closing, in reverse order.\<close>

definition run_start :: "'a \<Rightarrow> ('cs, 'a) noiseServer" where
  "run_start dummyAddr = noise_start (NewQueuePacketConn dummyAddr) (NewQueuePacketConn dummyAddr)"

definition close_conns :: "('cs, 'a) noiseServer \<Rightarrow> ('cs, 'a) noiseServer run" where
  "close_conns s =
     run_bind (Close (plainConn s)) (\<lambda>(pc, _).
     run_bind (Close (noiseConn s)) (\<lambda>(nc, _).
     Return (s\<lparr>plainConn := pc, noiseConn := nc\<rparr>)))"

text \<open>
  \<open>s\<close> is the state of the Noise layer when \<^verbatim>\<open>run\<close> returns, and \<open>errs\<close> the contents of the channel \<^verbatim>\<open>done\<close>, oldest first; the
  value is \<open>None\<close> while there is no error.
\<close>

definition server_run ::
  "goerror + unit \<Rightarrow> (origin \<times> goerror) list \<Rightarrow> ('cs, 'a) noiseServer \<Rightarrow> (('cs, 'a) noiseServer \<times> goerror) run option" where
  "server_run serveConn errs s =
     (case serveConn of
        Inl e \<Rightarrow> Some (run_bind (close_conns s) (\<lambda>s. Return (s, ErrorText ''opening KCP listener'')))
      | Inr _ \<Rightarrow>
          (case errs of
             [] \<Rightarrow> None
           | (org, e) # _ \<Rightarrow> Some (run_bind (close_conns s) (\<lambda>s. Return (s, Wrapped (origin_text org) e)))))"

lemma close_conns_closed:
  assumes "noise_ok s"
  obtains s' where "close_conns s = Return s'" "closed (noiseConn s')" "closed (plainConn s')" "conn_ok (noiseConn s')" "conn_ok (plainConn s')"
proof -
  have ok: "conn_ok (plainConn s)" "conn_ok (noiseConn s)" using assms by (simp_all add: noise_ok_def)
  obtain pc e1 where p: "Close (plainConn s) = Return (pc, e1)" "conn_ok pc" "closed pc" by (rule Close_closed [OF ok(1)])
  obtain nc e2 where n: "Close (noiseConn s) = Return (nc, e2)" "conn_ok nc" "closed nc" by (rule Close_closed [OF ok(2)])
  show ?thesis using p n by (intro that [of "s\<lparr>plainConn := pc, noiseConn := nc\<rparr>"]) (simp_all add: close_conns_def)
qed

lemma errorsIs_refl: "errorsIs e e"
  by (cases e) simp_all

text \<open>
  C36: When the server's \<^verbatim>\<open>run\<close> returns, with the error of the listener or the first error of one of its goroutines, nothing of
  the tunnel goes on: both connections are closed, what the HTTP handler or KCP still writes is refused, and the next
  iteration of the Noise loop is its last and delivers nothing.
\<close>

theorem server_run_stops:
  assumes "noise_ok s" and "server_run serveConn errs s = Some r" and "\<And>e. \<not> temporary (OpError ''read'' e)"
  shows "\<exists>s' e. r = Return (s', e) \<and> closed (noiseConn s') \<and> closed (plainConn s') \<and>
    (serveConn = Inr () \<longrightarrow> (\<exists>org e'. errs \<noteq> [] \<and> hd errs = (org, e') \<and> errorsIs e e')) \<and>
    QueueIncoming (noiseConn s') p a = noiseConn s' \<and>
    (\<exists>x. WriteTo (plainConn s') p a now = Return (plainConn s', Inl x)) \<and>
    (\<exists>s'' x. noise_iteration L temporary privkey pick now s' = Return (s'', []) \<and> halted s'' = Some x)"
proof -
  obtain s' where s: "close_conns s = Return s'" "closed (noiseConn s')" "closed (plainConn s')" "conn_ok (noiseConn s')" "conn_ok (plainConn s')"
    by (rule close_conns_closed [OF assms(1)])
  obtain e where e: "r = Return (s', e)" "serveConn = Inr () \<longrightarrow> (\<exists>org e'. errs \<noteq> [] \<and> hd errs = (org, e') \<and> errorsIs e e')"
    using assms(2) s(1) errorsIs_refl by (cases serveConn; cases errs) (auto simp: server_run_def)
  have "\<exists>x. WriteTo (plainConn s') p a now = Return (plainConn s', Inl x)"
    using closed_error [OF s(5,3), of "''write''"] s(3) by (auto simp: WriteTo_def WriteTo_queue_def)
  moreover have "\<exists>s'' x. noise_iteration L temporary privkey pick now s' = Return (s'', []) \<and> halted s'' = Some x"
  proof -
    obtain y where "opError ''read'' (noiseConn s') = Return (OpError ''read'' y)" using closed_error [OF s(4,2)] by blast
    then have "ReadMessageFrom (noiseConn s') pick = Return (noiseConn s', Some (Inl (OpError ''read'' y)))"
      using s(2) by (subst ReadMessageFrom.simps) (simp add: ReadFrom_def)
    then show ?thesis using assms(3) by (simp add: noise_iteration_def)
  qed
  moreover have "QueueIncoming (noiseConn s') p a = noiseConn s'" using s(2) by (simp add: QueueIncoming_def)
  ultimately show ?thesis using e s(2,3) by blast
qed

theorem server_run_stops_witness:
  "\<exists>s' e. server_run (Inr ()) [(FromListenAndServe, ExtErr 98)] (run_start [9 :: byte] :: (byte \<times> 64 word, bytes) noiseServer) = Some (Return (s', e)) \<and>
     closed (noiseConn s') \<and> errorsIs e (ExtErr 98)"
proof -
  let ?s = "run_start [9 :: byte] :: (byte \<times> 64 word, bytes) noiseServer"
  have ok: "noise_ok ?s" unfolding run_start_def by (rule noise_start_ok) (rule NewQueuePacketConn_ok)+
  obtain r where r: "server_run (Inr ()) [(FromListenAndServe, ExtErr 98)] ?s = Some r" by (simp add: server_run_def)
  from server_run_stops [OF ok r, of "\<lambda>_. False" "[]" "[]" 0 xor_lib "[5]" True] r show ?thesis by auto
qed

section \<open>main\<close>

record serverFlags =
  sf_genKey :: bool
  sf_privkey :: bytes
  sf_privkeyFile :: bytes
  sf_pubkeyFile :: bytes
  sf_args :: "bytes list"

text \<open>How \<^verbatim>\<open>main\<close> ends, or what it calls \<^verbatim>\<open>run\<close> with; \<open>Usage\<close> and \<open>Exit\<close> end the program with status 1.\<close>

datatype server_outcome = Usage | Exit string | Generated bytes | Serve bytes bytes bytes

text \<open>
  The private key of a server. \<open>gen\<close> is what the key generator of the Noise library returns.
\<close>

definition choosePrivkey ::
  "('cs, 'hs) noise_lib \<Rightarrow> osenv \<Rightarrow> bytes \<times> goerror option \<Rightarrow> files \<Rightarrow> bytes \<Rightarrow> bytes \<Rightarrow> (string + bytes) run" where
  "choosePrivkey L E gen fs privkeyFilename privkeyString =
     (if privkeyFilename \<noteq> [] \<and> privkeyString \<noteq> [] then Return (Inl ''only one of -privkey and -privkey-file may be used'')
      else if privkeyFilename \<noteq> []
      then (case readKeyFromFile E fs privkeyFilename of
              (key, None) \<Rightarrow> Return (Inr key)
            | (_, Some e) \<Rightarrow> Return (Inl ''cannot read privkey from file''))
      else if privkeyString \<noteq> []
      then (case DecodeKey privkeyString of
              (key, None) \<Rightarrow> Return (Inr key)
            | (_, Some e) \<Rightarrow> Return (Inl ''privkey format error''))
      else (case gen of
              (key, Some e) \<Rightarrow> Return (Inl ''cannot generate key'')
            | (key, None) \<Rightarrow> run_bind (PubkeyFromPrivkey L key) (\<lambda>pubkey. Return (Inr key))))"

text \<open>\<open>resolve\<close> is \<^verbatim>\<open>net.ResolveTCPAddr\<close>; of the address, only whether it has a host is looked at.\<close>

definition server_main ::
  "('cs, 'hs) noise_lib \<Rightarrow> osenv \<Rightarrow> (bytes \<Rightarrow> goerror + bool) \<Rightarrow> bytes \<times> goerror option \<Rightarrow> serverFlags \<Rightarrow> files \<Rightarrow>
   (files \<times> server_outcome) run" where
  "server_main L E resolve gen flags fs =
     (if sf_genKey flags
      then
        (if length (sf_args flags) \<noteq> 0 \<or> sf_privkey flags \<noteq> [] then Return (fs, Usage)
         else
           run_bind (generateKeypair L E gen (sf_privkeyFile flags) (sf_pubkeyFile flags) fs) (\<lambda>(fs, out, e).
           Return (fs, case e of None \<Rightarrow> Generated out | Some _ \<Rightarrow> Exit ''cannot generate keypair'')))
      else
        (case sf_args flags of
           [listen, upstream] \<Rightarrow>
             (if (case resolve upstream of Inl e \<Rightarrow> True | Inr has_host \<Rightarrow> \<not> has_host)
              then Return (fs, Exit ''cannot parse upstream address'')
              else
                run_bind (choosePrivkey L E gen fs (sf_privkeyFile flags) (sf_privkey flags)) (\<lambda>res.
                case res of
                  Inl msg \<Rightarrow> Return (fs, Exit msg)
                | Inr privkey \<Rightarrow> Return (fs, Serve listen upstream privkey)))
         | _ \<Rightarrow> Return (fs, Usage)))"

lemma readKeyFromFile_length: "readKeyFromFile E fs f = (key, None) \<Longrightarrow> length key = KeyLen"
  by (auto simp: readKeyFromFile_def DecodeKey_iff elim!: ReadKey_shape split: option.splits)

text \<open>The one source a key comes from.\<close>

definition key_source :: "osenv \<Rightarrow> bytes \<times> goerror option \<Rightarrow> files \<Rightarrow> bytes \<Rightarrow> bytes \<Rightarrow> bytes \<Rightarrow> bool" where
  "key_source E gen fs f s key \<longleftrightarrow>
     (if f \<noteq> [] then s = [] \<and> readKeyFromFile E fs f = (key, None)
      else if s \<noteq> [] then DecodeKey s = (key, None)
      else gen = (key, None))"

lemma choosePrivkey_source:
  assumes "choosePrivkey L E gen fs f s = Return (Inr key)"
  shows "key_source E gen fs f s key"
  using assms by (auto simp: choosePrivkey_def key_source_def run_bind_Return split: if_splits prod.splits option.splits)

lemma key_source_length:
  assumes "key_source E gen fs f s key" and "\<And>k. gen = (k, None) \<Longrightarrow> length k = KeyLen"
  shows "length key = KeyLen"
  using assms by (auto simp: key_source_def DecodeKey_iff dest: readKeyFromFile_length split: if_splits)

text \<open>
  The server only ever starts with a usable configuration: two arguments, an upstream address that resolves to a host, and
  a private key of 32 bytes that comes from exactly one source, the file, the option or the generator; and starting it
  changes no file. Without \<^verbatim>\<open>-gen-key\<close> no run of the program writes a file.
\<close>

theorem server_main_serves:
  assumes "server_main L E resolve gen flags fs = Return (fs', outcome)" and "\<not> sf_genKey flags"
    and "\<And>k. gen = (k, None) \<Longrightarrow> length k = KeyLen"
  shows "fs' = fs \<and> (\<forall>listen upstream key. outcome = Serve listen upstream key \<longrightarrow>
    sf_args flags = [listen, upstream] \<and> resolve upstream = Inr True \<and> length key = KeyLen \<and>
    key_source E gen fs (sf_privkeyFile flags) (sf_privkey flags) key)"
proof (cases "\<exists>listen upstream. sf_args flags = [listen, upstream] \<and> resolve upstream = Inr True")
  case False
  then show ?thesis
    using assms(1,2) by (auto simp: server_main_def split: list.splits sum.splits if_splits)
next
  case True
  then obtain listen upstream where args: "sf_args flags = [listen, upstream]" "resolve upstream = Inr True" by blast
  then obtain res where res: "choosePrivkey L E gen fs (sf_privkeyFile flags) (sf_privkey flags) = Return res"
    "fs' = fs" "outcome = (case res of Inl msg \<Rightarrow> Exit msg | Inr key \<Rightarrow> Serve listen upstream key)"
    using assms(1,2) that by (cases "choosePrivkey L E gen fs (sf_privkeyFile flags) (sf_privkey flags)") (auto simp: server_main_def split: sum.splits)
  have "key_source E gen fs (sf_privkeyFile flags) (sf_privkey flags) key \<and> length key = KeyLen" if "res = Inr key" for key
    using choosePrivkey_source [OF res(1) [unfolded that]] key_source_length assms(3) by blast
  then show ?thesis using args res(2,3) by (auto split: sum.splits)
qed

theorem server_main_serves_witness:
  "\<exists>key. server_main xor_lib no_failures (\<lambda>_. Inr True) (replicate 32 1, None)
      \<lparr>sf_genKey = False, sf_privkey = [], sf_privkeyFile = [], sf_pubkeyFile = [], sf_args = [str ''127.0.0.1:8080'', str ''127.0.0.1:7001'']\<rparr> Map.empty =
    Return (Map.empty, Serve (str ''127.0.0.1:8080'') (str ''127.0.0.1:7001'') key) \<and> length key = 32"
proof -
  let ?flags = "\<lparr>sf_genKey = False, sf_privkey = [], sf_privkeyFile = [], sf_pubkeyFile = [], sf_args = [str ''127.0.0.1:8080'', str ''127.0.0.1:7001'']\<rparr>"
  have r: "server_main xor_lib no_failures (\<lambda>_. Inr True) (replicate 32 1, None) ?flags Map.empty =
    Return (Map.empty, Serve (str ''127.0.0.1:8080'') (str ''127.0.0.1:7001'') (replicate 32 1))"
    by (simp add: server_main_def choosePrivkey_def PubkeyFromPrivkey_def xor_lib_def)
  from server_main_serves [OF r] r show ?thesis by (auto simp: KeyLen_def)
qed

end
