(* ===== verification/Command_Line.thy ===== *)
theory Command_Line
  imports Client_Main Server_Main
begin

text \<open>
  The command lines of the two programs: what is used of the package \<^verbatim>\<open>flag\<close>, the flags that \<^verbatim>\<open>main\<close> declares, and \<^verbatim>\<open>main\<close> on the
  arguments of the program. The texts that are printed are left out.
\<close>

section \<open>Parsing\<close>

datatype flag_kind = StringFlag | BoolFlag

datatype flag_error = BadFlagSyntax | FlagNotDefined bytes | FlagNeedsArgument bytes | InvalidBoolean bytes | HelpRequested

definition ParseBool :: "bytes \<Rightarrow> bool option" where
  "ParseBool s =
     (if s \<in> set (map str [''1'', ''t'', ''T'', ''true'', ''TRUE'', ''True'']) then Some True
      else if s \<in> set (map str [''0'', ''f'', ''F'', ''false'', ''FALSE'', ''False'']) then Some False
      else None)"

text \<open>
  The settings in the order in which they are made, and the remaining arguments. Flags end at the first argument that does not begin with a minus sign
  or is one alone, and after the argument \<^verbatim>\<open>--\<close>.
\<close>

fun parse_flags :: "(bytes \<times> flag_kind) list \<Rightarrow> bytes list \<Rightarrow> flag_error + (bytes \<times> bytes) list \<times> bytes list" where
  "parse_flags formal [] = Inr ([], [])"
| "parse_flags formal (s # args) =
     (if length s < 2 \<or> hd s \<noteq> 45 then Inr ([], s # args)
      else if s = str ''--'' then Inr ([], args)
      else
        (let body = drop (if s ! 1 = 45 then 2 else 1) s;
             name = takeWhile (\<lambda>c. c \<noteq> 61) body;
             hasValue = (61 \<in> set body);
             value = drop (Suc (length name)) body
         in if body = [] \<or> hd body = 45 \<or> hd body = 61 then Inl BadFlagSyntax
            else (case map_of formal name of
                    None \<Rightarrow> Inl (if name = str ''help'' \<or> name = str ''h'' then HelpRequested else FlagNotDefined name)
                  | Some BoolFlag \<Rightarrow>
                      (let v = (if hasValue then value else str ''true'')
                       in if ParseBool v = None then Inl (InvalidBoolean name)
                          else (case parse_flags formal args of
                                  Inl e \<Rightarrow> Inl e
                                | Inr (sets, rest) \<Rightarrow> Inr ((name, v) # sets, rest)))
                  | Some StringFlag \<Rightarrow>
                      if hasValue
                      then (case parse_flags formal args of
                              Inl e \<Rightarrow> Inl e
                            | Inr (sets, rest) \<Rightarrow> Inr ((name, value) # sets, rest))
                      else (case args of
                              [] \<Rightarrow> Inl (FlagNeedsArgument name)
                            | v # args' \<Rightarrow>
                                (case parse_flags formal args' of
                                   Inl e \<Rightarrow> Inl e
                                 | Inr (sets, rest) \<Rightarrow> Inr ((name, v) # sets, rest))))))"

declare parse_flags.simps [simp del]

text \<open>The value of a flag: the last one it was set to, or its default.\<close>

definition flag_value :: "(bytes \<times> bytes) list \<Rightarrow> string \<Rightarrow> string \<Rightarrow> bytes" where
  "flag_value sets name dflt = (case map_of (rev sets) (str name) of None \<Rightarrow> str dflt | Some v \<Rightarrow> v)"

section \<open>The flags of the programs\<close>

definition client_formal :: "(bytes \<times> flag_kind) list" where
  "client_formal = map (\<lambda>n. (str n, StringFlag)) [''caches'', ''front'', ''pubkey'', ''pubkey-file'']"

definition client_flags :: "(bytes \<times> bytes) list \<Rightarrow> bytes list \<Rightarrow> clientFlags" where
  "client_flags sets args =
     \<lparr>cf_caches = flag_value sets ''caches'' ''https://cdn.ampproject.org/,https://amp.cloudflare.com/'',
      cf_front = flag_value sets ''front'' '''', cf_pubkey = flag_value sets ''pubkey'' '''',
      cf_pubkeyFile = flag_value sets ''pubkey-file'' '''', cf_args = args\<rparr>"

definition client_command :: "osenv \<Rightarrow> (bytes \<Rightarrow> goerror + 'u) \<Rightarrow> bytes list \<Rightarrow> files \<Rightarrow> flag_error + 'u client_outcome" where
  "client_command E parse argv fs =
     (case parse_flags client_formal argv of
        Inl e \<Rightarrow> Inl e
      | Inr (sets, args) \<Rightarrow> Inr (client_main E parse (client_flags sets args) fs))"

definition server_formal :: "(bytes \<times> flag_kind) list" where
  "server_formal = (str ''gen-key'', BoolFlag) # map (\<lambda>n. (str n, StringFlag)) [''privkey'', ''privkey-file'', ''pubkey-file'']"

definition server_flags :: "(bytes \<times> bytes) list \<Rightarrow> bytes list \<Rightarrow> serverFlags" where
  "server_flags sets args =
     \<lparr>sf_genKey = (ParseBool (flag_value sets ''gen-key'' ''false'') = Some True), sf_privkey = flag_value sets ''privkey'' '''',
      sf_privkeyFile = flag_value sets ''privkey-file'' '''', sf_pubkeyFile = flag_value sets ''pubkey-file'' '''', sf_args = args\<rparr>"

definition server_command ::
  "('cs, 'hs) noise_lib \<Rightarrow> osenv \<Rightarrow> (bytes \<Rightarrow> goerror + bool) \<Rightarrow> bytes \<times> goerror option \<Rightarrow> bytes list \<Rightarrow> files \<Rightarrow>
   flag_error + (files \<times> server_outcome) run" where
  "server_command L E resolve gen argv fs =
     (case parse_flags server_formal argv of
        Inl e \<Rightarrow> Inl e
      | Inr (sets, args) \<Rightarrow> Inr (server_main L E resolve gen (server_flags sets args) fs))"

section \<open>Writing a command line\<close>

text \<open>The ways to write one setting: in one argument with an equals sign, or in two; with one minus sign or two; a boolean flag alone.\<close>

inductive setting :: "(bytes \<times> flag_kind) list \<Rightarrow> bytes list \<Rightarrow> bytes \<Rightarrow> bytes \<Rightarrow> bool" for formal where
  joined: "map_of formal name = Some k \<Longrightarrow> dashes \<in> {str ''-'', str ''--''} \<Longrightarrow> k = BoolFlag \<longrightarrow> ParseBool value \<noteq> None \<Longrightarrow>
     setting formal [dashes @ name @ str ''='' @ value] name value"
| separate: "map_of formal name = Some StringFlag \<Longrightarrow> dashes \<in> {str ''-'', str ''--''} \<Longrightarrow> setting formal [dashes @ name, value] name value"
| alone: "map_of formal name = Some BoolFlag \<Longrightarrow> dashes \<in> {str ''-'', str ''--''} \<Longrightarrow> setting formal [dashes @ name] name (str ''true'')"

inductive settings :: "(bytes \<times> flag_kind) list \<Rightarrow> bytes list \<Rightarrow> (bytes \<times> bytes) list \<Rightarrow> bool" for formal where
  no_setting: "settings formal [] []"
| one_more: "setting formal ws name value \<Longrightarrow> settings formal args sets \<Longrightarrow> settings formal (ws @ args) ((name, value) # sets)"

definition flag_names_ok :: "(bytes \<times> flag_kind) list \<Rightarrow> bool" where
  "flag_names_ok formal \<longleftrightarrow> (\<forall>n \<in> fst ` set formal. n \<noteq> [] \<and> hd n \<noteq> 45 \<and> 61 \<notin> set n)"

lemma takeWhile_none: "x \<notin> set n \<Longrightarrow> takeWhile (\<lambda>c. c \<noteq> x) n = n" "x \<notin> set n \<Longrightarrow> takeWhile (\<lambda>c. c \<noteq> x) (n @ x # v) = n"
  by (induction n) auto

lemma parse_ParseBool_true: "ParseBool (str ''true'') = Some True"
  by code_simp

lemma flag_body:
  assumes "dashes \<in> {str ''-'', str ''--''}" and "x \<noteq> []" and "hd x \<noteq> 45"
  shows "\<not> (length (dashes @ x) < 2 \<or> hd (dashes @ x) \<noteq> 45)" "dashes @ x \<noteq> str ''--''" "drop (if (dashes @ x) ! 1 = 45 then 2 else 1) (dashes @ x) = x"
  using assms by (cases x; auto simp: str_def)+

text \<open>One argument that begins with a flag's name, with or without a value behind it.\<close>

lemma parse_flag:
  assumes "flag_names_ok formal" and "map_of formal name = Some k" and "dashes \<in> {str ''-'', str ''--''}" and "tail = [] \<or> tail = 61 # w"
  shows "parse_flags formal ((dashes @ name @ tail) # args) =
    (let add = (\<lambda>v args. case parse_flags formal args of Inl e \<Rightarrow> Inl e | Inr (sets, rest) \<Rightarrow> Inr ((name, v) # sets, rest))
     in case k of
          BoolFlag \<Rightarrow> (let v = (if tail = [] then str ''true'' else w) in if ParseBool v = None then Inl (InvalidBoolean name) else add v args)
        | StringFlag \<Rightarrow> if tail \<noteq> [] then add w args else (case args of [] \<Rightarrow> Inl (FlagNeedsArgument name) | v # args' \<Rightarrow> add v args'))"
proof -
  have n: "name \<noteq> []" "hd name \<noteq> 45" "61 \<notin> set name"
    using assms(1) map_of_SomeD [OF assms(2)] by (force simp: flag_names_ok_def)+
  then have b: "name @ tail \<noteq> []" "hd (name @ tail) \<noteq> 45" "hd (name @ tail) \<noteq> 61" by (cases name; auto)+
  have t: "takeWhile (\<lambda>c. c \<noteq> 61) (name @ tail) = name" "61 \<in> set (name @ tail) \<longleftrightarrow> tail \<noteq> []" "tail \<noteq> [] \<Longrightarrow> drop (Suc (length name)) (name @ tail) = w"
    using n(3) assms(4) by (auto simp: takeWhile_none)
  note f = flag_body [OF assms(3) b(1,2)]
  show ?thesis
    unfolding parse_flags.simps(2) if_not_P [OF f(1)] if_not_P [OF f(2)] f(3) Let_def t(1,2) assms(2)
    using n b assms(4) by (cases k; cases "tail = []") (auto split: sum.splits)
qed

lemma parse_setting:
  assumes "flag_names_ok formal" and "setting formal ws name val"
  shows "parse_flags formal (ws @ args) =
    (case parse_flags formal args of Inl e \<Rightarrow> Inl e | Inr (sets, rest) \<Rightarrow> Inr ((name, val) # sets, rest))"
  using assms(2)
proof cases
  case (joined k dashes)
  then show ?thesis using parse_flag [OF assms(1) joined(2,3), of "61 # val" val args] by (cases k) (auto simp: str_def Let_def)
next
  case (separate dashes)
  then show ?thesis using parse_flag [OF assms(1) separate(2,3), of "[]" "[]" "val # args"] by (simp add: Let_def)
next
  case (alone dashes)
  then show ?thesis using parse_flag [OF assms(1) alone(3,4), of "[]" "[]" args] by (simp add: Let_def parse_ParseBool_true split: sum.splits)
qed

lemma parse_settings:
  assumes "flag_names_ok formal" and "settings formal ws sets" and "\<forall>s. rest \<noteq> [] \<and> s = hd rest \<longrightarrow> length s < 2 \<or> hd s \<noteq> 45"
  shows "parse_flags formal (ws @ rest) = Inr (sets, rest)"
  using assms(2)
proof (induction rule: settings.induct)
  case no_setting
  then show ?case using assms(3) by (cases rest) (auto simp: parse_flags.simps)
next
  case (one_more ws name val args sets)
  then show ?case using parse_setting [OF assms(1) one_more(1), of "args @ rest"] by simp
qed

section \<open>Properties\<close>

lemma formal_ok: "flag_names_ok client_formal" "flag_names_ok server_formal"
  by code_simp+

text \<open>
  Both programs understand their command lines: settings of declared flags, written in any of the ways the package allows and in any
  order, followed by arguments of which the first does not look like a flag, are parsed as exactly these settings, in order, and these arguments; so the last setting of a flag counts.
\<close>

theorem command_line_parsed:
  assumes "formal \<in> {client_formal, server_formal}" and "settings formal ws sets" and "\<forall>s. rest \<noteq> [] \<and> s = hd rest \<longrightarrow> length s < 2 \<or> hd s \<noteq> 45"
  shows "parse_flags formal (ws @ rest) = Inr (sets, rest)"
  using assms formal_ok by (intro parse_settings) auto

theorem command_line_parsed_witness:
  "parse_flags client_formal ([str ''-front=a.example'', str ''--pubkey-file'', str ''server.pub''] @ [str ''https://server/'', str ''127.0.0.1:7000'']) =
     Inr ([(str ''front'', str ''a.example''), (str ''pubkey-file'', str ''server.pub'')], [str ''https://server/'', str ''127.0.0.1:7000''])"
proof (rule command_line_parsed)
  have m: "map_of client_formal (str ''front'') = Some StringFlag" "map_of client_formal (str ''pubkey-file'') = Some StringFlag" by code_simp+
  have "setting client_formal [str ''-'' @ str ''front'' @ str ''='' @ str ''a.example''] (str ''front'') (str ''a.example'')"
    by (rule setting.joined [OF m(1)]) simp_all
  moreover have "setting client_formal [str ''--'' @ str ''pubkey-file'', str ''server.pub''] (str ''pubkey-file'') (str ''server.pub'')"
    by (rule setting.separate [OF m(2)]) simp
  ultimately have "settings client_formal ([str ''-'' @ str ''front'' @ str ''='' @ str ''a.example''] @ [str ''--'' @ str ''pubkey-file'', str ''server.pub''] @ [])
      [(str ''front'', str ''a.example''), (str ''pubkey-file'', str ''server.pub'')]"
    by (intro settings.intros)
  then show "settings client_formal [str ''-front=a.example'', str ''--pubkey-file'', str ''server.pub'']
      [(str ''front'', str ''a.example''), (str ''pubkey-file'', str ''server.pub'')]" by (simp add: str_def)
qed (simp_all add: str_def)

end
