(* ===== verification/Spec2Isabelle.thy ===== *)
theory Spec2Isabelle
  imports Client_Id Session_Setup Cache_Failover Tunnel_Down Client_Status Command_Line
begin

text \<open>
  Champa: a tunnel through AMP caches

  Champa carries TCP connections inside HTTP requests that look like requests for AMP pages. The repository has two programs and
  the packages they share. This development models both programs, from their command lines down to the bytes of a
  message, as executable definitions and step relations, and proves what makes them correct.

  \<^bold>\<open>How the program works.\<close>
  At the client (\<^verbatim>\<open>champa-client\<close>) a local TCP connection becomes a stream of a smux session over KCP; KCP's packets are
  encrypted by a Noise session (\<^verbatim>\<open>noise\<close>) and queued in a packet connection (\<^verbatim>\<open>turbotunnel\<close>). A poll
  loop takes them out of the queue, encapsulates them (\<^verbatim>\<open>encapsulation\<close>) behind the client's identifier, and puts the result
  in the path of a GET request, directly or through an AMP cache (\<^verbatim>\<open>amp\<close>). How fast it polls is decided by a rate
  limiter, an adaptive controller, a quota manager and a rotor over several caches. At the server (\<^verbatim>\<open>champa-server\<close>) the HTTP handler decodes the
  path, queues the packets under the identifier, and answers with a page (\<^verbatim>\<open>armor\<close>) that carries the packets waiting for that client;
  a Noise loop between the handler's packet connection and KCP's answers handshakes, decrypts and encrypts; every
  smux stream is connected with an upstream TCP connection. The page goes back to the client, which queues its packets for Noise, KCP and smux.

  \<^bold>\<open>What models what.\<close>
  \<^item> \<open>Champa_Prelude\<close>: bytes, errors, panics, times, readers and writers, and the contract of a writer as a locale, with an
    interpretation for \<^verbatim>\<open>bytes.Buffer\<close>; invariants of step relations as locales, interpreted for the poll loop, the session holder and the relay; the collections \<open>byte_simps\<close> and \<open>go_simps\<close>.
  \<^item> \<open>Encapsulation\<close> (encapsulation/encapsulation.go): \<open>ReadData\<close>, \<open>WriteData\<close>, \<open>WritePadding\<close>, \<open>MaxDataForSize\<close>. Which
    streams are accepted, with which error others fail, round trips, and the budget function.
  \<^item> \<open>Replay_Window\<close>, \<open>Noise_Session\<close>, \<open>Noise_Keys\<close> (noise/replay.go, session.go, noise.go, champa-server/keys.go): the
    window on 64-bit words refines a set of used nonces; sessions deliver what is sent, within the window; keys as text and in files.
  \<^item> \<open>Container_Heap\<close>, \<open>Go_Channels\<close>, \<open>Remote_Map\<close>, \<open>Queue_Packet_Conn\<close> (turbotunnel/remotemap.go, queuepacketconn.go): the heap
    of the standard library, channels in a store, the map of peers with expiry, and the packet connection, for every sequence of calls.
  \<^item> \<open>Base64\<close>, \<open>Armor\<close> (armor/encoder.go, decoder.go): the streaming base64 coder of the standard library, the encoder chain and the decoder.
  \<^item> \<open>Float64\<close>, \<open>Adaptive\<close>, \<open>Rate_Limiter\<close>, \<open>Quota_Manager\<close>, \<open>Cache_Rotor\<close> (champa-client/adaptive.go, ratelimit.go,
    pollingpacketconn.go, cacherotor.go): the controllers, with the rounding of \<^verbatim>\<open>float64\<close>; every reading of the clock is an argument.
  \<^item> \<open>Packet_Select\<close>, \<open>Http_Handler\<close> (champa-server/main.go): \<open>decodeRequest\<close> and \<open>ServeHTTP\<close>.
  \<^item> \<open>Noise_Loop\<close> (champa-server/main.go, \<open>noiseLoop\<close>): the main loop and the sending goroutines, as a step relation.
  \<^item> \<open>Polling\<close> (champa-client/pollingpacketconn.go): the poll loop and the polls in flight, as a step relation.
  \<^item> \<open>Net_Url\<close>, \<open>Amp_Cache\<close>, \<open>Amp_Exchange\<close> (amp/cache.go, champa-client/amp.go): what is used of \<^verbatim>\<open>net/url\<close>, \<^verbatim>\<open>path\<close>, base32 and
    SHA-256; the URL of a page in a cache; the request of a poll and the classification of its answer.
  \<^item> \<open>Noise_Client\<close> (champa-client/main.go): the client's handshake and its encrypting packet connection.
  \<^item> \<open>Client_Id\<close> (turbotunnel/clientid.go, consts.go): new identifiers and the texts of addresses.
  \<^item> \<open>Cache_Failover\<close> (\<open>dialSession\<close> and the goroutine of a poll): the poll function asks the rotor's current cache, and the rotor counts its refusals.
  \<^item> \<open>Poll_Exchange\<close>, \<open>Session_Setup\<close>: a poll together with the server's handler, directly or through an AMP cache, and dialling a session by two polls.
  \<^item> \<open>Tunnel_Down\<close>: the sending goroutine of the server and the client's reads together, from KCP to KCP.
  \<^item> \<open>Stream_Relay\<close> (\<open>handle\<close> of the client, \<open>handleStream\<close> of the server): the copying goroutines, as a step relation.
  \<^item> \<open>Client_Main\<close>, \<open>Server_Main\<close> (the two main.go): \<open>main\<close> from the parsed flags on, \<open>run\<close>, dialling and keeping a session, the
    accepting loops, the status snapshot. \<open>Client_Status\<close>: the rest of the client's \<open>run\<close>, with the status server and the browser.
    \<open>Command_Line\<close>: the flags of both programs, and \<open>main\<close> on the arguments.
  \<^item> This theory: properties that span the programs, a poll, the tunnel and the keys from end to end.

  \<^bold>\<open>Conventions.\<close>
  A record is the state of an object, and an operation returns it changed. Errors are values of \<open>goerror\<close> in a sum or an option; a
  panic is the value \<open>Panic\<close> of the type \<open>run\<close>, so that a statement that something equals \<open>Return\<close> also says that it does not panic. A blocking operation that has
  to wait returns \<open>None\<close>. A function that may be interleaved with other goroutines takes a schedule (\<open>sched\<close>): what others do at each point, which
  ready case a \<^verbatim>\<open>select\<close> takes, and what the clock says; or its steps are rules of an inductive relation. Loops terminate by a measure;
  only \<open>readNoiseMessageOfTypeFrom\<close>, which can spin over temporary errors of a closed connection, is a partial function, and \<open>readNoise_returns\<close>
  says when it returns. No fuel is used. Words keep their width in nonces and windows; Go's \<^verbatim>\<open>int\<close> is \<open>int\<close> or \<open>nat\<close> where lengths are bounded by memory.

  \<^bold>\<open>Parameters.\<close>
  Code outside the repository is an argument, with what is relied on as named hypotheses: the Noise library and X25519 (\<open>noise_lib\<close>, with
  \<open>cipher_ok\<close>, \<open>handshake_ok\<close>, \<open>appends_ok\<close>; the witnesses use \<open>xor_lib\<close>), the HTML tokenizer (\<open>tokenizer_ok\<close>; \<open>simple_tokenizer\<close>), an AMP cache behind the HTTP transport, which
  serves a publisher under its subdomain and may change a page but keeps the text of its pre elements (\<open>amp_cache_ok\<close>; \<open>sample_amp_cache\<close>), printing and parsing of URLs (\<open>reparse_ok\<close>; \<open>sample_reparse\<close>), IDNA, the HTTP transport, what failing system calls do (\<open>osenv\<close>), and the results of KCP, smux, TCP and name resolution.

  \<^bold>\<open>What is shown.\<close>
  Round trips for every format, alone and composed (\<open>poll_end_to_end\<close>, \<open>poll_through_cache\<close>, \<open>session_by_two_polls\<close>, \<open>tunnel_upstream\<close>, \<open>tunnel_downstream\<close>, \<open>keys_end_to_end\<close>); no packet is delivered twice, one
  sender for each client, one polling connection at a time, at most four polls in flight; polls leave a cache whose quota is used up (\<open>polls_fail_over\<close>); the packet
  connection delivers what a bounded queue delivers, under any interleaving (\<open>incoming_in_order\<close>); the cache rotor refines one row of errors (\<open>rotor_refines\<close>), and slow mode starts and lasts as
  the calls before say (\<open>slow_mode_activation\<close>); which publishers share a subdomain (\<open>domainPrefixBasic_collides\<close>); no operation on peers, queues or requests
  panics but for one race, which is characterised (\<open>WriteTo_gap_safe\<close>, \<open>WriteTo_gap_panics\<close>); the errors of each operation; bounds of rates, payloads, delays, page elements and labels.

  \<^bold>\<open>Not modelled.\<close>
  The dashboard page (a constant with HTML and JavaScript), the text of numbers and strings in the status object, usage texts, log output
  (except for relayed streams), tuning calls on KCP and smux, random generators (their results are arguments). KCP and smux themselves,
  and with them retransmission and stream reassembly, are third-party code. A data race on the rate limiter is not modelled: each call is atomic.
  Outside \<open>Queue_Packet_Conn\<close>, whose interleavings split it, \<open>WriteTo\<close> is one step, so the statements about the loops that call it leave that race out.
  Of the deferred calls of the server's \<open>run\<close>, those that close the KCP listener and the HTTP server are left out, as these are outside the repository; and
  the scanner in the decoder's token loop cannot fail on the texts its tokenizer lets through, so that branch is left out.
\<close>

section \<open>A poll, end to end\<close>

text \<open>
  C2: One poll, end to end. The client takes the packets that wait for the server; its request (made
  directly, with or without domain fronting) carries them to the HTTP handler, which queues exactly
  them, in order, under the client's identifier; the page that comes back carries the packets that wait for that client;
  and the client queues exactly those. On both sides the packets that did not fit stay, first in
  line, for the next poll. (\<open>filled\<close> and \<open>bundled\<close> say which packets fit.)
\<close>

theorem poll_end_to_end:
  assumes "poll_ok c" and "quiet sch" and "\<forall>k. \<not> cancelled k" and "length (clientID c) = 8"
    and "\<forall>p \<in> set (stashed (pconn c) (remoteAddr c) @ outgoing (pconn c) (remoteAddr c)). length p < 2 ^ 20"
    and "filled (MaxPayload (adaptive c)) (length (clientID c)) True (stashed (pconn c) (remoteAddr c) @ outgoing (pconn c) (remoteAddr c)) = (taken, kept, queued)"
    and "conn_ok sc" and "\<forall>k. quiet (schs k)"
    and "\<forall>p \<in> set (stashed sc (clientID c) @ outgoing sc (clientID c)). length p < 2 ^ 20"
    and "bundled True 5000 (stashed sc (clientID c) @ outgoing sc (clientID c)) = (sent, held, rest)"
    and "length (concat (map data_chunk sent)) < maxResponseBody"
    and "tokenizer_ok tok" and "EscapedPath serverURL = [] \<or> EscapedPath serverURL = str ''/''" and "length b = 12"
    and "\<forall>p. reparse (payload_url serverURL b p) = Inr (payload_url serverURL b p)"
  shows "\<exists>c1 payload r c2 sc' resp.
    gather cancelled sch [] c = Return (c1, Some payload) \<and>
    exchangeAMP ToUnicode ToASCII reparse parse tok (direct_server schs sc) (Inr b) serverURL None front payload = Return (Inr r) \<and>
    processIncoming c1 r = (c2, length (concat sent), None) \<and>
    ServeHTTP (\<lambda>_. []) schs buffer_Write ''GET'' (request_path b payload) sc [] = Return (sc', resp) \<and>
    recvQueue sc' = recvQueue (foldl (\<lambda>sc p. QueueIncoming sc p (clientID c)) sc taken) \<and>
    pconn c2 = foldl (\<lambda>pc p. QueueIncoming pc p (remoteAddr c)) (pconn c1) sent \<and>
    stashed (pconn c1) (remoteAddr c) = kept \<and> outgoing (pconn c1) (remoteAddr c) = queued \<and>
    stashed sc' (clientID c) = held \<and> outgoing sc' (clientID c) = rest"
  by (rule poll_carries [OF assms(1-12) reaches_direct [OF assms(13-15)]]) (intro exI conjI, (assumption | simp)+)

theorem poll_end_to_end_witness:
  "\<exists>(c :: (bytes, bytes) PollingPacketConn) sc. stashed (pconn c) (remoteAddr c) = [[1, 2]] \<and> stashed sc (clientID c) = [[9]] \<and>
   (\<exists>c1 payload r c2 sc' resp. gather (\<lambda>_. False) sample_sched [] c = Return (c1, Some payload) \<and>
    exchangeAMP Inr Inr Inr (\<lambda>_. Inl EOF) simple_tokenizer (direct_server (\<lambda>_. sample_sched) sc) (Inr (replicate 12 5)) sample_server None
      (str ''front.example'') payload = Return (Inr r) \<and>
    processIncoming c1 r = (c2, 1, None) \<and>
    ServeHTTP (\<lambda>_. []) (\<lambda>_. sample_sched) buffer_Write ''GET'' (request_path (replicate 12 5) payload) sc [] = Return (sc', resp) \<and>
    recvQueue sc' = recvQueue (QueueIncoming sc [1, 2] (clientID c)) \<and>
    pconn c2 = QueueIncoming (pconn c1) [9] (remoteAddr c) \<and>
    stashed (pconn c1) (remoteAddr c) = [] \<and> outgoing (pconn c1) (remoteAddr c) = [] \<and>
    stashed sc' (clientID c) = [] \<and> outgoing sc' (clientID c) = [])"
proof -
  obtain c :: "(bytes, bytes) PollingPacketConn" and sc where c: "poll_ok c" "clientID c = replicate 8 7" "conn_ok sc"
    and w: "stashed (pconn c) (remoteAddr c) = [[1, 2]]" "outgoing (pconn c) (remoteAddr c) = []"
      "stashed sc (replicate 8 7) = [[9]]" "outgoing sc (replicate 8 7) = []"
    and f: "filled (MaxPayload (adaptive c)) (length (clientID c)) True (stashed (pconn c) (remoteAddr c) @ outgoing (pconn c) (remoteAddr c)) = ([[1, 2]], [], [])"
    and g: "bundled True 5000 (stashed sc (clientID c) @ outgoing sc (clientID c)) = ([[9]], [], [])"
    and l: "length (concat (map data_chunk [[9]])) < maxResponseBody" by (rule sample_pair)
  have "\<exists>c1 payload r c2 sc' resp. gather (\<lambda>_. False) sample_sched [] c = Return (c1, Some payload) \<and>
    exchangeAMP Inr Inr Inr (\<lambda>_. Inl EOF) simple_tokenizer (direct_server (\<lambda>_. sample_sched) sc) (Inr (replicate 12 5)) sample_server None
      (str ''front.example'') payload = Return (Inr r) \<and>
    processIncoming c1 r = (c2, length (concat [[9 :: byte]]), None) \<and>
    ServeHTTP (\<lambda>_. []) (\<lambda>_. sample_sched) buffer_Write ''GET'' (request_path (replicate 12 5) payload) sc [] = Return (sc', resp) \<and>
    recvQueue sc' = recvQueue (foldl (\<lambda>sc p. QueueIncoming sc p (clientID c)) sc [[1, 2]]) \<and>
    pconn c2 = foldl (\<lambda>pc p. QueueIncoming pc p (remoteAddr c)) (pconn c1) [[9]] \<and>
    stashed (pconn c1) (remoteAddr c) = [] \<and> outgoing (pconn c1) (remoteAddr c) = [] \<and>
    stashed sc' (clientID c) = [] \<and> outgoing sc' (clientID c) = []"
    by (rule poll_end_to_end [OF c(1) _ _ _ _ f c(3) _ _ g l simple_tokenizer_ok])
      (simp_all add: w c(2) sample_server_path)
  then show ?thesis by - (rule exI [of _ c], rule exI [of _ sc], simp add: w c(2))
qed

text \<open>
  C3: One poll through an AMP cache. With a cache that fetches the page the request names from the server's host and hands it on
  with the text of its pre elements kept, whatever else it changes in the page, a poll does what it does when the request reaches the
  server directly: the packets that fit arrive on both sides, once and in order, and the others stay. Domain fronting in front of the cache makes no difference.
\<close>

theorem poll_through_cache:
  assumes "poll_ok c" and "quiet sch" and "\<forall>k. \<not> cancelled k" and "length (clientID c) = 8"
    and "\<forall>p \<in> set (stashed (pconn c) (remoteAddr c) @ outgoing (pconn c) (remoteAddr c)). length p < 2 ^ 20"
    and "filled (MaxPayload (adaptive c)) (length (clientID c)) True (stashed (pconn c) (remoteAddr c) @ outgoing (pconn c) (remoteAddr c)) = (taken, kept, queued)"
    and "conn_ok sc" and "\<forall>k. quiet (schs k)"
    and "\<forall>p \<in> set (stashed sc (clientID c) @ outgoing sc (clientID c)). length p < 2 ^ 20"
    and "bundled True 5000 (stashed sc (clientID c) @ outgoing sc (clientID c)) = (sent, held, rest)"
    and "length (concat (map data_chunk sent)) < maxResponseBody" and "tokenizer_ok tok"
    and "EscapedPath serverURL = [] \<or> EscapedPath serverURL = str ''/''" and "length b = 12"
    and "EscapedPath cacheURL = [] \<or> EscapedPath cacheURL = str ''/''"
    and "Scheme serverURL = str ''https''" and "\<not> is_dots (escape (Hostname serverURL) encodePathSegment)"
    and "cacheable serverURL cacheURL (str ''c'')"
    and "\<forall>p u. CacheURL ToUnicode ToASCII (payload_url serverURL b p) cacheURL (str ''c'') = Inr u \<longrightarrow> reparse_ok reparse u"
    and "amp_cache_ok tok (cache_site ToUnicode ToASCII serverURL cacheURL) cache (publishers schs sc serverURL elsewhere)"
  shows "\<exists>c1 payload r c2 sc' resp.
    gather cancelled sch [] c = Return (c1, Some payload) \<and>
    exchangeAMP ToUnicode ToASCII reparse parse tok cache (Inr b) serverURL (Some cacheURL) front payload = Return (Inr r) \<and>
    processIncoming c1 r = (c2, length (concat sent), None) \<and>
    ServeHTTP (\<lambda>_. []) schs buffer_Write ''GET'' (request_path b payload) sc [] = Return (sc', resp) \<and>
    recvQueue sc' = recvQueue (foldl (\<lambda>sc p. QueueIncoming sc p (clientID c)) sc taken) \<and>
    pconn c2 = foldl (\<lambda>pc p. QueueIncoming pc p (remoteAddr c)) (pconn c1) sent \<and>
    stashed (pconn c1) (remoteAddr c) = kept \<and> outgoing (pconn c1) (remoteAddr c) = queued \<and>
    stashed sc' (clientID c) = held \<and> outgoing sc' (clientID c) = rest"
  by (rule poll_carries [OF assms(1-12) reaches_cached [OF assms(12,13,15-18,14,20,19)]]) (intro exI conjI, (assumption | simp)+)

theorem poll_through_cache_witness:
  "\<exists>(c :: (bytes, bytes) PollingPacketConn) sc. stashed (pconn c) (remoteAddr c) = [[1, 2]] \<and> stashed sc (clientID c) = [[9]] \<and>
   (\<exists>c1 payload r c2 sc' resp. gather (\<lambda>_. False) sample_sched [] c = Return (c1, Some payload) \<and>
    exchangeAMP Inr Inr sample_reparse (\<lambda>_. Inl EOF) simple_tokenizer
      (sample_amp_cache (str ''server-example.cdn.ampproject.org'') (publishers (\<lambda>_. sample_sched) sc sample_server (\<lambda>_ _. Inl EOF))) (Inr (replicate 12 5)) sample_server (Some sample_cache)
      (str ''front.example'') payload = Return (Inr r) \<and>
    processIncoming c1 r = (c2, 1, None) \<and>
    ServeHTTP (\<lambda>_. []) (\<lambda>_. sample_sched) buffer_Write ''GET'' (request_path (replicate 12 5) payload) sc [] = Return (sc', resp) \<and>
    recvQueue sc' = recvQueue (QueueIncoming sc [1, 2] (clientID c)) \<and>
    pconn c2 = QueueIncoming (pconn c1) [9] (remoteAddr c) \<and>
    stashed (pconn c1) (remoteAddr c) = [] \<and> outgoing (pconn c1) (remoteAddr c) = [] \<and>
    stashed sc' (clientID c) = [] \<and> outgoing sc' (clientID c) = [])"
proof -
  obtain c :: "(bytes, bytes) PollingPacketConn" and sc where c: "poll_ok c" "clientID c = replicate 8 7" "conn_ok sc"
    and w: "stashed (pconn c) (remoteAddr c) = [[1, 2]]" "outgoing (pconn c) (remoteAddr c) = []"
      "stashed sc (replicate 8 7) = [[9]]" "outgoing sc (replicate 8 7) = []"
    and f: "filled (MaxPayload (adaptive c)) (length (clientID c)) True (stashed (pconn c) (remoteAddr c) @ outgoing (pconn c) (remoteAddr c)) = ([[1, 2]], [], [])"
    and g: "bundled True 5000 (stashed sc (clientID c) @ outgoing sc (clientID c)) = ([[9]], [], [])"
    and l: "length (concat (map data_chunk [[9]])) < maxResponseBody" by (rule sample_pair)
  have site: "amp_cache_ok simple_tokenizer (cache_site Inr Inr sample_server sample_cache) (sample_amp_cache (str ''server-example.cdn.ampproject.org'') origin) origin" for origin
    unfolding sample_site by (rule sample_amp_cache_ok)
  have "\<exists>c1 payload r c2 sc' resp. gather (\<lambda>_. False) sample_sched [] c = Return (c1, Some payload) \<and>
    exchangeAMP Inr Inr sample_reparse (\<lambda>_. Inl EOF) simple_tokenizer
      (sample_amp_cache (str ''server-example.cdn.ampproject.org'') (publishers (\<lambda>_. sample_sched) sc sample_server (\<lambda>_ _. Inl EOF))) (Inr (replicate 12 5)) sample_server (Some sample_cache)
      (str ''front.example'') payload = Return (Inr r) \<and>
    processIncoming c1 r = (c2, length (concat [[9 :: byte]]), None) \<and>
    ServeHTTP (\<lambda>_. []) (\<lambda>_. sample_sched) buffer_Write ''GET'' (request_path (replicate 12 5) payload) sc [] = Return (sc', resp) \<and>
    recvQueue sc' = recvQueue (foldl (\<lambda>sc p. QueueIncoming sc p (clientID c)) sc [[1, 2]]) \<and>
    pconn c2 = foldl (\<lambda>pc p. QueueIncoming pc p (remoteAddr c)) (pconn c1) [[9]] \<and>
    stashed (pconn c1) (remoteAddr c) = [] \<and> outgoing (pconn c1) (remoteAddr c) = [] \<and>
    stashed sc' (clientID c) = [] \<and> outgoing sc' (clientID c) = []"
    by (rule poll_through_cache [OF c(1) _ _ _ _ f c(3) _ _ g l simple_tokenizer_ok _ _ _ _ _ _ _ site])
      (simp_all add: w c(2) sample_server_path sample_cacheable sample_reparse_ok)
  then show ?thesis by - (rule exI [of _ c], rule exI [of _ sc], simp add: w c(2))
qed

section \<open>The tunnel, end to end\<close>

text \<open>
  C4: The tunnel carries what KCP sends. Up to 256 packets that KCP writes at the client to its Noise connection become
  messages in the queue of the poll loop; once these messages are in the queue of the server's Noise loop, under the
  address of the client, whose session there has the matching keys, the loop hands
  exactly these packets to the server's KCP, in order and none of them twice.
\<close>

theorem tunnel_upstream:
  assumes "cipher_ok L matched" and "fresh_pair L matched (sess c) (sess_store s ! j)"
    and "conn_ok (packetConn c)" and "\<not> queuePacketConn.closed (packetConn c)" and "outgoing (packetConn c) server = []"
    and "length xs \<le> queueSize" and "noise_writes L c server xs = Return (c', True)"
    and "noise_ok s" and "halted s = None" and "\<not> queuePacketConn.closed (noiseConn s)" and "sessions s a = Some j"
    and "ch_buf (recvQueue (noiseConn s)) = map (\<lambda>m. (m, a)) (outgoing (packetConn c') server)"
    and "\<forall>m \<in> set (outgoing (packetConn c') server). length m \<le> 1500"
  shows "\<exists>s' ds. noise_exec L temporary privkey s ds s' \<and> map (\<lambda>(_, _, p). p) ds = map fst xs \<and>
    plainConn s' = foldl (\<lambda>pc p. QueueIncoming pc p a) (plainConn s) (map fst xs)"
proof -
  obtain ms where ms: "outgoing (packetConn c') server = map (Cons MsgTypeTransport) ms"
    "map snd (decrypt_run L (sess_store s ! j) ms) = map fst xs"
    by (rule noise_writes_decrypted [OF assms(1-7)])
  let ?ds = "decrypt_run L (sess_store s ! j) ms"
  have q: "ch_buf (recvQueue (noiseConn s)) = map (\<lambda>m. (MsgTypeTransport # m, a)) ms @ []" using assms(12) ms(1) by simp
  have "\<forall>m \<in> set ms. length m < 1500" using assms(13) ms(1) by auto
  from transport_run [OF assms(8-11) q this] obtain s' where
    e: "noise_exec L temporary privkey s (map (\<lambda>(n, p). (j, n, p)) ?ds) s'"
      "plainConn s' = foldl (\<lambda>c (n, p). QueueIncoming c p a) (plainConn s) ?ds" by blast
  have "foldl (\<lambda>c (n, p). QueueIncoming c p a) k ds = foldl (\<lambda>pc p. QueueIncoming pc p a) k (map snd ds)" for k and ds :: "(64 word \<times> bytes) list"
    by (induction ds arbitrary: k) (auto split: prod.splits)
  then have "plainConn s' = foldl (\<lambda>pc p. QueueIncoming pc p a) (plainConn s) (map fst xs)" using e(2) ms(2) by simp
  moreover have "map (\<lambda>(_, _, p). p) (map (\<lambda>(n, p). (j, n, p)) ?ds) = map fst xs"
    unfolding ms(2) [symmetric] by (simp add: comp_def case_prod_beta)
  ultimately show ?thesis using e(1) by blast
qed

theorem tunnel_upstream_witness:
  "\<exists>s s' ds. noise_exec xor_lib (\<lambda>_. False) [5] s ds s' \<and> map (\<lambda>(_, _, p). p) ds = [[1, 2]] \<and>
     plainConn s' = QueueIncoming (plainConn s) [1, 2] [9 :: byte]"
proof -
  let ?c = "\<lparr>sess = \<lparr>recv = (8, 0), send = (7, 0), replay = emptyWindow\<rparr>, packetConn = NewQueuePacketConn [9 :: byte]\<rparr>"
  let ?server = "\<lparr>recv = (7, 0), send = (8, 0), replay = emptyWindow\<rparr>"
  have e: "\<not> queuePacketConn.closed (NewQueuePacketConn [9 :: byte])" "outgoing (NewQueuePacketConn [9 :: byte]) [8] = []"
    by (simp_all add: NewQueuePacketConn_def outgoing_def peers_def NewRemoteMap_def)
  obtain s1 buf where b: "Encrypt xor_lib (sess ?c) [MsgTypeTransport] [1, 2] = (s1, Inr buf)" "length buf = 11"
    by (simp add: Encrypt_def xor_lib_def)
  obtain k where k: "WriteTo (NewQueuePacketConn [9 :: byte]) buf [8] 0 = Return (k, Inr (length buf))" "outgoing k [8] = [buf]"
    using WriteTo_appends [OF NewQueuePacketConn_ok e(1), of buf "[8]" 0] e(2) by (auto simp: queueSize_def)
  have w: "noise_writes xor_lib ?c [8] [([1, 2], 0)] = Return (\<lparr>sess = s1, packetConn = k\<rparr>, True)"
    using b(1) k(1) by (simp add: noise_WriteTo_def)
  define nc where "nc = (NewQueuePacketConn [])\<lparr>recvQueue := (recvQueue (NewQueuePacketConn []))\<lparr>ch_buf := [(buf, [9 :: byte])]\<rparr>\<rparr>"
  define s where "s = xor_start\<lparr>noiseConn := nc, sessions := [[9] \<mapsto> 0], sess_store := [?server], senders := [Starting [9]]\<rparr>"
  have nc: "conn_ok nc" "\<not> queuePacketConn.closed nc"
    using NewQueuePacketConn_ok [of "[] :: bytes"] by (simp_all add: nc_def conn_ok_def NewQueuePacketConn_def queueSize_def)
  have ok: "noise_ok s"
    using nc(1) NewQueuePacketConn_ok by (simp add: noise_ok_def s_def xor_start_def noise_start_def linked_def nth_Cons' less_Suc_eq)
  have f: "fresh_pair xor_lib same_key (sess ?c) (sess_store s ! 0)" by (simp add: s_def fresh_pair_def same_key_def xor_lib_def)
  have "\<exists>s' ds. noise_exec xor_lib (\<lambda>_. False) [5] s ds s' \<and> map (\<lambda>(_, _, p). p) ds = map fst [([1, 2], 0 :: int)] \<and>
    plainConn s' = foldl (\<lambda>pc p. QueueIncoming pc p [9]) (plainConn s) (map fst [([1, 2], 0 :: int)])"
    by (rule tunnel_upstream [OF xor_lib_cipher_ok f _ _ _ _ w ok])
      (simp_all add: e NewQueuePacketConn_ok queueSize_def k(2) b(2), simp_all add: s_def nc xor_start_def noise_start_def, simp add: nc_def)
  then obtain s' ds where "noise_exec xor_lib (\<lambda>_. False) [5] s ds s'" "map (\<lambda>(_, _, p). p) ds = [[1, 2]]"
    "plainConn s' = QueueIncoming (plainConn s) [1, 2] [9]" by (elim exE conjE) (simp add: that)
  then show ?thesis by (intro exI [of _ s] exI [of _ s'] exI [of _ ds] conjI)
qed

section \<open>Keys, end to end\<close>

text \<open>The programs on parsed flags; the commands below are this with the flags parsed.\<close>

lemma keys_flags:
  assumes "handshake_ok L matched" and "X25519_base L privkey = Inr pubkey" and "length privkey = KeyLen" and "length pubkey = KeyLen"
    and "sf_genKey gen_flags" and "server_main L E resolve (privkey, None) gen_flags fs = Return (fs1, Generated out)"
    and "sf_privkeyFile gen_flags = priv" and "sf_pubkeyFile gen_flags = pub" and "priv \<noteq> []" and "pub \<noteq> []" and "priv \<noteq> pub" and "fs priv = None"
    and "\<not> sf_genKey serve_flags" and "sf_privkeyFile serve_flags = priv" and "sf_privkey serve_flags = []"
    and "sf_args serve_flags = [listen, upstream]" and "resolve upstream = Inr True"
    and "cf_pubkeyFile cflags = pub" and "cf_pubkey cflags = []" and "cf_args cflags = [server_url, local]" and "parse server_url = Inr u"
  shows "server_main L E resolve gen serve_flags fs1 = Return (fs1, Serve listen upstream privkey) \<and>
    client_main E parse cflags fs1 = ClientRun u (NewCacheRotor parse (cacheList (cf_caches cflags))) (cf_front cflags) local pubkey \<and>
    (\<forall>pre m1 hdr server m2. InitiateHandshake L [] pubkey = Inr (pre, m1) \<longrightarrow> AcceptHandshake L hdr m1 privkey = Return (Inr (server, m2)) \<longrightarrow>
       (\<exists>client. FinishHandshake L pre (drop (length hdr) m2) = Inr client \<and> fresh_pair L matched client server))"
proof -
  have "generateKeypair L E (privkey, None) priv pub fs = Return (fs1, out, None)"
    using assms(5-8) by (auto simp: server_main_def run_bind_Return split: if_splits option.splits)
  moreover have "PubkeyFromPrivkey L privkey = Return pubkey" using assms(2) by (simp add: PubkeyFromPrivkey_def)
  moreover have "length (file_contents fs priv) \<le> 65" using assms(12) by (simp add: file_contents_def)
  ultimately have r: "readKeyFromFile E fs1 priv = (privkey, None)" "readKeyFromFile E fs1 pub = (pubkey, None)"
    using generateKeypair_readable assms(3,4,9-11) by metis+
  have "server_main L E resolve gen serve_flags fs1 = Return (fs1, Serve listen upstream privkey)"
    using assms(9,13-17) r(1) by (simp add: server_main_def choosePrivkey_def)
  moreover have "client_main E parse cflags fs1 = ClientRun u (NewCacheRotor parse (cacheList (cf_caches cflags))) (cf_front cflags) local pubkey"
    using assms(10,18-21) r(2) by (simp add: client_main_def choosePubkey_def)
  moreover have "\<exists>client. FinishHandshake L pre (drop (length hdr) m2) = Inr client \<and> fresh_pair L matched client server"
    if "InitiateHandshake L [] pubkey = Inr (pre, m1)" "AcceptHandshake L hdr m1 privkey = Return (Inr (server, m2))" for pre m1 hdr server m2
    using handshake_sessions [OF assms(1,2) that] by (auto simp: fresh_pair_def)
  ultimately show ?thesis by blast
qed

lemma command_flags:
  "parse_flags server_formal [str ''-gen-key'', str ''-privkey-file'', priv, str ''-pubkey-file'', pub] =
     Inr ([(str ''gen-key'', str ''true''), (str ''privkey-file'', priv), (str ''pubkey-file'', pub)], [])"
  "length x < 2 \<or> hd x \<noteq> 45 \<Longrightarrow> parse_flags server_formal [str ''-privkey-file'', priv, x, y] = Inr ([(str ''privkey-file'', priv)], [x, y])"
  "length x < 2 \<or> hd x \<noteq> 45 \<Longrightarrow> parse_flags client_formal [str ''-pubkey-file'', pub, x, y] = Inr ([(str ''pubkey-file'', pub)], [x, y])"
proof -
  have m: "map_of server_formal (str ''gen-key'') = Some BoolFlag" "map_of server_formal (str ''privkey-file'') = Some StringFlag"
    "map_of server_formal (str ''pubkey-file'') = Some StringFlag" "map_of client_formal (str ''pubkey-file'') = Some StringFlag" by code_simp+
  have s: "setting server_formal [str ''-gen-key''] (str ''gen-key'') (str ''true'')" "setting server_formal [str ''-privkey-file'', v] (str ''privkey-file'') v"
    "setting server_formal [str ''-pubkey-file'', v] (str ''pubkey-file'') v" "setting client_formal [str ''-pubkey-file'', v] (str ''pubkey-file'') v" for v
    using setting.alone [OF m(1), of "str ''-''"] setting.separate [OF m(2), of "str ''-''" v] setting.separate [OF m(3), of "str ''-''" v]
      setting.separate [OF m(4), of "str ''-''" v] by (simp_all add: str_def)
  show "parse_flags server_formal [str ''-gen-key'', str ''-privkey-file'', priv, str ''-pubkey-file'', pub] =
     Inr ([(str ''gen-key'', str ''true''), (str ''privkey-file'', priv), (str ''pubkey-file'', pub)], [])"
    using parse_setting [OF formal_ok(2) s(1)] parse_setting [OF formal_ok(2) s(2)] parse_setting [OF formal_ok(2) s(3)] by (simp add: parse_flags.simps(1))
  show "parse_flags server_formal [str ''-privkey-file'', priv, x, y] = Inr ([(str ''privkey-file'', priv)], [x, y])" if "length x < 2 \<or> hd x \<noteq> 45"
    using parse_setting [OF formal_ok(2) s(2)] that by (simp add: parse_flags.simps(2))
  show "parse_flags client_formal [str ''-pubkey-file'', pub, x, y] = Inr ([(str ''pubkey-file'', pub)], [x, y])" if "length x < 2 \<or> hd x \<noteq> 45"
    using parse_setting [OF formal_ok(1) s(4)] that by (simp add: parse_flags.simps(2))
qed

text \<open>
  C6: The keys work end to end, from the command lines that the usage texts give. After the server program has been run with
  \<^verbatim>\<open>-gen-key\<close> and the names of two files, of which the private one is new, running the server with the private key's file serves with the private key that was
  generated, running the client with the public key's file uses the public key that belongs to it (and the default caches, without domain fronting), and a handshake between the two ends in sessions whose
  keys match.
\<close>

theorem keys_end_to_end:
  assumes "handshake_ok L matched" and "X25519_base L privkey = Inr pubkey" and "length privkey = KeyLen" and "length pubkey = KeyLen"
    and "server_command L E resolve (privkey, None) [str ''-gen-key'', str ''-privkey-file'', priv, str ''-pubkey-file'', pub] fs = Inr (Return (fs1, Generated out))"
    and "priv \<noteq> []" and "pub \<noteq> []" and "priv \<noteq> pub" and "fs priv = None"
    and "length listen < 2 \<or> hd listen \<noteq> 45" and "resolve upstream = Inr True"
    and "length server_url < 2 \<or> hd server_url \<noteq> 45" and "parse server_url = Inr u"
  shows "server_command L E resolve gen [str ''-privkey-file'', priv, listen, upstream] fs1 = Inr (Return (fs1, Serve listen upstream privkey)) \<and>
    client_command E parse [str ''-pubkey-file'', pub, server_url, local] fs1 =
      Inr (ClientRun u (NewCacheRotor parse (cacheList (str ''https://cdn.ampproject.org/,https://amp.cloudflare.com/''))) [] local pubkey) \<and>
    (\<forall>pre m1 hdr server m2. InitiateHandshake L [] pubkey = Inr (pre, m1) \<longrightarrow> AcceptHandshake L hdr m1 privkey = Return (Inr (server, m2)) \<longrightarrow>
       (\<exists>client. FinishHandshake L pre (drop (length hdr) m2) = Inr client \<and> fresh_pair L matched client server))"
proof -
  let ?g = "server_flags [(str ''gen-key'', str ''true''), (str ''privkey-file'', priv), (str ''pubkey-file'', pub)] []"
  let ?s = "server_flags [(str ''privkey-file'', priv)] [listen, upstream]" and ?c = "client_flags [(str ''pubkey-file'', pub)] [server_url, local]"
  have g: "server_main L E resolve (privkey, None) ?g fs = Return (fs1, Generated out)"
    using assms(5) by (simp add: server_command_def command_flags)
  have "sf_genKey ?g" "sf_privkeyFile ?g = priv" "sf_pubkeyFile ?g = pub" "\<not> sf_genKey ?s" "sf_privkeyFile ?s = priv" "sf_privkey ?s = []"
    "sf_args ?s = [listen, upstream]" "cf_pubkeyFile ?c = pub" "cf_pubkey ?c = []" "cf_args ?c = [server_url, local]" "cf_front ?c = []"
    "cf_caches ?c = str ''https://cdn.ampproject.org/,https://amp.cloudflare.com/''"
    by (simp_all add: server_flags_def client_flags_def flag_value_def ParseBool_def str_def)
  with keys_flags [where gen_flags = ?g and serve_flags = ?s and cflags = ?c and parse = parse, OF assms(1-4) _ g _ _ assms(6-9)] assms(10-13)
  show ?thesis by (simp add: server_command_def client_command_def command_flags)
qed

theorem keys_end_to_end_witness:
  "\<exists>fs1 out. server_command xor_lib no_failures (\<lambda>_. Inr True) (replicate 32 1, None)
       [str ''-gen-key'', str ''-privkey-file'', str ''server.key'', str ''-pubkey-file'', str ''server.pub''] Map.empty = Inr (Return (fs1, Generated out)) \<and>
     server_command xor_lib no_failures (\<lambda>_. Inr True) ([], None) [str ''-privkey-file'', str ''server.key'', str '':8080'', str ''up:1''] fs1 =
       Inr (Return (fs1, Serve (str '':8080'') (str ''up:1'') (replicate 32 1)))"
proof -
  let ?g = "server_flags [(str ''gen-key'', str ''true''), (str ''privkey-file'', str ''server.key''), (str ''pubkey-file'', str ''server.pub'')] []"
  obtain fs1 out where "server_main xor_lib no_failures (\<lambda>_. Inr True) (replicate 32 1, None) ?g Map.empty = Return (fs1, Generated out)"
    by (simp add: server_main_def generateKeypair_def PubkeyFromPrivkey_def xor_lib_def saveKey_def OpenFile_def WriteKey_def
        file_Write_def no_failures_def server_flags_def flag_value_def ParseBool_def str_def)
  then have g: "server_command xor_lib no_failures (\<lambda>_. Inr True) (replicate 32 1, None)
       [str ''-gen-key'', str ''-privkey-file'', str ''server.key'', str ''-pubkey-file'', str ''server.pub''] Map.empty = Inr (Return (fs1, Generated out))"
    by (simp add: server_command_def command_flags)
  have "X25519_base xor_lib (replicate 32 1) = Inr (replicate 32 1)" by (simp add: xor_lib_def)
  from keys_end_to_end [where parse = "\<lambda>x. Inr x" and listen = "str '':8080''" and upstream = "str ''up:1''" and gen = "([], None)" and server_url = "str ''https://server/''",
      OF xor_lib_handshake_ok this _ _ g] g
  show ?thesis by (auto simp: KeyLen_def str_def)
qed

end
